(* ===== verification/Knd_Prelude.thy ===== *)
theory Knd_Prelude
  imports Main "HOL-Library.Word"
begin

text \<open>
  Shared vocabulary of the development: machine words, byte memory with little-endian loads
  and stores, byte strings, and the generic lemmas on lists, words and memory that the
  component theories use.
\<close>

unbundle bit_operations_syntax

section \<open>Collections\<close>

named_theorems mem_simps \<open>reads of a byte memory after writes\<close>
named_theorems const_defs \<open>numeric constants of the shared protocol header\<close>
named_theorems layout_defs \<open>field offsets and structure sizes\<close>

section \<open>Machine integers\<close>

type_synonym u8 = "8 word"
type_synonym u16 = "16 word"
type_synonym u32 = "32 word"
type_synonym u64 = "64 word"
type_synonym bytes = "8 word list"

lemma unat_u8_lt [simp]: "unat (b :: u8) < 256"
  using unsigned_less [of b, where ?'a = nat] by simp

lemma unat_u16_lt [simp]: "unat (b :: u16) < 65536"
  using unsigned_less [of b, where ?'a = nat] by simp

lemma unat_u32_lt [simp]: "unat (b :: u32) < 4294967296"
  using unsigned_less [of b, where ?'a = nat] by simp

lemma unat_u64_lt [simp]: "unat (b :: u64) < 18446744073709551616"
  using unsigned_less [of b, where ?'a = nat] by simp

lemma unat_ucast_up_32_64 [simp]: "unat (ucast (w :: u32) :: u64) = unat w"
proof -
  have "unat w < 2 ^ 64" by (rule less_trans [OF unat_u32_lt]) simp
  then show ?thesis by (simp add: unsigned_ucast_eq take_bit_nat_eq_self)
qed

text \<open>Addition and subtraction that do not wrap.\<close>

lemma unat_plus_no_wrap:
  fixes a b :: "'a::len word"
  assumes "unat a + unat b < 2 ^ LENGTH('a)"
  shows "unat (a + b) = unat a + unat b"
  using assms by (simp add: unat_word_ariths)

lemma unat_minus_no_wrap:
  fixes a b :: "'a::len word"
  assumes "unat b \<le> unat a"
  shows "unat (a - b) = unat a - unat b"
  using assms by (simp add: unat_sub word_le_nat_alt)

text \<open>Masking with a power of two minus one is the remainder.\<close>

lemma unat_and_mask:
  fixes w :: "'a::len word"
  assumes "k < LENGTH('a)"
  shows "unat (w AND (2 ^ k - 1)) = unat w mod 2 ^ k"
proof -
  have "w AND (2 ^ k - 1) = take_bit k w"
    by (simp only: take_bit_eq_mask mask_eq_decr_exp)
  then have "unat (w AND (2 ^ k - 1)) = take_bit k (unat w)"
    by (simp only: unsigned_take_bit_eq)
  then show ?thesis
    by (simp only: take_bit_eq_mod)
qed

lemma unat_two_power:
  assumes "k < LENGTH('a)"
  shows "unat (2 ^ k :: 'a::len word) = 2 ^ k"
proof -
  have "(2 ^ k :: 'a word) = word_of_nat (2 ^ k)" by simp
  then have "unat (2 ^ k :: 'a word) = 2 ^ k mod 2 ^ LENGTH('a)"
    by (simp only: unat_of_nat)
  with assms show ?thesis by simp
qed

lemma unat_ucast_64_32: "unat (x :: u64) < 2 ^ 32 \<Longrightarrow> unat (ucast x :: u32) = unat x"
  by (simp add: unsigned_ucast_eq take_bit_nat_eq_self)

lemma word_of_nat_unat: "word_of_nat (unat w) = w"
  by (simp add: word_eq_iff_unsigned [where ?'a = nat])

lemma ucast_of_nat_small:
  assumes "n < 2 ^ 32"
  shows "(ucast (word_of_nat n :: u32) :: u64) = word_of_nat n"
  using assms by (simp add: word_eq_iff_unsigned [where ?'a = nat] unat_of_nat)

section \<open>Little-endian byte strings\<close>

primrec le_bytes :: "nat \<Rightarrow> nat \<Rightarrow> bytes" where
  "le_bytes 0 v = []"
| "le_bytes (Suc n) v = word_of_nat v # le_bytes n (v div 256)"

primrec le_val :: "bytes \<Rightarrow> nat" where
  "le_val [] = 0"
| "le_val (b # bs) = unat b + 256 * le_val bs"

lemma length_le_bytes [simp]: "length (le_bytes n v) = n"
  by (induction n arbitrary: v) simp_all

lemma le_bytes_2: "le_bytes 2 v = [word_of_nat v, word_of_nat (v div 256)]"
  by (simp add: numeral_2_eq_2)

lemma le_val_le_bytes: "le_val (le_bytes n v) = v mod 256 ^ n"
proof (induction n arbitrary: v)
  case 0
  show ?case by simp
next
  case (Suc n)
  have "le_val (le_bytes (Suc n) v) = v mod 256 + 256 * (v div 256 mod 256 ^ n)"
    by (simp add: Suc.IH unat_of_nat)
  also have "\<dots> = v mod (256 * 256 ^ n)"
    by (simp add: mod_mult2_eq)
  finally show ?case by simp
qed

lemma le_bytes_le_val: "le_bytes (length bs) (le_val bs) = bs"
proof (induction bs)
  case Nil
  show ?case by simp
next
  case (Cons b bs)
  have lt: "unat b < 256" by simp
  have z: "(256 :: u8) = 0" by simp
  have "word_of_nat (unat b + 256 * le_val bs) = b + (256 :: u8) * word_of_nat (le_val bs)"
    by simp
  then have "word_of_nat (unat b + 256 * le_val bs) = (b :: u8)"
    by (simp only: z mult_zero_left add_0_right)
  with Cons lt show ?case by simp
qed

section \<open>Byte memory\<close>

text \<open>
  A memory maps an address to its byte. Writing a byte string changes exactly the addresses
  it covers, so what an operation does not touch is visible in a theorem.
\<close>

type_synonym mem = "nat \<Rightarrow> u8"

definition mem_read :: "mem \<Rightarrow> nat \<Rightarrow> nat \<Rightarrow> bytes" where
  "mem_read m a n = map (\<lambda>i. m (a + i)) [0..<n]"

definition mem_write :: "mem \<Rightarrow> nat \<Rightarrow> bytes \<Rightarrow> mem" where
  "mem_write m a bs = (\<lambda>i. if a \<le> i \<and> i < a + length bs then bs ! (i - a) else m i)"

lemma length_mem_read [simp]: "length (mem_read m a n) = n"
  by (simp add: mem_read_def)

lemma nth_mem_read [simp]: "i < n \<Longrightarrow> mem_read m a n ! i = m (a + i)"
  by (simp add: mem_read_def)

lemma mem_read_0 [simp]: "mem_read m a 0 = []"
  by (simp add: mem_read_def)

lemma mem_read_cong: "(\<And>i. i < n \<Longrightarrow> m (a + i) = m' (a' + i)) \<Longrightarrow> mem_read m a n = mem_read m' a' n"
  by (simp add: mem_read_def)

lemma mem_read_add: "mem_read m a (n + k) = mem_read m a n @ mem_read m (a + n) k"
  by (rule nth_equalityI) (auto simp: nth_append ac_simps)

lemma take_mem_read: "k \<le> n \<Longrightarrow> take k (mem_read m a n) = mem_read m a k"
  by (rule nth_equalityI) auto

lemma drop_mem_read: "drop k (mem_read m a n) = mem_read m (a + k) (n - k)"
  by (rule nth_equalityI) (auto simp: ac_simps)

lemma mem_write_out: "i < a \<or> a + length bs \<le> i \<Longrightarrow> mem_write m a bs i = m i"
  by (auto simp: mem_write_def)

lemma mem_write_in: "i < length bs \<Longrightarrow> mem_write m a bs (a + i) = bs ! i"
  by (simp add: mem_write_def)

lemma mem_write_Nil [simp]: "mem_write m a [] = m"
  by (rule ext) (auto simp: mem_write_def)

lemma mem_write_append:
  "mem_write m a (xs @ ys) = mem_write (mem_write m a xs) (a + length xs) ys"
  by (rule ext) (auto simp: mem_write_def nth_append)

lemma mem_read_write_same [mem_simps]:
  "length bs = n \<Longrightarrow> mem_read (mem_write m a bs) a n = bs"
  by (rule nth_equalityI) (auto simp: mem_write_in)

lemma mem_read_write_disjoint [mem_simps]:
  "a + n \<le> b \<or> b + length bs \<le> a \<Longrightarrow> mem_read (mem_write m b bs) a n = mem_read m a n"
  by (rule mem_read_cong) (auto simp: mem_write_def)

lemma mem_read_write_inside:
  "b \<le> a \<Longrightarrow> a + n \<le> b + length bs \<Longrightarrow>
    mem_read (mem_write m b bs) a n = take n (drop (a - b) bs)"
  by (rule nth_equalityI) (auto simp: mem_write_def)

section \<open>Little-endian loads and stores\<close>

definition ld16 :: "mem \<Rightarrow> nat \<Rightarrow> u16" where
  "ld16 m a = word_of_nat (le_val (mem_read m a 2))"

definition ld32 :: "mem \<Rightarrow> nat \<Rightarrow> u32" where
  "ld32 m a = word_of_nat (le_val (mem_read m a 4))"

definition ld64 :: "mem \<Rightarrow> nat \<Rightarrow> u64" where
  "ld64 m a = word_of_nat (le_val (mem_read m a 8))"

definition st16 :: "mem \<Rightarrow> nat \<Rightarrow> u16 \<Rightarrow> mem" where
  "st16 m a v = mem_write m a (le_bytes 2 (unat v))"

definition st32 :: "mem \<Rightarrow> nat \<Rightarrow> u32 \<Rightarrow> mem" where
  "st32 m a v = mem_write m a (le_bytes 4 (unat v))"

definition st64 :: "mem \<Rightarrow> nat \<Rightarrow> u64 \<Rightarrow> mem" where
  "st64 m a v = mem_write m a (le_bytes 8 (unat v))"

lemma le_val_le_bytes_16 [simp]: "le_val (le_bytes 2 (unat (v :: u16))) = unat v"
  by (simp add: le_val_le_bytes)

lemma le_val_le_bytes_32 [simp]: "le_val (le_bytes 4 (unat (v :: u32))) = unat v"
  by (simp add: le_val_le_bytes)

lemma le_val_le_bytes_64 [simp]: "le_val (le_bytes 8 (unat (v :: u64))) = unat v"
  by (simp add: le_val_le_bytes)

lemmas ld_defs = ld16_def ld32_def ld64_def
lemmas st_defs = st16_def st32_def st64_def

lemma ld_st_same [simp]:
  "ld16 (st16 m a v) a = v" "ld32 (st32 m a w) a = w" "ld64 (st64 m a x) a = x"
  by (simp_all add: ld_defs st_defs mem_read_write_same)

text \<open>A load outside the bytes that a write covers does not see the write.\<close>

lemma ld_write_disjoint [mem_simps]:
  "a + 2 \<le> b \<or> b + length bs \<le> a \<Longrightarrow> ld16 (mem_write m b bs) a = ld16 m a"
  "a + 4 \<le> b \<or> b + length bs \<le> a \<Longrightarrow> ld32 (mem_write m b bs) a = ld32 m a"
  "a + 8 \<le> b \<or> b + length bs \<le> a \<Longrightarrow> ld64 (mem_write m b bs) a = ld64 m a"
  by (simp_all add: ld_defs mem_read_write_disjoint)

lemma ld_st16_disjoint [mem_simps]:
  "a + 2 \<le> b \<or> b + 2 \<le> a \<Longrightarrow> ld16 (st16 m b v) a = ld16 m a"
  "a + 4 \<le> b \<or> b + 2 \<le> a \<Longrightarrow> ld32 (st16 m b v) a = ld32 m a"
  "a + 8 \<le> b \<or> b + 2 \<le> a \<Longrightarrow> ld64 (st16 m b v) a = ld64 m a"
  by (simp_all add: st_defs mem_simps)

lemma ld_st32_disjoint [mem_simps]:
  "a + 2 \<le> b \<or> b + 4 \<le> a \<Longrightarrow> ld16 (st32 m b v) a = ld16 m a"
  "a + 4 \<le> b \<or> b + 4 \<le> a \<Longrightarrow> ld32 (st32 m b v) a = ld32 m a"
  "a + 8 \<le> b \<or> b + 4 \<le> a \<Longrightarrow> ld64 (st32 m b v) a = ld64 m a"
  by (simp_all add: st_defs mem_simps)

lemma ld_st64_disjoint [mem_simps]:
  "a + 2 \<le> b \<or> b + 8 \<le> a \<Longrightarrow> ld16 (st64 m b v) a = ld16 m a"
  "a + 4 \<le> b \<or> b + 8 \<le> a \<Longrightarrow> ld32 (st64 m b v) a = ld32 m a"
  "a + 8 \<le> b \<or> b + 8 \<le> a \<Longrightarrow> ld64 (st64 m b v) a = ld64 m a"
  by (simp_all add: st_defs mem_simps)

lemma mem_read_st_disjoint [mem_simps]:
  "a + n \<le> b \<or> b + 2 \<le> a \<Longrightarrow> mem_read (st16 m b v) a n = mem_read m a n"
  "a + n \<le> b \<or> b + 4 \<le> a \<Longrightarrow> mem_read (st32 m b w) a n = mem_read m a n"
  "a + n \<le> b \<or> b + 8 \<le> a \<Longrightarrow> mem_read (st64 m b x) a n = mem_read m a n"
  by (simp_all add: st_defs mem_simps)

lemma st_out [mem_simps]:
  "i < a \<or> a + 2 \<le> i \<Longrightarrow> st16 m a v i = m i"
  "i < a \<or> a + 4 \<le> i \<Longrightarrow> st32 m a w i = m i"
  "i < a \<or> a + 8 \<le> i \<Longrightarrow> st64 m a x i = m i"
  by (simp_all add: st_defs mem_write_out)

section \<open>Transition systems\<close>

text \<open>A step relation with an invariant; every state reachable from a good one is good.\<close>

locale transition_system =
  fixes step :: "'s \<Rightarrow> 's \<Rightarrow> bool"
    and inv :: "'s \<Rightarrow> bool"
  assumes inv_step: "inv s \<Longrightarrow> step s s' \<Longrightarrow> inv s'"
begin

lemma inv_reach: "step\<^sup>*\<^sup>* s s' \<Longrightarrow> inv s \<Longrightarrow> inv s'"
  by (induction rule: rtranclp_induct) (auto intro: inv_step)

end

end
