(* ===== verification/Knd_Protocol.thy ===== *)
theory Knd_Protocol
  imports Knd_Prelude
begin

text \<open>
  The contract shared by the kernel driver and the application
  (\<^verbatim>\<open>src/common/knd_protocol.h\<close>): device control codes, limits, record types, the layout of the
  ring header and of every structure that crosses the boundary. A structure is a record of
  its fields, with its little-endian encoding (natural alignment, pack 8) and the decoder that
  a cast of the bytes to the structure amounts to. \<open>wire_struct\<close> states what a structure
  promises to both sides, \<open>packed_struct\<close> adds that it has no padding; both are interpreted on every structure.
\<close>

section \<open>Versions and control codes\<close>

definition KND_PROTOCOL_VERSION :: u32 where [const_defs]: "KND_PROTOCOL_VERSION = 1"
definition KND_DRIVER_VERSION :: u32 where [const_defs]: "KND_DRIVER_VERSION = 1"
definition KND_DEVICE_TYPE :: u32 where [const_defs]: "KND_DEVICE_TYPE = 0x8013"

definition METHOD_BUFFERED :: u32 where [const_defs]: "METHOD_BUFFERED = 0"
definition FILE_ANY_ACCESS :: u32 where [const_defs]: "FILE_ANY_ACCESS = 0"

text \<open>The platform's \<open>CTL_CODE\<close> packs device type, access, function and method.\<close>

definition CTL_CODE :: "u32 \<Rightarrow> u32 \<Rightarrow> u32 \<Rightarrow> u32 \<Rightarrow> u32" where
  "CTL_CODE dev fn method access =
     push_bit 16 dev OR push_bit 14 access OR push_bit 2 fn OR method"

definition KND_IOCTL :: "u32 \<Rightarrow> u32 \<Rightarrow> u32 \<Rightarrow> u32" where
  "KND_IOCTL fn method access = CTL_CODE KND_DEVICE_TYPE fn method access"

definition IOCTL_KND_GET_VERSION :: u32 where
  "IOCTL_KND_GET_VERSION = KND_IOCTL 0x800 METHOD_BUFFERED FILE_ANY_ACCESS"
definition IOCTL_KND_MAP_RING :: u32 where
  "IOCTL_KND_MAP_RING = KND_IOCTL 0x801 METHOD_BUFFERED FILE_ANY_ACCESS"
definition IOCTL_KND_UNMAP_RING :: u32 where
  "IOCTL_KND_UNMAP_RING = KND_IOCTL 0x802 METHOD_BUFFERED FILE_ANY_ACCESS"
definition IOCTL_KND_START_CAPTURE :: u32 where
  "IOCTL_KND_START_CAPTURE = KND_IOCTL 0x803 METHOD_BUFFERED FILE_ANY_ACCESS"
definition IOCTL_KND_STOP_CAPTURE :: u32 where
  "IOCTL_KND_STOP_CAPTURE = KND_IOCTL 0x804 METHOD_BUFFERED FILE_ANY_ACCESS"
definition IOCTL_KND_GET_STATS :: u32 where
  "IOCTL_KND_GET_STATS = KND_IOCTL 0x805 METHOD_BUFFERED FILE_ANY_ACCESS"
definition IOCTL_KND_SET_REDIRECT :: u32 where
  "IOCTL_KND_SET_REDIRECT = KND_IOCTL 0x806 METHOD_BUFFERED FILE_ANY_ACCESS"
definition IOCTL_KND_PHYS_READ :: u32 where
  "IOCTL_KND_PHYS_READ = KND_IOCTL 0x810 METHOD_BUFFERED FILE_ANY_ACCESS"
definition IOCTL_KND_PHYS_WRITE :: u32 where
  "IOCTL_KND_PHYS_WRITE = KND_IOCTL 0x811 METHOD_BUFFERED FILE_ANY_ACCESS"

lemma ioctl_codes:
  "IOCTL_KND_GET_VERSION = 0x80132000" "IOCTL_KND_MAP_RING = 0x80132004"
  "IOCTL_KND_UNMAP_RING = 0x80132008" "IOCTL_KND_START_CAPTURE = 0x8013200C"
  "IOCTL_KND_STOP_CAPTURE = 0x80132010" "IOCTL_KND_GET_STATS = 0x80132014"
  "IOCTL_KND_SET_REDIRECT = 0x80132018" "IOCTL_KND_PHYS_READ = 0x80132040"
  "IOCTL_KND_PHYS_WRITE = 0x80132044"
  by (simp_all add: IOCTL_KND_GET_VERSION_def IOCTL_KND_MAP_RING_def IOCTL_KND_UNMAP_RING_def
      IOCTL_KND_START_CAPTURE_def IOCTL_KND_STOP_CAPTURE_def IOCTL_KND_GET_STATS_def
      IOCTL_KND_SET_REDIRECT_def IOCTL_KND_PHYS_READ_def IOCTL_KND_PHYS_WRITE_def
      KND_IOCTL_def CTL_CODE_def const_defs)

section \<open>Limits, record types and enumerations\<close>

definition KND_RING_MAGIC :: u32 where [const_defs]: "KND_RING_MAGIC = 0x52444E4B"
definition KND_RING_DATA_OFFSET :: nat where [const_defs]: "KND_RING_DATA_OFFSET = 0x1000"
definition KND_DEFAULT_RING_DATA_SIZE :: u32 where
  [const_defs]: "KND_DEFAULT_RING_DATA_SIZE = 32 * 1024 * 1024"
definition KND_MAX_DATA_CHUNK :: nat where [const_defs]: "KND_MAX_DATA_CHUNK = 64 * 1024"
definition KND_MAX_PHYS_RW :: nat where [const_defs]: "KND_MAX_PHYS_RW = 4096"
definition KND_PROCPATH_CHARS :: nat where [const_defs]: "KND_PROCPATH_CHARS = 260"
definition KND_RECORD_ALIGN :: nat where [const_defs]: "KND_RECORD_ALIGN = 8"

definition KND_REC_WRAP :: u16 where [const_defs]: "KND_REC_WRAP = 0"
definition KND_REC_CONN_OPEN :: u16 where [const_defs]: "KND_REC_CONN_OPEN = 1"
definition KND_REC_CONN_CLOSE :: u16 where [const_defs]: "KND_REC_CONN_CLOSE = 2"
definition KND_REC_DATA :: u16 where [const_defs]: "KND_REC_DATA = 3"

definition KND_DIR_OUTBOUND :: u8 where [const_defs]: "KND_DIR_OUTBOUND = 0"
definition KND_DIR_INBOUND :: u8 where [const_defs]: "KND_DIR_INBOUND = 1"
definition KND_PROTO_TCP :: u8 where [const_defs]: "KND_PROTO_TCP = 6"
definition KND_PROTO_UDP :: u8 where [const_defs]: "KND_PROTO_UDP = 17"
definition KND_IPV4 :: u8 where [const_defs]: "KND_IPV4 = 4"
definition KND_IPV6 :: u8 where [const_defs]: "KND_IPV6 = 6"
definition KND_DATA_CIPHERTEXT :: u8 where [const_defs]: "KND_DATA_CIPHERTEXT = 0"
definition KND_DATA_PLAINTEXT :: u8 where [const_defs]: "KND_DATA_PLAINTEXT = 1"

section \<open>Rounding up to the record alignment\<close>

definition KND_ALIGN_UP :: "u64 \<Rightarrow> u64" where
  "KND_ALIGN_UP n = (n + (8 - 1)) AND NOT (8 - 1)"

text \<open>The reference for rounding: the least multiple of eight that is not below the size.\<close>

definition align8 :: "nat \<Rightarrow> nat" where
  "align8 n = (n + 7) div 8 * 8"

lemma align8_ge: "n \<le> align8 n"
  by (simp add: align8_def)

lemma align8_lt: "align8 n < n + 8"
  by (simp add: align8_def)

lemma align8_dvd [simp]: "8 dvd align8 n"
  by (simp add: align8_def)

lemma unat_and_not_7:
  fixes x :: u64
  shows "unat (x AND NOT 7) = unat x div 8 * 8"
proof -
  have "x - (x AND 7) = x AND NOT (x AND 7)"
    by (rule disjunctive_diff_eq_and_not) (simp add: bit_eq_iff bit_simps)
  also have "\<dots> = x AND NOT 7"
    by (rule bit_eqI) (auto simp: bit_simps)
  finally have "x AND NOT 7 = x - (x AND 7)" ..
  moreover have seven: "unat (x AND 7) = unat x mod 8"
    using unat_and_mask [of 3 x] by simp
  ultimately have "unat (x AND NOT 7) = unat x - unat x mod 8"
    by (simp add: unat_minus_no_wrap)
  then show ?thesis
    by (simp add: minus_mod_eq_div_mult)
qed

lemma unat_KND_ALIGN_UP:
  assumes "unat n + 7 < 2 ^ 64"
  shows "unat (KND_ALIGN_UP n) = align8 (unat n)"
proof -
  have "unat (n + 7) = unat n + 7"
    using assms by (simp add: unat_plus_no_wrap)
  then show ?thesis
    using unat_and_not_7 [of "n + 7"] by (simp add: KND_ALIGN_UP_def align8_def)
qed

section \<open>The ring header\<close>

text \<open>
  Offsets of the fields of \<open>KND_RING_HEADER\<close> from the base of the mapped region. The
  producer-owned and the consumer-owned fields start on their own 64-byte lines.
\<close>

definition hdr_magic :: nat where [layout_defs]: "hdr_magic = 0"
definition hdr_version :: nat where [layout_defs]: "hdr_version = 4"
definition hdr_headerSize :: nat where [layout_defs]: "hdr_headerSize = 8"
definition hdr_dataSize :: nat where [layout_defs]: "hdr_dataSize = 12"
definition hdr_totalSize :: nat where [layout_defs]: "hdr_totalSize = 16"
definition hdr_writePos :: nat where [layout_defs]: "hdr_writePos = 64"
definition hdr_totalRecords :: nat where [layout_defs]: "hdr_totalRecords = 72"
definition hdr_totalBytes :: nat where [layout_defs]: "hdr_totalBytes = 80"
definition hdr_droppedRecords :: nat where [layout_defs]: "hdr_droppedRecords = 88"
definition hdr_droppedBytes :: nat where [layout_defs]: "hdr_droppedBytes = 96"
definition hdr_captureActive :: nat where [layout_defs]: "hdr_captureActive = 104"
definition hdr_activeFlows :: nat where [layout_defs]: "hdr_activeFlows = 108"
definition hdr_readPos :: nat where [layout_defs]: "hdr_readPos = 128"
definition sizeof_RING_HEADER :: nat where [layout_defs]: "sizeof_RING_HEADER = 192"

section \<open>Structures on the wire\<close>

definition get8 :: "bytes \<Rightarrow> nat \<Rightarrow> u8" where
  "get8 bs i = bs ! i"

definition get16 :: "bytes \<Rightarrow> nat \<Rightarrow> u16" where
  "get16 bs i = word_of_nat (le_val (take 2 (drop i bs)))"

definition get32 :: "bytes \<Rightarrow> nat \<Rightarrow> u32" where
  "get32 bs i = word_of_nat (le_val (take 4 (drop i bs)))"

definition get64 :: "bytes \<Rightarrow> nat \<Rightarrow> u64" where
  "get64 bs i = word_of_nat (le_val (take 8 (drop i bs)))"

lemmas get_defs = get8_def get16_def get32_def get64_def

abbreviation put16 :: "u16 \<Rightarrow> bytes" where "put16 v \<equiv> le_bytes 2 (unat v)"
abbreviation put32 :: "u32 \<Rightarrow> bytes" where "put32 v \<equiv> le_bytes 4 (unat v)"
abbreviation put64 :: "u64 \<Rightarrow> bytes" where "put64 v \<equiv> le_bytes 8 (unat v)"

text \<open>An inline array of 16-bit characters.\<close>

definition put_wchars :: "u16 list \<Rightarrow> bytes" where
  "put_wchars ws = concat (map (\<lambda>w. put16 w) ws)"

definition get_wchars :: "bytes \<Rightarrow> nat \<Rightarrow> nat \<Rightarrow> u16 list" where
  "get_wchars bs off n = map (\<lambda>i. get16 bs (off + 2 * i)) [0..<n]"

lemma length_put_wchars [simp]: "length (put_wchars ws) = 2 * length ws"
  by (induction ws) (simp_all add: put_wchars_def)

lemma put_wchars_nth:
  "i < length ws \<Longrightarrow> take 2 (drop (2 * i) (put_wchars ws)) = put16 (ws ! i)"
proof (induction ws arbitrary: i)
  case Nil
  then show ?case by simp
next
  case (Cons w ws)
  show ?case
  proof (cases i)
    case 0
    then show ?thesis by (simp add: put_wchars_def)
  next
    case (Suc j)
    with Cons show ?thesis by (simp add: put_wchars_def)
  qed
qed

lemma get_put_wchars:
  assumes "length pre = off" and "length ws = n"
  shows "get_wchars (pre @ put_wchars ws @ rest) off n = ws"
  using assms by (intro nth_equalityI) (auto simp: get_wchars_def get16_def put_wchars_nth)

subsection \<open>What a structure promises\<close>

locale wire_struct =
  fixes enc :: "'a \<Rightarrow> bytes"
    and dec :: "bytes \<Rightarrow> 'a"
    and wf :: "'a \<Rightarrow> bool"
    and width :: nat
  assumes enc_length: "wf x \<Longrightarrow> length (enc x) = width"
    and dec_enc: "wf x \<Longrightarrow> dec (enc x @ rest) = x"
begin

lemma dec_enc_exact: "wf x \<Longrightarrow> dec (enc x) = x"
  using dec_enc [of x "[]"] by simp

lemma enc_inj: "wf x \<Longrightarrow> wf y \<Longrightarrow> enc x @ r = enc y @ r' \<Longrightarrow> x = y"
  by (metis dec_enc)

lemma dec_mem: "wf x \<Longrightarrow> dec (mem_read (mem_write m a (enc x)) a width) = x"
  by (simp add: mem_read_write_same enc_length dec_enc_exact)

end

subsection \<open>Record prefix\<close>

record knd_record =
  rec_length :: u32
  rec_type :: u16
  rec_flags :: u16
  rec_sequence :: u64
  rec_timestamp :: u64

definition sizeof_RECORD :: nat where [layout_defs]: "sizeof_RECORD = 24"

definition enc_record :: "knd_record \<Rightarrow> bytes" where
  "enc_record r = put32 (rec_length r) @ put16 (rec_type r) @ put16 (rec_flags r)
     @ put64 (rec_sequence r) @ put64 (rec_timestamp r)"

definition dec_record :: "bytes \<Rightarrow> knd_record" where
  "dec_record bs = \<lparr>rec_length = get32 bs 0, rec_type = get16 bs 4, rec_flags = get16 bs 6,
     rec_sequence = get64 bs 8, rec_timestamp = get64 bs 16\<rparr>"

interpretation record_wire: wire_struct enc_record dec_record "\<lambda>_. True" sizeof_RECORD
  by unfold_locales (simp_all add: enc_record_def dec_record_def sizeof_RECORD_def get_defs)

subsection \<open>Connection payload\<close>

record knd_conn_payload =
  cp_flowId :: u64
  cp_processId :: u64
  cp_protocol :: u8
  cp_ipVersion :: u8
  cp_direction :: u8
  cp_reserved0 :: u8
  cp_localPort :: u16
  cp_remotePort :: u16
  cp_localAddr :: bytes
  cp_remoteAddr :: bytes
  cp_bytesIn :: u64
  cp_bytesOut :: u64
  cp_processPathChars :: u16
  cp_reserved1 :: u16
  cp_reserved2 :: u32
  cp_processPath :: "u16 list"

definition sizeof_CONN_PAYLOAD :: nat where [layout_defs]: "sizeof_CONN_PAYLOAD = 600"

definition wf_conn :: "knd_conn_payload \<Rightarrow> bool" where
  "wf_conn p \<longleftrightarrow> length (cp_localAddr p) = 16 \<and> length (cp_remoteAddr p) = 16
     \<and> length (cp_processPath p) = KND_PROCPATH_CHARS"

definition enc_conn :: "knd_conn_payload \<Rightarrow> bytes" where
  "enc_conn p = (put64 (cp_flowId p) @ put64 (cp_processId p)
     @ [cp_protocol p, cp_ipVersion p, cp_direction p, cp_reserved0 p]
     @ put16 (cp_localPort p) @ put16 (cp_remotePort p)
     @ cp_localAddr p @ cp_remoteAddr p @ put64 (cp_bytesIn p) @ put64 (cp_bytesOut p)
     @ put16 (cp_processPathChars p) @ put16 (cp_reserved1 p) @ put32 (cp_reserved2 p))
     @ put_wchars (cp_processPath p)"

definition dec_conn :: "bytes \<Rightarrow> knd_conn_payload" where
  "dec_conn bs = \<lparr>cp_flowId = get64 bs 0, cp_processId = get64 bs 8,
     cp_protocol = get8 bs 16, cp_ipVersion = get8 bs 17, cp_direction = get8 bs 18,
     cp_reserved0 = get8 bs 19, cp_localPort = get16 bs 20, cp_remotePort = get16 bs 22,
     cp_localAddr = take 16 (drop 24 bs), cp_remoteAddr = take 16 (drop 40 bs),
     cp_bytesIn = get64 bs 56, cp_bytesOut = get64 bs 64,
     cp_processPathChars = get16 bs 72, cp_reserved1 = get16 bs 74, cp_reserved2 = get32 bs 76,
     cp_processPath = get_wchars bs 80 KND_PROCPATH_CHARS\<rparr>"

lemma dec_enc_conn: "wf_conn p \<Longrightarrow> dec_conn (enc_conn p @ rest) = p"
proof -
  assume wf: "wf_conn p"
  define pre where "pre = put64 (cp_flowId p) @ put64 (cp_processId p)
     @ [cp_protocol p, cp_ipVersion p, cp_direction p, cp_reserved0 p]
     @ put16 (cp_localPort p) @ put16 (cp_remotePort p)
     @ cp_localAddr p @ cp_remoteAddr p @ put64 (cp_bytesIn p) @ put64 (cp_bytesOut p)
     @ put16 (cp_processPathChars p) @ put16 (cp_reserved1 p) @ put32 (cp_reserved2 p)"
  have len: "length pre = 80"
    using wf by (simp add: pre_def wf_conn_def)
  have "get_wchars (enc_conn p @ rest) 80 KND_PROCPATH_CHARS = cp_processPath p"
    using get_put_wchars [OF len] wf by (simp add: enc_conn_def pre_def wf_conn_def)
  then show "dec_conn (enc_conn p @ rest) = p"
    using wf by (simp add: dec_conn_def enc_conn_def wf_conn_def get_defs nth_append)
qed

interpretation conn_wire: wire_struct enc_conn dec_conn wf_conn sizeof_CONN_PAYLOAD
  by unfold_locales
    (simp_all add: dec_enc_conn, simp add: enc_conn_def wf_conn_def layout_defs const_defs)

subsection \<open>Data payload\<close>

record knd_data_payload =
  dp_flowId :: u64
  dp_direction :: u8
  dp_dataKind :: u8
  dp_reserved0 :: u16
  dp_dataLength :: u32

definition sizeof_DATA_PAYLOAD :: nat where [layout_defs]: "sizeof_DATA_PAYLOAD = 16"

definition enc_data :: "knd_data_payload \<Rightarrow> bytes" where
  "enc_data p = put64 (dp_flowId p) @ [dp_direction p, dp_dataKind p]
     @ put16 (dp_reserved0 p) @ put32 (dp_dataLength p)"

definition dec_data :: "bytes \<Rightarrow> knd_data_payload" where
  "dec_data bs = \<lparr>dp_flowId = get64 bs 0, dp_direction = get8 bs 8, dp_dataKind = get8 bs 9,
     dp_reserved0 = get16 bs 10, dp_dataLength = get32 bs 12\<rparr>"

interpretation data_wire: wire_struct enc_data dec_data "\<lambda>_. True" sizeof_DATA_PAYLOAD
  by unfold_locales (simp_all add: enc_data_def dec_data_def layout_defs get_defs nth_append)

subsection \<open>Control-request payloads\<close>

record knd_version_out =
  vo_protocolVersion :: u32
  vo_driverVersion :: u32

definition sizeof_VERSION_OUT :: nat where [layout_defs]: "sizeof_VERSION_OUT = 8"

definition enc_version :: "knd_version_out \<Rightarrow> bytes" where
  "enc_version v = put32 (vo_protocolVersion v) @ put32 (vo_driverVersion v)"

definition dec_version :: "bytes \<Rightarrow> knd_version_out" where
  "dec_version bs = \<lparr>vo_protocolVersion = get32 bs 0, vo_driverVersion = get32 bs 4\<rparr>"

interpretation version_wire: wire_struct enc_version dec_version "\<lambda>_. True" sizeof_VERSION_OUT
  by unfold_locales (simp_all add: enc_version_def dec_version_def layout_defs get_defs)

record knd_map_ring_out =
  mo_userVa :: u64
  mo_totalSize :: u64
  mo_dataOffset :: u32
  mo_dataSize :: u32

definition sizeof_MAP_RING_OUT :: nat where [layout_defs]: "sizeof_MAP_RING_OUT = 24"

definition enc_map_ring :: "knd_map_ring_out \<Rightarrow> bytes" where
  "enc_map_ring v = put64 (mo_userVa v) @ put64 (mo_totalSize v)
     @ put32 (mo_dataOffset v) @ put32 (mo_dataSize v)"

definition dec_map_ring :: "bytes \<Rightarrow> knd_map_ring_out" where
  "dec_map_ring bs = \<lparr>mo_userVa = get64 bs 0, mo_totalSize = get64 bs 8,
     mo_dataOffset = get32 bs 16, mo_dataSize = get32 bs 20\<rparr>"

interpretation map_ring_wire: wire_struct enc_map_ring dec_map_ring "\<lambda>_. True" sizeof_MAP_RING_OUT
  by unfold_locales (simp_all add: enc_map_ring_def dec_map_ring_def layout_defs get_defs)

record knd_redirect_in =
  ri_enable :: u32
  ri_proxyPort :: u16
  ri_reserved :: u16

definition sizeof_REDIRECT_IN :: nat where [layout_defs]: "sizeof_REDIRECT_IN = 8"

definition enc_redirect_in :: "knd_redirect_in \<Rightarrow> bytes" where
  "enc_redirect_in v = put32 (ri_enable v) @ put16 (ri_proxyPort v) @ put16 (ri_reserved v)"

definition dec_redirect_in :: "bytes \<Rightarrow> knd_redirect_in" where
  "dec_redirect_in bs = \<lparr>ri_enable = get32 bs 0, ri_proxyPort = get16 bs 4,
     ri_reserved = get16 bs 6\<rparr>"

interpretation redirect_in_wire:
  wire_struct enc_redirect_in dec_redirect_in "\<lambda>_. True" sizeof_REDIRECT_IN
  by unfold_locales (simp_all add: enc_redirect_in_def dec_redirect_in_def layout_defs get_defs)

record knd_redirect_ctx =
  rx_ipVersion :: u8
  rx_reserved :: u8
  rx_origPort :: u16
  rx_origAddr :: bytes

definition sizeof_REDIRECT_CTX :: nat where [layout_defs]: "sizeof_REDIRECT_CTX = 20"

definition wf_redirect_ctx :: "knd_redirect_ctx \<Rightarrow> bool" where
  "wf_redirect_ctx c \<longleftrightarrow> length (rx_origAddr c) = 16"

definition enc_redirect_ctx :: "knd_redirect_ctx \<Rightarrow> bytes" where
  "enc_redirect_ctx c = [rx_ipVersion c, rx_reserved c] @ put16 (rx_origPort c) @ rx_origAddr c"

definition dec_redirect_ctx :: "bytes \<Rightarrow> knd_redirect_ctx" where
  "dec_redirect_ctx bs = \<lparr>rx_ipVersion = get8 bs 0, rx_reserved = get8 bs 1,
     rx_origPort = get16 bs 2, rx_origAddr = take 16 (drop 4 bs)\<rparr>"

interpretation redirect_ctx_wire:
  wire_struct enc_redirect_ctx dec_redirect_ctx wf_redirect_ctx sizeof_REDIRECT_CTX
  by unfold_locales
    (simp_all add: enc_redirect_ctx_def dec_redirect_ctx_def wf_redirect_ctx_def layout_defs get_defs)

record knd_stats_out =
  so_writePos :: u64
  so_readPos :: u64
  so_totalRecords :: u64
  so_droppedRecords :: u64
  so_totalBytes :: u64
  so_droppedBytes :: u64
  so_activeFlows :: u32
  so_captureActive :: u32

definition sizeof_STATS_OUT :: nat where [layout_defs]: "sizeof_STATS_OUT = 56"

definition enc_stats :: "knd_stats_out \<Rightarrow> bytes" where
  "enc_stats v = put64 (so_writePos v) @ put64 (so_readPos v) @ put64 (so_totalRecords v)
     @ put64 (so_droppedRecords v) @ put64 (so_totalBytes v) @ put64 (so_droppedBytes v)
     @ put32 (so_activeFlows v) @ put32 (so_captureActive v)"

definition dec_stats :: "bytes \<Rightarrow> knd_stats_out" where
  "dec_stats bs = \<lparr>so_writePos = get64 bs 0, so_readPos = get64 bs 8,
     so_totalRecords = get64 bs 16, so_droppedRecords = get64 bs 24, so_totalBytes = get64 bs 32,
     so_droppedBytes = get64 bs 40, so_activeFlows = get32 bs 48, so_captureActive = get32 bs 52\<rparr>"

interpretation stats_wire: wire_struct enc_stats dec_stats "\<lambda>_. True" sizeof_STATS_OUT
  by unfold_locales (simp_all add: enc_stats_def dec_stats_def layout_defs get_defs)

record knd_phys_rw =
  pr_offset :: u64
  pr_length :: u32
  pr_reserved :: u32

definition sizeof_PHYS_RW :: nat where [layout_defs]: "sizeof_PHYS_RW = 16"

definition enc_phys_rw :: "knd_phys_rw \<Rightarrow> bytes" where
  "enc_phys_rw v = put64 (pr_offset v) @ put32 (pr_length v) @ put32 (pr_reserved v)"

definition dec_phys_rw :: "bytes \<Rightarrow> knd_phys_rw" where
  "dec_phys_rw bs = \<lparr>pr_offset = get64 bs 0, pr_length = get32 bs 8, pr_reserved = get32 bs 12\<rparr>"

interpretation phys_rw_wire: wire_struct enc_phys_rw dec_phys_rw "\<lambda>_. True" sizeof_PHYS_RW
  by unfold_locales (simp_all add: enc_phys_rw_def dec_phys_rw_def layout_defs get_defs)

subsection \<open>No byte is left over\<close>

text \<open>A packed structure has no padding: every byte string of its size is the encoding of what it decodes to.\<close>

locale packed_struct = wire_struct +
  assumes dec_wf: "length bs = width \<Longrightarrow> wf (dec bs)"
    and enc_dec: "length bs = width \<Longrightarrow> enc (dec bs) = bs"
begin

lemma enc_bij: "bij_betw enc {x. wf x} {bs. length bs = width}"
  by (rule bij_betw_byWitness [where f' = dec]) (auto simp: dec_enc_exact enc_length dec_wf enc_dec)

end

lemma le_bytes_take: "i + n \<le> length bs \<Longrightarrow> le_bytes n (le_val (take n (drop i bs))) = take n (drop i bs)"
  using le_bytes_le_val [of "take n (drop i bs)"] by simp

lemma le_val_lt: "le_val bs < 256 ^ length bs"
  using le_val_le_bytes [of "length bs" "le_val bs"] by (simp add: le_bytes_le_val) (metis mod_less_divisor zero_less_power zero_less_numeral)

lemma put_get:
  "i + 2 \<le> length bs \<Longrightarrow> put16 (get16 bs i) = take 2 (drop i bs)"
  "i + 4 \<le> length bs \<Longrightarrow> put32 (get32 bs i) = take 4 (drop i bs)"
  "i + 8 \<le> length bs \<Longrightarrow> put64 (get64 bs i) = take 8 (drop i bs)"
  using le_val_lt [of "take 2 (drop i bs)"] le_val_lt [of "take 4 (drop i bs)"] le_val_lt [of "take 8 (drop i bs)"]
  by (simp_all add: get_defs unat_of_nat le_bytes_take)

lemma put_get_wchars: "off + 2 * n \<le> length bs \<Longrightarrow> put_wchars (get_wchars bs off n) = take (2 * n) (drop off bs)"
proof (induction n)
  case 0
  then show ?case by (simp add: put_wchars_def get_wchars_def)
next
  case (Suc n)
  then have "put16 (get16 bs (off + 2 * n)) = take 2 (drop (off + 2 * n) bs)" by (intro put_get) simp
  moreover have "take (2 * n + 2) (drop off bs) = take (2 * n) (drop off bs) @ take 2 (drop (2 * n) (drop off bs))"
    by (rule take_add)
  ultimately show ?case using Suc by (simp add: put_wchars_def get_wchars_def add.commute)
qed

text \<open>Consecutive fields of a byte string join to the string.\<close>

lemma field_join:
  "j = i + n \<Longrightarrow> take n (drop i bs) @ drop j bs = drop i bs"
  "j = i + n \<Longrightarrow> take n (drop i bs) @ drop j bs @ ys = drop i bs @ ys"
  "j = Suc i \<Longrightarrow> i < length bs \<Longrightarrow> get8 bs i # drop j bs = drop i bs"
  by (simp_all add: get8_def Cons_nth_drop_Suc add.commute [of i] flip: drop_drop)

lemma last_field: "length bs = i + n \<Longrightarrow> take n (drop i bs) = drop i bs"
  by simp

lemmas packed_simps = put_get put_get_wchars last_field field_join layout_defs const_defs

interpretation record_packed: packed_struct enc_record dec_record "\<lambda>_. True" sizeof_RECORD
  by unfold_locales (simp_all add: enc_record_def dec_record_def packed_simps)

interpretation conn_packed: packed_struct enc_conn dec_conn wf_conn sizeof_CONN_PAYLOAD
  by unfold_locales
    (simp add: dec_conn_def wf_conn_def layout_defs get_wchars_def, simp add: enc_conn_def dec_conn_def packed_simps)

interpretation data_packed: packed_struct enc_data dec_data "\<lambda>_. True" sizeof_DATA_PAYLOAD
  by unfold_locales (simp_all add: enc_data_def dec_data_def packed_simps)

interpretation version_packed: packed_struct enc_version dec_version "\<lambda>_. True" sizeof_VERSION_OUT
  by unfold_locales (simp_all add: enc_version_def dec_version_def packed_simps)

interpretation map_ring_packed: packed_struct enc_map_ring dec_map_ring "\<lambda>_. True" sizeof_MAP_RING_OUT
  by unfold_locales (simp_all add: enc_map_ring_def dec_map_ring_def packed_simps)

interpretation redirect_in_packed: packed_struct enc_redirect_in dec_redirect_in "\<lambda>_. True" sizeof_REDIRECT_IN
  by unfold_locales (simp_all add: enc_redirect_in_def dec_redirect_in_def packed_simps)

interpretation redirect_ctx_packed: packed_struct enc_redirect_ctx dec_redirect_ctx wf_redirect_ctx sizeof_REDIRECT_CTX
  by unfold_locales (simp_all add: enc_redirect_ctx_def dec_redirect_ctx_def wf_redirect_ctx_def packed_simps)

interpretation stats_packed: packed_struct enc_stats dec_stats "\<lambda>_. True" sizeof_STATS_OUT
  by unfold_locales (simp_all add: enc_stats_def dec_stats_def packed_simps)

interpretation phys_rw_packed: packed_struct enc_phys_rw dec_phys_rw "\<lambda>_. True" sizeof_PHYS_RW
  by unfold_locales (simp_all add: enc_phys_rw_def dec_phys_rw_def packed_simps)

subsection \<open>Layout guarantees\<close>

text \<open>The compile-time assertions of the header, as one computable condition.\<close>

definition layout_asserts :: bool where
  "layout_asserts \<longleftrightarrow> sizeof_RECORD mod KND_RECORD_ALIGN = 0 \<and> sizeof_RECORD = 24 \<and> KND_RING_DATA_OFFSET mod 0x1000 = 0
     \<and> sizeof_RING_HEADER \<le> KND_RING_DATA_OFFSET \<and> sizeof_CONN_PAYLOAD mod KND_RECORD_ALIGN = 0
     \<and> sizeof_DATA_PAYLOAD mod KND_RECORD_ALIGN = 0 \<and> KND_MAX_PHYS_RW \<le> 0x10000"

text \<open>The fields of the ring header with their sizes; \<open>reservedHdr\<close> at offset 24 is never accessed.\<close>

definition header_fields :: "(nat \<times> nat) list" where
  "header_fields = [(hdr_magic, 4), (hdr_version, 4), (hdr_headerSize, 4), (hdr_dataSize, 4), (hdr_totalSize, 8), (24, 8),
     (hdr_writePos, 8), (hdr_totalRecords, 8), (hdr_totalBytes, 8), (hdr_droppedRecords, 8), (hdr_droppedBytes, 8),
     (hdr_captureActive, 4), (hdr_activeFlows, 4), (hdr_readPos, 8)]"


end
