(* ===== verification/Knd_Ring.thy ===== *)
theory Knd_Ring
  imports Knd_Protocol
begin

text \<open>
  The kernel producer side of the capture ring (\<^verbatim>\<open>src/driver/ring.c\<close>): creation, destruction and
  the append of one record. The mapped region is one byte memory \<open>rmem\<close>, addressed by offset
  from \<open>RingBase\<close>; the kernel and the user mapping see the same bytes, so what a hostile or
  buggy consumer can do is to change any of them. The fields of \<open>KND_DEVICE_CONTEXT\<close> that
  only the kernel sees are fields of the record. Pointers are 64-bit words with 0 for NULL;
  results of kernel allocators are arguments. \<open>kpool\<close> and \<open>kmdls\<close> hold the
  allocations that are live, so that leaks are visible.
\<close>

section \<open>Status codes\<close>

type_synonym ntstatus = u32

definition STATUS_SUCCESS :: ntstatus where [const_defs]: "STATUS_SUCCESS = 0"
definition STATUS_INVALID_PARAMETER :: ntstatus where
  [const_defs]: "STATUS_INVALID_PARAMETER = 0xC000000D"
definition STATUS_INSUFFICIENT_RESOURCES :: ntstatus where
  [const_defs]: "STATUS_INSUFFICIENT_RESOURCES = 0xC000009A"

definition NT_SUCCESS :: "ntstatus \<Rightarrow> bool" where
  "NT_SUCCESS s \<longleftrightarrow> 0 \<le> sint s"

section \<open>State\<close>

record knd_ring =
  RingBase :: u64
  RingTotalSize :: u64
  RingDataSize :: u32
  RingData :: u64
  RingMdl :: u64
  Ring :: u64
  WritePos :: u64
  UserVa :: u64
  NextSequence :: u64
  kpool :: "u64 set"
  kmdls :: "u64 set"
  rmem :: mem

abbreviation data_addr :: "nat \<Rightarrow> nat" where
  "data_addr off \<equiv> KND_RING_DATA_OFFSET + off"

section \<open>Creation and destruction\<close>

definition init_header :: "mem \<Rightarrow> u32 \<Rightarrow> u64 \<Rightarrow> mem" where
  "init_header m dataSize tot =
     (let m = st32 m hdr_magic KND_RING_MAGIC;
          m = st32 m hdr_version KND_PROTOCOL_VERSION;
          m = st32 m hdr_headerSize (word_of_nat KND_RING_DATA_OFFSET);
          m = st32 m hdr_dataSize dataSize;
          m = st64 m hdr_totalSize tot;
          m = st64 m hdr_writePos 0
      in st64 m hdr_readPos 0)"

definition KndRingCreate ::
  "'a knd_ring_scheme \<Rightarrow> u32 \<Rightarrow> u64 \<Rightarrow> u64 \<Rightarrow> ntstatus \<times> 'a knd_ring_scheme" where
  "KndRingCreate c dataSize pool mdl =
     (if dataSize < 0x10000 \<or> dataSize AND (dataSize - 1) \<noteq> 0 then (STATUS_INVALID_PARAMETER, c)
      else
        let c = c\<lparr>RingTotalSize := word_of_nat KND_RING_DATA_OFFSET + ucast dataSize,
                  RingBase := pool\<rparr>
        in if pool = 0 then (STATUS_INSUFFICIENT_RESOURCES, c)
        else
          let c = c\<lparr>kpool := insert pool (kpool c), Ring := pool,
                    RingData := pool + word_of_nat KND_RING_DATA_OFFSET,
                    RingDataSize := dataSize,
                    rmem := init_header (\<lambda>_. 0) dataSize (RingTotalSize c),
                    WritePos := 0, RingMdl := mdl\<rparr>
          in if mdl = 0
             then (STATUS_INSUFFICIENT_RESOURCES,
                   c\<lparr>kpool := kpool c - {pool}, RingBase := 0, Ring := 0\<rparr>)
             else (STATUS_SUCCESS, c\<lparr>kmdls := insert mdl (kmdls c)\<rparr>))"

definition KndRingDestroy :: "'a knd_ring_scheme \<Rightarrow> 'a knd_ring_scheme" where
  "KndRingDestroy c =
     (if UserVa c \<noteq> 0 then c
      else
        let c = (if RingMdl c \<noteq> 0 then c\<lparr>kmdls := kmdls c - {RingMdl c}, RingMdl := 0\<rparr> else c);
            c = (if RingBase c \<noteq> 0 then c\<lparr>kpool := kpool c - {RingBase c}, RingBase := 0\<rparr> else c)
        in c\<lparr>Ring := 0, RingData := 0, RingDataSize := 0, RingTotalSize := 0\<rparr>)"

section \<open>Appending a record\<close>

text \<open>Bytes a record occupies: header, payload and trailing data, rounded up, as a ULONG.\<close>

definition ring_rec_len :: "u32 \<Rightarrow> u32 \<Rightarrow> u32" where
  "ring_rec_len payloadLen dataLen =
     ucast (KND_ALIGN_UP (word_of_nat sizeof_RECORD + ucast payloadLen + ucast dataLen))"

text \<open>
  Where the record goes: dropped with the byte count that is accounted, or placed at an offset
  with the length of the pad record in front (0 for none), the record length (with an absorbed
  tail) and the total number of bytes produced.
\<close>

datatype ring_place = Drop u32 | Place u32 u32 u32 u32

definition ring_plan :: "'a knd_ring_scheme \<Rightarrow> u32 \<Rightarrow> ring_place" where
  "ring_plan c recLen =
     (if recLen > RingDataSize c then Drop recLen
      else
        let mask = RingDataSize c - 1;
            wp = WritePos c;
            rp = ld64 (rmem c) hdr_readPos
        in if rp > wp \<or> wp - rp > ucast (RingDataSize c) then Drop recLen
        else
          let used = wp - rp;
              avail = ucast (RingDataSize c) - used;
              offset = (ucast (wp AND ucast mask) :: u32);
              contig = RingDataSize c - offset
          in if recLen \<le> contig
             then let tail = contig - recLen;
                      recLen = (if tail \<noteq> 0 \<and> tail < word_of_nat sizeof_RECORD then contig else recLen)
                  in if avail < ucast recLen then Drop recLen else Place offset 0 recLen recLen
             else let tot = contig + recLen
                  in if avail < ucast tot then Drop tot else Place offset contig recLen tot)"

definition ring_drop :: "'a knd_ring_scheme \<Rightarrow> u32 \<Rightarrow> 'a knd_ring_scheme" where
  "ring_drop c n =
     (let m = st64 (rmem c) hdr_droppedRecords (ld64 (rmem c) hdr_droppedRecords + 1)
      in c\<lparr>rmem := st64 m hdr_droppedBytes (ld64 m hdr_droppedBytes + ucast n)\<rparr>)"

definition put_record_header :: "mem \<Rightarrow> nat \<Rightarrow> u32 \<Rightarrow> u16 \<Rightarrow> u16 \<Rightarrow> u64 \<Rightarrow> u64 \<Rightarrow> mem" where
  "put_record_header m a len ty fl sq ts =
     st64 (st64 (st16 (st16 (st32 m a len) (a + 4) ty) (a + 6) fl) (a + 8) sq) (a + 16) ts"

text \<open>A copy from a possibly null source advances the destination only when it copies.\<close>

definition copy_opt :: "mem \<Rightarrow> nat \<Rightarrow> bytes option \<Rightarrow> u32 \<Rightarrow> mem \<times> nat" where
  "copy_opt m a src len =
     (case src of
        Some bs \<Rightarrow> if len \<noteq> 0 then (mem_write m a (take (unat len) bs), a + unat len) else (m, a)
      | None \<Rightarrow> (m, a))"

definition put_record ::
  "mem \<Rightarrow> nat \<Rightarrow> u32 \<Rightarrow> u16 \<Rightarrow> u16 \<Rightarrow> u64 \<Rightarrow> u64 \<Rightarrow> bytes option \<Rightarrow> u32 \<Rightarrow> bytes option \<Rightarrow> u32 \<Rightarrow> mem"
  where
  "put_record m a recLen ty fl sq ts payload payloadLen data dataLen =
     (let m = put_record_header m a recLen ty fl sq ts;
          (m, body) = copy_opt m (a + sizeof_RECORD) payload payloadLen;
          (m, body) = copy_opt m body data dataLen;
          padBytes = recLen - word_of_nat sizeof_RECORD - payloadLen - dataLen
      in if padBytes \<noteq> 0 then mem_write m body (replicate (unat padBytes) 0) else m)"

definition ring_fill ::
  "'a knd_ring_scheme \<Rightarrow> u32 \<Rightarrow> u32 \<Rightarrow> u32 \<Rightarrow> u16 \<Rightarrow> u16 \<Rightarrow> bytes option \<Rightarrow> u32 \<Rightarrow>
     bytes option \<Rightarrow> u32 \<Rightarrow> u64 \<Rightarrow> 'a knd_ring_scheme" where
  "ring_fill c offset needPad recLen ty fl payload payloadLen data dataLen ts =
     (let (c, wp, offset) =
            (if needPad \<noteq> 0
             then (c\<lparr>NextSequence := NextSequence c + 1,
                     rmem := put_record_header (rmem c) (data_addr (unat offset)) needPad
                               KND_REC_WRAP 0 (NextSequence c + 1) ts\<rparr>,
                   WritePos c + ucast needPad, 0)
             else (c, WritePos c, offset))
      in c\<lparr>NextSequence := NextSequence c + 1,
           rmem := put_record (rmem c) (data_addr (unat offset)) recLen ty fl (NextSequence c + 1)
                     ts payload payloadLen data dataLen,
           WritePos := wp + ucast recLen\<rparr>)"

definition ring_publish :: "'a knd_ring_scheme \<Rightarrow> u32 \<Rightarrow> 'a knd_ring_scheme" where
  "ring_publish c tot =
     (let m = st64 (rmem c) hdr_writePos (WritePos c);
          m = st64 m hdr_totalRecords (ld64 m hdr_totalRecords + 1)
      in c\<lparr>rmem := st64 m hdr_totalBytes (ld64 m hdr_totalBytes + ucast tot)\<rparr>)"

definition KndRingWrite ::
  "'a knd_ring_scheme \<Rightarrow> u16 \<Rightarrow> u16 \<Rightarrow> bytes option \<Rightarrow> u32 \<Rightarrow> bytes option \<Rightarrow> u32 \<Rightarrow> u64 \<Rightarrow>
     bool \<times> 'a knd_ring_scheme" where
  "KndRingWrite c ty fl payload payloadLen data dataLen ts =
     (if Ring c = 0 then (False, c)
      else case ring_plan c (ring_rec_len payloadLen dataLen) of
        Drop n \<Rightarrow> (False, ring_drop c n)
      | Place offset needPad recLen tot \<Rightarrow>
          (True, ring_publish
             (ring_fill c offset needPad recLen ty fl payload payloadLen data dataLen ts) tot))"

section \<open>What the kernel keeps true of its private state\<close>

text \<open>
  None of these fields can be changed through the mapping: a pointer to the region, a data area
  that is a power of two between 64 KiB and 2 GiB, and a write position that is 8-aligned and
  leaves room for a record header before the end of the data area.
\<close>

definition ring_wf :: "'a knd_ring_scheme \<Rightarrow> bool" where
  "ring_wf c \<longleftrightarrow> Ring c \<noteq> 0 \<and> Ring c = RingBase c
     \<and> RingDataSize c \<in> (\<lambda>k. 2 ^ k) ` {16..31}
     \<and> unat (RingTotalSize c) = KND_RING_DATA_OFFSET + unat (RingDataSize c)
     \<and> 8 dvd unat (WritePos c)
     \<and> unat (WritePos c) mod unat (RingDataSize c) + sizeof_RECORD \<le> unat (RingDataSize c)"

abbreviation dsize :: "'a knd_ring_scheme \<Rightarrow> nat" where "dsize c \<equiv> unat (RingDataSize c)"
abbreviation wpos :: "'a knd_ring_scheme \<Rightarrow> nat" where "wpos c \<equiv> unat (WritePos c)"
abbreviation rpos :: "'a knd_ring_scheme \<Rightarrow> nat" where "rpos c \<equiv> unat (ld64 (rmem c) hdr_readPos)"

lemma ring_wf_size:
  assumes "ring_wf c"
  obtains k where "16 \<le> k" "k \<le> 31" "RingDataSize c = 2 ^ k" "dsize c = 2 ^ k"
proof -
  from assms obtain k where k: "16 \<le> k" "k \<le> 31" "RingDataSize c = 2 ^ k"
    by (auto simp: ring_wf_def)
  then have "dsize c = 2 ^ k" by (simp add: unat_two_power)
  with k that show ?thesis by blast
qed

lemma ring_wf_size_bounds:
  assumes "ring_wf c"
  shows "65536 \<le> dsize c" "dsize c \<le> 2147483648" "8 dvd dsize c"
proof -
  from assms obtain k where k: "16 \<le> k" "k \<le> 31" "dsize c = 2 ^ k"
    by (rule ring_wf_size)
  have pow: "(65536 :: nat) = 2 ^ 16" "(2147483648 :: nat) = 2 ^ 31" "(8 :: nat) = 2 ^ 3"
    by simp_all
  show "65536 \<le> dsize c" unfolding pow k(3) using k by (intro power_increasing) auto
  show "dsize c \<le> 2147483648" unfolding pow k(3) using k by (intro power_increasing) auto
  show "8 dvd dsize c" unfolding pow k(3) using k by (intro le_imp_power_dvd) auto
qed

lemma mask_offset:
  fixes w :: u64 and sz :: u32
  assumes "k \<le> 31" "sz = 2 ^ k"
  shows "unat (ucast (w AND ucast (sz - 1)) :: u32) = unat w mod unat sz"
proof -
  have u: "unat sz = 2 ^ k" using assms by (simp add: unat_two_power)
  have "unat (2 ^ k - 1 :: u32) = unat (2 ^ k - 1 :: u64)"
    using assms by (simp add: unat_minus_no_wrap unat_two_power)
  then have "ucast (2 ^ k - 1 :: u32) = (2 ^ k - 1 :: u64)"
    by (simp add: word_eq_iff_unsigned [where ?'a = nat])
  then have "unat (w AND ucast (sz - 1)) = unat w mod unat sz"
    using assms u by (simp add: unat_and_mask)
  moreover have "unat w mod unat sz < unat sz" using u by simp
  then have "unat w mod unat sz < 2 ^ 32"
    by (rule less_trans) simp
  ultimately show ?thesis
    by (simp add: unat_ucast_64_32)
qed

lemma ring_offset:
  assumes "ring_wf c"
  shows "unat (ucast (WritePos c AND ucast (RingDataSize c - 1)) :: u32) = wpos c mod dsize c"
  using assms by (elim ring_wf_size) (rule mask_offset)

text \<open>The placement in unbounded arithmetic.\<close>

definition place_pad :: "nat \<Rightarrow> nat \<Rightarrow> nat \<Rightarrow> nat" where
  "place_pad sz wp r = (if r \<le> sz - wp mod sz then 0 else sz - wp mod sz)"

definition place_len :: "nat \<Rightarrow> nat \<Rightarrow> nat \<Rightarrow> nat" where
  "place_len sz wp r =
     (let contig = sz - wp mod sz
      in if r \<le> contig \<and> contig - r < sizeof_RECORD then contig else r)"

definition place_fits :: "nat \<Rightarrow> nat \<Rightarrow> nat \<Rightarrow> nat \<Rightarrow> bool" where
  "place_fits sz wp rp r \<longleftrightarrow> r \<le> sz \<and> rp \<le> wp
     \<and> wp + place_pad sz wp r + place_len sz wp r \<le> rp + sz"

lemma ring_plan_correct:
  fixes r :: u32
  assumes wf: "ring_wf c"
  defines "pad \<equiv> place_pad (dsize c) (wpos c) (unat r)"
    and "len \<equiv> place_len (dsize c) (wpos c) (unat r)"
  shows "if place_fits (dsize c) (wpos c) (rpos c) (unat r)
         then ring_plan c r = Place (word_of_nat (wpos c mod dsize c)) (word_of_nat pad)
                (word_of_nat len) (word_of_nat (pad + len))
         else \<exists>n. ring_plan c r = Drop n"
proof -
  define off where "off = (ucast (WritePos c AND ucast (RingDataSize c - 1)) :: u32)"
  define contig where "contig = RingDataSize c - off"
  define rp where "rp = ld64 (rmem c) hdr_readPos"
  define avail where "avail = ucast (RingDataSize c) - (WritePos c - rp)"
  note sz = ring_wf_size_bounds [OF wf]
  have off: "unat off = wpos c mod dsize c"
    unfolding off_def by (rule ring_offset [OF wf])
  moreover have modlt: "wpos c mod dsize c < dsize c" using sz by simp
  ultimately have contig: "unat contig = dsize c - wpos c mod dsize c"
    unfolding contig_def by (subst unat_minus_no_wrap) auto
  have off': "off = word_of_nat (wpos c mod dsize c)"
    by (simp flip: off)
  have contig': "contig = word_of_nat (dsize c - wpos c mod dsize c)"
    by (simp only: contig [symmetric] word_of_nat_unat)
  show ?thesis
  proof (cases "r > RingDataSize c \<or> rp > WritePos c \<or> WritePos c - rp > ucast (RingDataSize c)")
    case True
    then have "ring_plan c r = Drop r"
      by (auto simp: ring_plan_def rp_def Let_def)
    moreover from True have "\<not> place_fits (dsize c) (wpos c) (rpos c) (unat r)"
      by (auto simp: place_fits_def word_less_nat_alt unat_minus_no_wrap rp_def)
    ultimately show ?thesis by simp
  next
    case False
    then have r: "unat r \<le> dsize c" and rp: "unat rp \<le> wpos c"
      and used: "wpos c - unat rp \<le> dsize c"
      by (auto simp: word_less_nat_alt unat_minus_no_wrap)
    have avail: "unat avail = dsize c - (wpos c - unat rp)"
      unfolding avail_def using rp used by (simp add: unat_minus_no_wrap)
    have plan: "ring_plan c r =
       (if r \<le> contig
        then let len = (if contig - r \<noteq> 0 \<and> contig - r < 24 then contig else r)
             in if avail < ucast len then Drop len else Place off 0 len len
        else if avail < ucast (contig + r) then Drop (contig + r)
             else Place off contig r (contig + r))"
      using False unfolding ring_plan_def Let_def rp_def [symmetric] off_def [symmetric]
        contig_def [symmetric] avail_def [symmetric] by (auto simp: sizeof_RECORD_def)
    show ?thesis
    proof (cases "r \<le> contig")
      case True
      define l where "l = (if contig - r \<noteq> 0 \<and> contig - r < 24 then contig else r)"
      have tail: "unat (contig - r) = unat contig - unat r"
        using True by (simp add: unat_minus_no_wrap word_le_nat_alt)
      have nz: "contig - r \<noteq> 0 \<longleftrightarrow> unat contig - unat r \<noteq> 0"
        by (metis tail unat_eq_zero)
      have l: "unat l = len"
        using True unfolding l_def len_def place_len_def Let_def nz sizeof_RECORD_def
        by (auto simp: contig word_less_nat_alt word_le_nat_alt tail)
      have pad: "pad = 0"
        using True by (simp add: pad_def place_pad_def word_le_nat_alt contig)
      have "avail < ucast l \<longleftrightarrow> \<not> place_fits (dsize c) (wpos c) (rpos c) (unat r)"
        using r rp used pad l unfolding place_fits_def pad_def [symmetric] len_def [symmetric]
        by (auto simp: word_less_nat_alt avail rp_def)
      then show ?thesis
        using True plan pad l [symmetric] off'
        unfolding l_def [symmetric] Let_def by (auto simp: word_of_nat_unat)
    next
      case wrap: False
      have lt: "unat contig < unat r" using wrap by (simp add: word_le_nat_alt)
      have pad: "pad = unat contig" and len: "len = unat r"
        using lt by (auto simp: pad_def place_pad_def len_def place_len_def contig Let_def)
      have tot: "unat (contig + r) = pad + len"
        using lt r sz pad len by (simp add: unat_plus_no_wrap)
      then have tot': "contig + r = word_of_nat (pad + len)"
        by (metis word_of_nat_unat)
      have words: "word_of_nat pad = contig" "word_of_nat len = r"
        by (simp_all only: pad len word_of_nat_unat)
      have "avail < ucast (contig + r) \<longleftrightarrow> \<not> place_fits (dsize c) (wpos c) (rpos c) (unat r)"
        using r rp used tot unfolding place_fits_def pad_def [symmetric] len_def [symmetric]
        by (auto simp: word_less_nat_alt avail rp_def)
      then show ?thesis
        using wrap plan unfolding words tot' [symmetric] off' [symmetric] by simp
    qed
  qed
qed

lemma mod_sum_wrap:
  fixes wp sz :: nat
  assumes "0 < sz"
  shows "(wp + (sz - wp mod sz)) mod sz = 0"
proof -
  have "wp + (sz - wp mod sz) = sz * (wp div sz + 1)"
    using mult_div_mod_eq [of sz wp] mod_less_divisor [OF assms, of wp]
    unfolding distrib_left by linarith
  then show ?thesis by simp
qed

lemma place_arith:
  assumes sz: "8 dvd sz" "0 < sz" and wp: "8 dvd wp" "wp mod sz + 24 \<le> sz"
    and r: "24 \<le> r" "8 dvd r" and fits: "place_fits sz wp rp r"
  defines "pad \<equiv> place_pad sz wp r" and "len \<equiv> place_len sz wp r"
  shows "(wp + pad) mod sz + len \<le> sz" "8 dvd len" "r \<le> len"
    "(wp + pad + len) mod sz + 24 \<le> sz" "8 dvd pad"
    "pad \<noteq> 0 \<Longrightarrow> (wp + pad) mod sz = 0 \<and> 24 \<le> pad" "wp mod sz + pad \<le> sz"
proof -
  have r_sz: "r \<le> sz" and room: "wp + pad + len \<le> rp + sz" and rp: "rp \<le> wp"
    using fits by (auto simp: place_fits_def pad_def len_def)
  have off8: "8 dvd wp mod sz" using sz wp by (simp add: dvd_mod)
  have contig8: "8 dvd sz - wp mod sz" using off8 sz by (simp add: dvd_diff_nat)
  have "(wp + pad) mod sz + len \<le> sz \<and> 8 dvd len \<and> r \<le> len
     \<and> (wp + pad + len) mod sz + 24 \<le> sz \<and> 8 dvd pad
     \<and> (pad \<noteq> 0 \<longrightarrow> (wp + pad) mod sz = 0 \<and> 24 \<le> pad) \<and> wp mod sz + pad \<le> sz"
  proof (cases "r \<le> sz - wp mod sz")
    case True
    then have pad: "pad = 0" by (simp add: pad_def place_pad_def)
    have len: "len = (if sz - wp mod sz - r < 24 then sz - wp mod sz else r)"
      using True by (simp add: len_def place_len_def Let_def sizeof_RECORD_def)
    have "(wp + len) mod sz = (wp mod sz + len) mod sz"
      by (simp add: mod_add_left_eq)
    moreover have "wp mod sz + len = sz \<or> wp mod sz + len + 24 \<le> sz"
      using True len wp by auto
    ultimately have "(wp + len) mod sz + 24 \<le> sz"
      using wp r r_sz by auto
    then show ?thesis
      using True pad len contig8 r wp by (auto split: if_splits)
  next
    case False
    then have pad: "pad = sz - wp mod sz" and len: "len = r"
      by (auto simp: pad_def place_pad_def len_def place_len_def Let_def)
    have z: "(wp + pad) mod sz = 0"
      unfolding pad by (rule mod_sum_wrap) (rule sz)
    have "len + 24 \<le> sz"
      using room rp pad wp by linarith
    moreover have "(wp + pad + len) mod sz = len mod sz"
      using z by (metis add_0 mod_add_left_eq)
    ultimately have "(wp + pad + len) mod sz + 24 \<le> sz"
      by simp
    then show ?thesis
      using z pad len r r_sz contig8 wp by auto
  qed
  then show "(wp + pad) mod sz + len \<le> sz" "8 dvd len" "r \<le> len"
    "(wp + pad + len) mod sz + 24 \<le> sz" "8 dvd pad"
    "pad \<noteq> 0 \<Longrightarrow> (wp + pad) mod sz = 0 \<and> 24 \<le> pad" "wp mod sz + pad \<le> sz"
    by auto
qed

section \<open>Record bytes\<close>

text \<open>The bytes of one record as the consumer finds them: header, body, zeroed padding.\<close>

definition rec_bytes :: "u32 \<Rightarrow> u16 \<Rightarrow> u16 \<Rightarrow> u64 \<Rightarrow> u64 \<Rightarrow> bytes \<Rightarrow> bytes" where
  "rec_bytes len ty fl sq ts body =
     enc_record \<lparr>rec_length = len, rec_type = ty, rec_flags = fl, rec_sequence = sq,
       rec_timestamp = ts\<rparr> @ body @ replicate (unat len - sizeof_RECORD - length body) 0"

definition opt_bytes :: "bytes option \<Rightarrow> bytes" where
  "opt_bytes src = (case src of None \<Rightarrow> [] | Some bs \<Rightarrow> bs)"

lemma length_enc_record [simp]: "length (enc_record r) = 24"
  using record_wire.enc_length by (simp add: sizeof_RECORD_def)

lemma length_rec_bytes:
  "sizeof_RECORD + length body \<le> unat len \<Longrightarrow> length (rec_bytes len ty fl sq ts body) = unat len"
  by (simp add: rec_bytes_def sizeof_RECORD_def)

lemma dec_rec_bytes [simp]:
  "dec_record (rec_bytes len ty fl sq ts body) =
     \<lparr>rec_length = len, rec_type = ty, rec_flags = fl, rec_sequence = sq, rec_timestamp = ts\<rparr>"
  by (simp add: rec_bytes_def record_wire.dec_enc)

lemma body_rec_bytes: "take (length body) (drop sizeof_RECORD (rec_bytes len ty fl sq ts body)) = body"
  by (simp add: rec_bytes_def sizeof_RECORD_def)

lemma put_record_header_eq:
  "put_record_header m a len ty fl sq ts =
     mem_write m a (enc_record \<lparr>rec_length = len, rec_type = ty, rec_flags = fl,
       rec_sequence = sq, rec_timestamp = ts\<rparr>)"
  by (simp add: put_record_header_def enc_record_def mem_write_append st_defs ac_simps)

lemma copy_opt_eq:
  assumes "length (opt_bytes src) = unat len"
  shows "copy_opt m a src len = (mem_write m a (opt_bytes src), a + length (opt_bytes src))"
proof (cases src)
  case None
  then show ?thesis by (simp add: copy_opt_def opt_bytes_def)
next
  case (Some bs)
  with assms show ?thesis
    by (cases "len = 0") (auto simp: copy_opt_def opt_bytes_def)
qed

definition wrap_header :: "u32 \<Rightarrow> u64 \<Rightarrow> u64 \<Rightarrow> bytes" where
  "wrap_header len sq ts = enc_record \<lparr>rec_length = len, rec_type = KND_REC_WRAP,
     rec_flags = 0, rec_sequence = sq, rec_timestamp = ts\<rparr>"

lemma length_wrap_header [simp]: "length (wrap_header len sq ts) = 24"
  by (simp add: wrap_header_def)

lemma put_record_eq:
  assumes p: "length (opt_bytes payload) = unat payloadLen"
    and d: "length (opt_bytes data) = unat dataLen"
    and room: "sizeof_RECORD + unat payloadLen + unat dataLen \<le> unat recLen"
  shows "put_record m a recLen ty fl sq ts payload payloadLen data dataLen
     = mem_write m a (rec_bytes recLen ty fl sq ts (opt_bytes payload @ opt_bytes data))"
proof -
  define padBytes where "padBytes = recLen - word_of_nat sizeof_RECORD - payloadLen - dataLen"
  have u: "unat padBytes = unat recLen - sizeof_RECORD - (unat payloadLen + unat dataLen)"
    using room by (simp add: padBytes_def sizeof_RECORD_def unat_minus_no_wrap)
  have z: "(if padBytes \<noteq> 0 then mem_write m' b (replicate (unat padBytes) 0) else m')
      = mem_write m' b (replicate (unat padBytes) 0)" for m' b
    by simp
  show ?thesis
    unfolding put_record_def Let_def copy_opt_eq [OF p] copy_opt_eq [OF d] case_prod_conv
      padBytes_def [symmetric] z
    by (simp add: rec_bytes_def put_record_header_eq mem_write_append sizeof_RECORD_def u p d ac_simps)
qed

lemma ring_fill_nopad:
  assumes "length (opt_bytes payload) = unat payloadLen"
    and "length (opt_bytes data) = unat dataLen"
    and "sizeof_RECORD + unat payloadLen + unat dataLen \<le> unat recLen"
  shows "ring_fill c offset 0 recLen ty fl payload payloadLen data dataLen ts =
      c\<lparr>NextSequence := NextSequence c + 1,
        rmem := mem_write (rmem c) (data_addr (unat offset))
          (rec_bytes recLen ty fl (NextSequence c + 1) ts (opt_bytes payload @ opt_bytes data)),
        WritePos := WritePos c + ucast recLen\<rparr>"
  by (simp add: ring_fill_def put_record_eq [OF assms])

lemma ring_fill_pad:
  assumes "length (opt_bytes payload) = unat payloadLen"
    and "length (opt_bytes data) = unat dataLen"
    and "sizeof_RECORD + unat payloadLen + unat dataLen \<le> unat recLen"
    and "needPad \<noteq> 0"
  shows "ring_fill c offset needPad recLen ty fl payload payloadLen data dataLen ts =
      c\<lparr>NextSequence := NextSequence c + 1 + 1,
        rmem := mem_write
          (mem_write (rmem c) (data_addr (unat offset)) (wrap_header needPad (NextSequence c + 1) ts))
          (data_addr 0)
          (rec_bytes recLen ty fl (NextSequence c + 1 + 1) ts (opt_bytes payload @ opt_bytes data)),
        WritePos := WritePos c + ucast needPad + ucast recLen\<rparr>"
  using assms(4)
  by (simp add: ring_fill_def put_record_eq [OF assms(1-3)] put_record_header_eq wrap_header_def)

end
