(* ===== verification/Knd_Contents.thy ===== *)
theory Knd_Contents
  imports Knd_Ring
begin

text \<open>
  What the ring holds, as a list of records. \<open>ring_chain\<close> walks the records from the read
  position to the write position; \<open>visible\<close> leaves out the padding records that a consumer
  skips. The append of \<^verbatim>\<open>ring.c\<close> is shown to add exactly one visible record at the
  end or to leave the list as it is.
\<close>

section \<open>Records between two positions\<close>

inductive ring_chain :: "mem \<Rightarrow> nat \<Rightarrow> nat \<Rightarrow> nat \<Rightarrow> bytes list \<Rightarrow> bool"
  for m sz wp where
  chain_done: "ring_chain m sz wp wp []"
| chain_rec: "\<lbrakk>len = unat (ld32 m (data_addr (p mod sz))); sizeof_RECORD \<le> len; 8 dvd len;
     p mod sz + len \<le> sz; p + len \<le> wp; ring_chain m sz wp (p + len) rs\<rbrakk>
   \<Longrightarrow> ring_chain m sz wp p (mem_read m (data_addr (p mod sz)) len # rs)"

inductive_cases chain_NilE: "ring_chain m sz wp p []"
inductive_cases chain_ConsE: "ring_chain m sz wp p (r # rs)"

definition rec_visible :: "bytes \<Rightarrow> bool" where
  "rec_visible r \<longleftrightarrow> rec_type (dec_record r) \<noteq> KND_REC_WRAP"

definition visible :: "bytes list \<Rightarrow> bytes list" where
  "visible rs = filter rec_visible rs"

lemma visible_append [simp]: "visible (xs @ ys) = visible xs @ visible ys"
  by (simp add: visible_def)

lemma visible_Nil [simp]: "visible [] = []"
  by (simp add: visible_def)

lemma chain_le: "ring_chain m sz wp p rs \<Longrightarrow> p \<le> wp"
  by (induction rule: ring_chain.induct) auto

lemma chain_unique: "ring_chain m sz wp p rs \<Longrightarrow> ring_chain m sz wp p rs' \<Longrightarrow> rs = rs'"
proof (induction arbitrary: rs' rule: ring_chain.induct)
  case chain_done
  then show ?case
  proof cases
    case (chain_rec len rs)
    then show ?thesis by (simp add: sizeof_RECORD_def)
  qed simp
next
  case (chain_rec len p rs)
  from chain_rec.prems show ?case
  proof cases
    case chain_done
    with chain_rec.hyps show ?thesis by (simp add: sizeof_RECORD_def)
  next
    case (chain_rec len' rs'')
    with chain_rec.hyps(1) chain_rec.IH show ?thesis by blast
  qed
qed

text \<open>Positions inside a block that does not straddle the end of the data area.\<close>

lemma mod_in_block:
  fixes p sz :: nat
  assumes "p mod sz + len \<le> sz" "i < len"
  shows "(p + i) mod sz = p mod sz + i"
  using assms by (metis add_less_cancel_left less_le_trans mod_add_left_eq mod_less)

lemma mod_apart:
  fixes q q' sz :: nat
  assumes "q < q'" "q' < q + sz"
  shows "q mod sz \<noteq> q' mod sz"
proof
  assume "q mod sz = q' mod sz"
  then have "sz dvd q' - q"
    using assms(1) by (metis less_imp_le mod_eq_dvd_iff_nat)
  then show False
    using assms dvd_imp_le [of sz "q' - q"] by linarith
qed

lemma chain_cong:
  assumes "ring_chain m sz wp p rs"
    and "\<And>q. p \<le> q \<Longrightarrow> q < wp \<Longrightarrow> m' (data_addr (q mod sz)) = m (data_addr (q mod sz))"
  shows "ring_chain m' sz wp p rs"
  using assms
proof (induction rule: ring_chain.induct)
  case chain_done
  show ?case by (rule ring_chain.chain_done)
next
  case (chain_rec len p rs)
  have same: "m' (data_addr (p mod sz) + i) = m (data_addr (p mod sz) + i)" if "i < len" for i
    using chain_rec.prems [of "p + i"] chain_rec.hyps that by (simp add: mod_in_block add.assoc)
  have "mem_read m' (data_addr (p mod sz)) len = mem_read m (data_addr (p mod sz)) len"
    by (rule mem_read_cong) (rule same)
  moreover have "ld32 m' (data_addr (p mod sz)) = ld32 m (data_addr (p mod sz))"
    unfolding ld32_def using chain_rec.hyps
    by (intro arg_cong [where f = "\<lambda>x. word_of_nat (le_val x)"] mem_read_cong same)
      (simp add: sizeof_RECORD_def)
  moreover have "ring_chain m' sz wp (p + len) rs"
    using chain_rec.prems by (intro chain_rec.IH) auto
  ultimately show ?case
    using chain_rec.hyps ring_chain.chain_rec [of len m' p sz wp rs] by simp
qed

text \<open>Writing ahead of the write position, within one lap of the reader, keeps the records.\<close>

lemma chain_write_ahead:
  assumes chain: "ring_chain m sz wp p rs" and ahead: "wp \<le> q"
    and block: "q mod sz + length bs \<le> sz" and lap: "q + length bs \<le> p + sz"
  shows "ring_chain (mem_write m (data_addr (q mod sz)) bs) sz wp p rs"
proof (rule chain_cong [OF chain])
  fix x assume x: "p \<le> x" "x < wp"
  have "x mod sz \<noteq> q mod sz + i" if "i < length bs" for i
  proof -
    have "x mod sz \<noteq> (q + i) mod sz"
      using x ahead lap that by (intro mod_apart) auto
    then show ?thesis using mod_in_block [OF block that] by simp
  qed
  then have "\<not> (q mod sz \<le> x mod sz \<and> x mod sz < q mod sz + length bs)"
    by (metis le_add_diff_inverse nat_add_left_cancel_less)
  then show "mem_write m (data_addr (q mod sz)) bs (data_addr (x mod sz)) = m (data_addr (x mod sz))"
    by (intro mem_write_out) auto
qed

lemma chain_push:
  assumes "ring_chain m sz wp p rs"
    and "unat (ld32 m (data_addr (wp mod sz))) = len" "sizeof_RECORD \<le> len" "8 dvd len"
    and "wp mod sz + len \<le> sz"
  shows "ring_chain m sz (wp + len) p (rs @ [mem_read m (data_addr (wp mod sz)) len])"
  using assms
proof (induction rule: ring_chain.induct)
  case chain_done
  then show ?case
    using ring_chain.chain_rec [of len m wp sz "wp + len" "[]"] ring_chain.chain_done by auto
next
  case (chain_rec l p rs)
  have "ring_chain m sz (wp + len) (p + l) (rs @ [mem_read m (data_addr (wp mod sz)) len])"
    using chain_rec.prems by (rule chain_rec.IH)
  then show ?case
    using chain_rec.hyps ring_chain.chain_rec [of l m p sz "wp + len"] by simp
qed

lemma ld32_write_head: "4 \<le> length bs \<Longrightarrow> ld32 (mem_write m a bs) a = get32 bs 0"
  by (simp add: ld32_def get32_def mem_read_write_inside)

lemma chain_append:
  assumes chain: "ring_chain m sz wp p rs"
    and bs: "unat (get32 bs 0) = len" "sizeof_RECORD \<le> length bs" "length bs \<le> len"
    and len: "8 dvd len" "wp mod sz + len \<le> sz" "wp + len \<le> p + sz"
  defines "m' \<equiv> mem_write m (data_addr (wp mod sz)) bs"
  shows "ring_chain m' sz (wp + len) p (rs @ [mem_read m' (data_addr (wp mod sz)) len])"
proof (rule chain_push)
  show "ring_chain m' sz wp p rs"
    unfolding m'_def using bs len by (intro chain_write_ahead [OF chain]) auto
  show "unat (ld32 m' (data_addr (wp mod sz))) = len"
    using bs by (simp add: m'_def ld32_write_head sizeof_RECORD_def)
  show "sizeof_RECORD \<le> len" "8 dvd len" "wp mod sz + len \<le> sz"
    using bs len by auto
qed

section \<open>The ring and its contents\<close>

text \<open>
  The state both sides rely on: the private invariant, the published write position, at most one
  lap of unread bytes, and a chain of records from the read to the write position.
\<close>

definition ring_ok :: "'a knd_ring_scheme \<Rightarrow> bytes list \<Rightarrow> bool" where
  "ring_ok c rs \<longleftrightarrow> ring_wf c \<and> ld64 (rmem c) hdr_writePos = WritePos c
     \<and> wpos c \<le> rpos c + dsize c
     \<and> ring_chain (rmem c) (dsize c) (wpos c) (rpos c) rs"

lemma ring_okD:
  assumes "ring_ok c rs"
  shows "ring_wf c" "ld64 (rmem c) hdr_writePos = WritePos c" "wpos c \<le> rpos c + dsize c"
    "ring_chain (rmem c) (dsize c) (wpos c) (rpos c) rs" "rpos c \<le> wpos c"
  using assms chain_le by (auto simp: ring_ok_def)

lemma ring_ok_unique: "ring_ok c rs \<Longrightarrow> ring_ok c rs' \<Longrightarrow> rs = rs'"
  by (auto simp: ring_ok_def intro: chain_unique)

text \<open>Length of a record in unbounded arithmetic.\<close>

lemma unat_ring_rec_len:
  assumes "sizeof_RECORD + unat pl + unat dl + 7 < 2 ^ 32"
  shows "unat (ring_rec_len pl dl) = align8 (sizeof_RECORD + unat pl + unat dl)"
proof -
  define n where "n = word_of_nat sizeof_RECORD + (ucast pl :: u64) + ucast dl"
  have "unat (ucast pl + ucast dl :: u64) = unat pl + unat dl"
    using assms by (subst unat_plus_no_wrap) simp_all
  then have n: "unat n = sizeof_RECORD + unat pl + unat dl"
    unfolding n_def add.assoc using assms
    by (subst unat_plus_no_wrap) (simp_all add: sizeof_RECORD_def)
  then have "unat (KND_ALIGN_UP n) = align8 (sizeof_RECORD + unat pl + unat dl)"
    using assms by (simp add: unat_KND_ALIGN_UP)
  moreover have "align8 (sizeof_RECORD + unat pl + unat dl) < 2 ^ 32"
    using assms by (simp add: align8_def)
  ultimately show ?thesis
    by (simp add: ring_rec_len_def unat_ucast_64_32 flip: n_def)
qed

text \<open>Header words and data bytes do not overlap.\<close>

lemma ld64_data_write [simp]:
  "a + 8 \<le> KND_RING_DATA_OFFSET \<Longrightarrow> ld64 (mem_write m (data_addr x) bs) a = ld64 m a"
  by (simp add: mem_simps)

lemma ring_publish_data: "rmem (ring_publish c t) (data_addr i) = rmem c (data_addr i)"
  by (simp add: ring_publish_def Let_def mem_simps layout_defs const_defs)

lemma ring_publish_fields [simp]:
  "WritePos (ring_publish c t) = WritePos c" "RingDataSize (ring_publish c t) = RingDataSize c"
  "Ring (ring_publish c t) = Ring c" "RingBase (ring_publish c t) = RingBase c"
  "RingTotalSize (ring_publish c t) = RingTotalSize c"
  "NextSequence (ring_publish c t) = NextSequence c"
  by (simp_all add: ring_publish_def Let_def)

lemma ring_publish_header:
  "ld64 (rmem (ring_publish c t)) hdr_writePos = WritePos c"
  "ld64 (rmem (ring_publish c t)) hdr_readPos = ld64 (rmem c) hdr_readPos"
  "ld64 (rmem (ring_publish c t)) hdr_totalRecords = ld64 (rmem c) hdr_totalRecords + 1"
  "ld64 (rmem (ring_publish c t)) hdr_totalBytes = ld64 (rmem c) hdr_totalBytes + ucast t"
  "ld64 (rmem (ring_publish c t)) hdr_droppedRecords = ld64 (rmem c) hdr_droppedRecords"
  by (simp_all add: ring_publish_def Let_def mem_simps layout_defs)

lemma ring_drop_data: "rmem (ring_drop c t) (data_addr i) = rmem c (data_addr i)"
  by (simp add: ring_drop_def Let_def mem_simps layout_defs const_defs)

lemma ring_drop_fields [simp]:
  "WritePos (ring_drop c t) = WritePos c" "RingDataSize (ring_drop c t) = RingDataSize c"
  "Ring (ring_drop c t) = Ring c" "RingBase (ring_drop c t) = RingBase c"
  "RingTotalSize (ring_drop c t) = RingTotalSize c"
  "NextSequence (ring_drop c t) = NextSequence c"
  by (simp_all add: ring_drop_def Let_def)

lemma ring_drop_header:
  "ld64 (rmem (ring_drop c t)) hdr_writePos = ld64 (rmem c) hdr_writePos"
  "ld64 (rmem (ring_drop c t)) hdr_readPos = ld64 (rmem c) hdr_readPos"
  "ld64 (rmem (ring_drop c t)) hdr_totalRecords = ld64 (rmem c) hdr_totalRecords"
  "ld64 (rmem (ring_drop c t)) hdr_droppedRecords = ld64 (rmem c) hdr_droppedRecords + 1"
  "ld64 (rmem (ring_drop c t)) hdr_droppedBytes = ld64 (rmem c) hdr_droppedBytes + ucast t"
  by (simp_all add: ring_drop_def Let_def mem_simps layout_defs)

lemma ring_wf_drop [simp]: "ring_wf (ring_drop c t) = ring_wf c"
  unfolding ring_wf_def by simp

lemma ring_ok_drop: "ring_ok c rs \<Longrightarrow> ring_ok (ring_drop c t) rs"
  unfolding ring_ok_def
  by (auto simp: ring_drop_header intro: chain_cong ring_drop_data)

section \<open>Appending refines adding at the end of the list\<close>

text \<open>The arguments a caller may pass: buffers as long as announced, a size that is no overflow.\<close>

definition write_args :: "bytes option \<Rightarrow> u32 \<Rightarrow> bytes option \<Rightarrow> u32 \<Rightarrow> bool" where
  "write_args payload pl data dl \<longleftrightarrow>
     length (opt_bytes payload) = unat pl \<and> length (opt_bytes data) = unat dl
     \<and> sizeof_RECORD + unat pl + unat dl + 7 < 2 ^ 32"

abbreviation write_size :: "u32 \<Rightarrow> u32 \<Rightarrow> nat" where
  "write_size pl dl \<equiv> align8 (sizeof_RECORD + unat pl + unat dl)"

abbreviation write_fits :: "'a knd_ring_scheme \<Rightarrow> u32 \<Rightarrow> u32 \<Rightarrow> bool" where
  "write_fits c pl dl \<equiv> place_fits (dsize c) (wpos c) (rpos c) (write_size pl dl)"

lemma KndRingWrite_plan:
  assumes wf: "ring_wf c" and args: "write_args payload pl data dl"
  defines "pad \<equiv> place_pad (dsize c) (wpos c) (write_size pl dl)"
    and "len \<equiv> place_len (dsize c) (wpos c) (write_size pl dl)"
  shows "\<not> write_fits c pl dl \<Longrightarrow> \<exists>n. KndRingWrite c ty fl payload pl data dl ts = (False, ring_drop c n)"
    and "write_fits c pl dl \<Longrightarrow> KndRingWrite c ty fl payload pl data dl ts = (True, ring_publish
           (ring_fill c (word_of_nat (wpos c mod dsize c)) (word_of_nat pad) (word_of_nat len)
              ty fl payload pl data dl ts) (word_of_nat (pad + len)))"
proof -
  have r: "unat (ring_rec_len pl dl) = write_size pl dl"
    using args by (intro unat_ring_rec_len) (simp add: write_args_def)
  have nz: "Ring c \<noteq> 0" using wf unfolding ring_wf_def by blast
  note plan = ring_plan_correct [OF wf, of "ring_rec_len pl dl", unfolded r,
      folded pad_def len_def]
  show "\<exists>n. KndRingWrite c ty fl payload pl data dl ts = (False, ring_drop c n)"
    if "\<not> write_fits c pl dl"
    using plan that nz by (auto simp: KndRingWrite_def)
  show "KndRingWrite c ty fl payload pl data dl ts = (True, ring_publish
           (ring_fill c (word_of_nat (wpos c mod dsize c)) (word_of_nat pad) (word_of_nat len)
              ty fl payload pl data dl ts) (word_of_nat (pad + len)))"
    if "write_fits c pl dl"
    using plan that nz by (simp add: KndRingWrite_def)
qed

lemma write_place:
  assumes wf: "ring_wf c" and fits: "write_fits c pl dl"
  defines "pad \<equiv> place_pad (dsize c) (wpos c) (write_size pl dl)"
    and "len \<equiv> place_len (dsize c) (wpos c) (write_size pl dl)"
  shows "(wpos c + pad) mod dsize c + len \<le> dsize c" "8 dvd len" "write_size pl dl \<le> len"
    "(wpos c + pad + len) mod dsize c + 24 \<le> dsize c" "8 dvd pad"
    "pad \<noteq> 0 \<Longrightarrow> (wpos c + pad) mod dsize c = 0 \<and> 24 \<le> pad"
    "wpos c mod dsize c + pad \<le> dsize c" "wpos c + pad + len \<le> rpos c + dsize c"
proof -
  note sz = ring_wf_size_bounds [OF wf]
  have ge: "24 \<le> write_size pl dl"
    using align8_ge [of "sizeof_RECORD + unat pl + unat dl"] by (simp add: sizeof_RECORD_def)
  have wp: "8 dvd wpos c" "wpos c mod dsize c + 24 \<le> dsize c"
    using wf by (auto simp: ring_wf_def sizeof_RECORD_def)
  have "0 < dsize c" using sz by linarith
  note pa = place_arith [OF sz(3) this wp ge align8_dvd fits, folded pad_def len_def]
  show "(wpos c + pad) mod dsize c + len \<le> dsize c" "8 dvd len" "write_size pl dl \<le> len"
    "(wpos c + pad + len) mod dsize c + 24 \<le> dsize c" "8 dvd pad"
    "pad \<noteq> 0 \<Longrightarrow> (wpos c + pad) mod dsize c = 0 \<and> 24 \<le> pad"
    "wpos c mod dsize c + pad \<le> dsize c"
    by (fact pa)+
  show "wpos c + pad + len \<le> rpos c + dsize c"
    using fits by (simp add: place_fits_def pad_def len_def)
qed

lemma dec_wrap_header: "dec_record (wrap_header len sq ts @ rest) =
    \<lparr>rec_length = len, rec_type = KND_REC_WRAP, rec_flags = 0, rec_sequence = sq, rec_timestamp = ts\<rparr>"
  by (simp add: wrap_header_def record_wire.dec_enc)

lemma get32_dec: "get32 bs 0 = rec_length (dec_record bs)"
  by (simp add: dec_record_def)

text \<open>The chain after the bytes of a record, with a pad record in front where it wraps.\<close>

definition filled :: "'a knd_ring_scheme \<Rightarrow> nat \<Rightarrow> bytes list \<Rightarrow> 'a knd_ring_scheme \<Rightarrow> bool" where
  "filled c n rs c1 \<longleftrightarrow>
     ring_chain (rmem c1) (dsize c) (wpos c + n) (rpos c) rs
     \<and> WritePos c1 = WritePos c + word_of_nat n
     \<and> c1 = c\<lparr>NextSequence := NextSequence c1, rmem := rmem c1, WritePos := WritePos c1\<rparr>
     \<and> (\<forall>a. a + 8 \<le> KND_RING_DATA_OFFSET \<longrightarrow> ld64 (rmem c1) a = ld64 (rmem c) a)"

lemma rec_bytes_facts:
  fixes ty fl ts
  assumes args: "write_args payload pl data dl" and len: "write_size pl dl \<le> len" "len < 2 ^ 32"
  defines "R \<equiv> \<lambda>sq. rec_bytes (word_of_nat len) ty fl sq ts (opt_bytes payload @ opt_bytes data)"
  shows "length (R sq) = len" "unat (get32 (R sq) 0) = len"
    "sizeof_RECORD + unat pl + unat dl \<le> unat (word_of_nat len :: u32)" "sizeof_RECORD \<le> len"
proof -
  have u: "unat (word_of_nat len :: u32) = len"
    using len by (simp add: unat_of_nat)
  have room: "sizeof_RECORD + unat pl + unat dl \<le> len"
    using len(1) align8_ge le_trans by blast
  then show "sizeof_RECORD \<le> len" by simp
  from room show "sizeof_RECORD + unat pl + unat dl \<le> unat (word_of_nat len :: u32)"
    by (simp add: u)
  show "length (R sq) = len"
    using room args u by (simp add: R_def write_args_def length_rec_bytes)
  show "unat (get32 (R sq) 0) = len"
    by (simp add: R_def get32_dec u)
qed

lemma fill_chain_nopad:
  fixes ty fl ts
  assumes ok: "ring_ok c rs" and args: "write_args payload pl data dl"
    and len: "write_size pl dl \<le> len" "8 dvd len" "wpos c mod dsize c + len \<le> dsize c"
      "wpos c + len \<le> rpos c + dsize c"
  defines "c1 \<equiv> ring_fill c (word_of_nat (wpos c mod dsize c)) 0 (word_of_nat len)
              ty fl payload pl data dl ts"
  shows "filled c len (rs @ [rec_bytes (word_of_nat len) ty fl (NextSequence c1) ts
           (opt_bytes payload @ opt_bytes data)]) c1"
proof -
  note okD = ring_okD [OF ok]
  note sz = ring_wf_size_bounds [OF okD(1)]
  define R where "R = rec_bytes (word_of_nat len) ty fl (NextSequence c + 1) ts
           (opt_bytes payload @ opt_bytes data)"
  have lt: "len < 2 ^ 32" using len(3) sz by simp
  note facts = rec_bytes_facts [OF args len(1) lt]
  have "wpos c mod dsize c < 2 ^ 32" using len(3) sz by simp
  then have off: "unat (word_of_nat (wpos c mod dsize c) :: u32) = wpos c mod dsize c"
    by (simp add: unat_of_nat)
  have c1: "c1 = c\<lparr>NextSequence := NextSequence c + 1,
      rmem := mem_write (rmem c) (data_addr (wpos c mod dsize c)) R,
      WritePos := WritePos c + word_of_nat len\<rparr>"
    using args lt unfolding c1_def R_def
    by (simp add: ring_fill_nopad facts write_args_def off ucast_of_nat_small)
  have read: "mem_read (mem_write (rmem c) (data_addr (wpos c mod dsize c)) R)
      (data_addr (wpos c mod dsize c)) len = R"
    by (rule mem_read_write_same) (simp add: R_def facts)
  have "ring_chain (rmem c1) (dsize c) (wpos c + len) (rpos c) (rs @ [R])"
    using chain_append [OF okD(4), of R len] len facts read by (simp add: c1 R_def)
  then show ?thesis
    by (simp add: filled_def c1 flip: R_def)
qed

lemma fill_chain_pad:
  fixes ty fl ts
  assumes ok: "ring_ok c rs" and args: "write_args payload pl data dl"
    and pad: "24 \<le> pad" "8 dvd pad" "wpos c mod dsize c + pad \<le> dsize c"
      "(wpos c + pad) mod dsize c = 0"
    and len: "write_size pl dl \<le> len" "8 dvd len" "len \<le> dsize c"
      "wpos c + pad + len \<le> rpos c + dsize c"
  defines "c1 \<equiv> ring_fill c (word_of_nat (wpos c mod dsize c)) (word_of_nat pad) (word_of_nat len)
              ty fl payload pl data dl ts"
  shows "\<exists>w. \<not> rec_visible w \<and> filled c (pad + len) (rs @ [w, rec_bytes (word_of_nat len) ty fl
           (NextSequence c1) ts (opt_bytes payload @ opt_bytes data)]) c1"
proof -
  note okD = ring_okD [OF ok]
  note sz = ring_wf_size_bounds [OF okD(1)]
  let ?off = "wpos c mod dsize c" and ?pos = "wpos c + pad"
  define R where "R = rec_bytes (word_of_nat len) ty fl (NextSequence c + 1 + 1) ts
           (opt_bytes payload @ opt_bytes data)"
  define W where "W = wrap_header (word_of_nat pad) (NextSequence c + 1) ts"
  define m1 where "m1 = mem_write (rmem c) (data_addr ?off) W"
  define w where "w = mem_read m1 (data_addr ?off) pad"
  have lt: "len < 2 ^ 32" "pad < 2 ^ 32" "?off < 2 ^ 32" using len(3) pad(3) sz by simp_all
  note facts = rec_bytes_facts [OF args len(1) lt(1)]
  have off: "unat (word_of_nat ?off :: u32) = ?off" and padn: "unat (word_of_nat pad :: u32) = pad"
    using lt by (simp_all add: unat_of_nat)
  then have nz: "(word_of_nat pad :: u32) \<noteq> 0" using pad(1) by force
  have c1: "c1 = c\<lparr>NextSequence := NextSequence c + 1 + 1,
      rmem := mem_write m1 (data_addr 0) R, WritePos := WritePos c + word_of_nat (pad + len)\<rparr>"
  proof -
    have src: "length (opt_bytes payload) = unat pl" "length (opt_bytes data) = unat dl"
      using args by (simp_all add: write_args_def)
    show ?thesis
      unfolding c1_def ring_fill_pad [OF src facts(3) nz] off m1_def W_def R_def
      using lt by (simp add: ucast_of_nat_small add.assoc)
  qed
  have "dec_record W = dec_record (W @ [])" by simp
  then have W: "unat (get32 W 0) = pad" "length W = 24"
    by (simp_all only: W_def get32_dec dec_wrap_header knd_record.simps padn length_wrap_header)
  have ch1: "ring_chain m1 (dsize c) ?pos (rpos c) (rs @ [w])"
    using chain_append [OF okD(4), of W pad] pad len W unfolding m1_def w_def
    by (simp add: sizeof_RECORD_def)
  have "take 24 w = W"
    unfolding w_def m1_def using pad(1) W by (simp add: take_mem_read mem_read_write_same)
  then have "w = W @ drop 24 w" by (metis append_take_drop_id)
  then have vis: "\<not> rec_visible w"
    unfolding rec_visible_def W_def by (metis dec_wrap_header knd_record.select_convs(2))
  have read: "mem_read (mem_write m1 (data_addr 0) R) (data_addr 0) len = R"
    by (rule mem_read_write_same) (simp add: R_def facts)
  have "ring_chain (rmem c1) (dsize c) (?pos + len) (rpos c) ((rs @ [w]) @ [R])"
    using chain_append [OF ch1, of R len] len facts read pad(4) by (simp add: c1 R_def)
  moreover have "ld64 m1 a = ld64 (rmem c) a" if "a + 8 \<le> KND_RING_DATA_OFFSET" for a
    unfolding m1_def using that by simp
  ultimately have "filled c (pad + len) (rs @ [w, R]) c1"
    by (simp add: filled_def c1 add.assoc mem_simps)
  with vis show ?thesis
    by (auto simp: c1 R_def intro!: exI [of _ w])
qed

lemma fill_chain:
  fixes ty fl ts
  assumes ok: "ring_ok c rs" and args: "write_args payload pl data dl"
    and fits: "write_fits c pl dl"
  defines "pad \<equiv> place_pad (dsize c) (wpos c) (write_size pl dl)"
    and "len \<equiv> place_len (dsize c) (wpos c) (write_size pl dl)"
  defines "c1 \<equiv> ring_fill c (word_of_nat (wpos c mod dsize c)) (word_of_nat pad) (word_of_nat len)
              ty fl payload pl data dl ts"
  shows "\<exists>w. visible w = [] \<and> filled c (pad + len) (rs @ w @ [rec_bytes (word_of_nat len) ty fl
           (NextSequence c1) ts (opt_bytes payload @ opt_bytes data)]) c1"
proof -
  note place = write_place [OF ring_okD(1) [OF ok] fits, folded pad_def len_def]
  show ?thesis
  proof (cases "pad = 0")
    case True
    then have "filled c len (rs @ [rec_bytes (word_of_nat len) ty fl (NextSequence c1) ts
        (opt_bytes payload @ opt_bytes data)]) c1"
      unfolding c1_def using place fill_chain_nopad [OF ok args, of len ty fl ts] by simp
    with True show ?thesis by (intro exI [of _ "[]"]) simp
  next
    case False
    with place obtain w where "\<not> rec_visible w"
      "filled c (pad + len) (rs @ [w, rec_bytes (word_of_nat len) ty fl (NextSequence c1) ts
        (opt_bytes payload @ opt_bytes data)]) c1"
      unfolding c1_def using fill_chain_pad [OF ok args, of pad len ty fl ts] by auto
    then show ?thesis by (intro exI [of _ "[w]"]) (simp add: visible_def)
  qed
qed

lemma filled_publish:
  assumes ok: "ring_ok c rs0" and fill: "filled c n rs c1"
    and n: "(wpos c + n) mod dsize c + 24 \<le> dsize c" "8 dvd n" "wpos c + n \<le> rpos c + dsize c"
    and nowrap: "wpos c + n < 2 ^ 64"
  shows "ring_ok (ring_publish c1 t) rs" "wpos (ring_publish c1 t) = wpos c + n"
    "rpos (ring_publish c1 t) = rpos c"
proof -
  have c1: "c1 = c\<lparr>NextSequence := NextSequence c1, rmem := rmem c1, WritePos := WritePos c1\<rparr>"
    and ch: "ring_chain (rmem c1) (dsize c) (wpos c + n) (rpos c) rs"
    and wp: "WritePos c1 = WritePos c + word_of_nat n"
    and hdr: "\<And>a. a + 8 \<le> KND_RING_DATA_OFFSET \<Longrightarrow> ld64 (rmem c1) a = ld64 (rmem c) a"
    using fill by (auto simp: filled_def)
  note wf = ring_okD(1) [OF ok]
  have fields: "RingDataSize c1 = RingDataSize c" "Ring c1 = Ring c" "RingBase c1 = RingBase c"
    "RingTotalSize c1 = RingTotalSize c"
    by (subst c1, simp)+
  have wpn: "wpos c1 = wpos c + n"
    unfolding wp using nowrap by (simp add: unat_word_ariths unat_of_nat)
  then show "wpos (ring_publish c1 t) = wpos c + n" by simp
  have "hdr_readPos + 8 \<le> KND_RING_DATA_OFFSET" by (simp add: layout_defs const_defs)
  from hdr [OF this] show rp: "rpos (ring_publish c1 t) = rpos c"
    by (simp only: ring_publish_header(2))
  have "ring_wf (ring_publish c1 t)"
    using wf n fields wpn unfolding ring_wf_def by (auto simp: sizeof_RECORD_def)
  moreover have "ring_chain (rmem (ring_publish c1 t)) (dsize c) (wpos c + n) (rpos c) rs"
    by (rule chain_cong [OF ch]) (rule ring_publish_data)
  ultimately show "ring_ok (ring_publish c1 t) rs"
    using n rp wpn fields by (simp add: ring_ok_def ring_publish_header)
qed

lemma KndRingWrite_drops:
  assumes ok: "ring_ok c rs" and args: "write_args payload pl data dl"
    and fits: "\<not> write_fits c pl dl"
  obtains n where "KndRingWrite c ty fl payload pl data dl ts = (False, ring_drop c n)"
    "ring_ok (ring_drop c n) rs"
  using KndRingWrite_plan(1) [OF ring_okD(1) [OF ok] args fits] ring_ok_drop [OF ok] by blast

section \<open>One append, as the callers see it\<close>

text \<open>A record of the ring that carries a type, flags and a body; zero bytes may follow the body.\<close>

definition is_record :: "u16 \<Rightarrow> u16 \<Rightarrow> bytes \<Rightarrow> bytes \<Rightarrow> bool" where
  "is_record ty fl body r \<longleftrightarrow> rec_type (dec_record r) = ty \<and> rec_flags (dec_record r) = fl
     \<and> unat (rec_length (dec_record r)) = length r \<and> sizeof_RECORD + length body \<le> length r
     \<and> take (length body) (drop sizeof_RECORD r) = body"

lemma is_record_rec_bytes:
  "sizeof_RECORD + length body \<le> unat len \<Longrightarrow> is_record ty fl body (rec_bytes len ty fl sq ts body)"
  by (simp add: is_record_def length_rec_bytes body_rec_bytes)

lemma is_record_visible: "is_record ty fl body r \<Longrightarrow> ty \<noteq> KND_REC_WRAP \<Longrightarrow> rec_visible r"
  by (simp add: is_record_def rec_visible_def)

abbreviation counter :: "nat \<Rightarrow> 'a knd_ring_scheme \<Rightarrow> u64" where
  "counter h c \<equiv> ld64 (rmem c) h"

text \<open>
  The two outcomes of an append. Accepted: one record with the given contents at the end of what a
  consumer will see, one more in the total. Dropped: the contents are as before, one more
  in the count of dropped records.
\<close>

definition appended ::
  "'a knd_ring_scheme \<Rightarrow> bytes list \<Rightarrow> u16 \<Rightarrow> u16 \<Rightarrow> bytes \<Rightarrow> bool \<times> 'a knd_ring_scheme \<Rightarrow> bool" where
  "appended c rs ty fl body res \<longleftrightarrow>
     (case res of (ok, c') \<Rightarrow>
        (\<exists>rs' r. ring_ok c' rs'
           \<and> (if ok then is_record ty fl body r \<and> visible rs' = visible rs @ [r] else rs' = rs)
           \<and> counter hdr_totalRecords c' = counter hdr_totalRecords c + of_bool ok
           \<and> counter hdr_droppedRecords c' = counter hdr_droppedRecords c + of_bool (\<not> ok))
        \<and> rpos c' = rpos c \<and> RingDataSize c' = RingDataSize c \<and> wpos c' \<le> wpos c + dsize c)"

lemma filled_header: "filled c n rs c1 \<Longrightarrow> a + 8 \<le> KND_RING_DATA_OFFSET \<Longrightarrow> ld64 (rmem c1) a = ld64 (rmem c) a"
  by (simp add: filled_def)

lemma filled_size: "filled c n rs c1 \<Longrightarrow> RingDataSize c1 = RingDataSize c"
  unfolding filled_def by (metis knd_ring.select_convs(3) knd_ring.surjective knd_ring.update_convs(7,9,12))

lemma hdr_in_header:
  "hdr_totalRecords + 8 \<le> KND_RING_DATA_OFFSET" "hdr_droppedRecords + 8 \<le> KND_RING_DATA_OFFSET"
  "hdr_readPos + 8 \<le> KND_RING_DATA_OFFSET"
  by (simp_all add: layout_defs const_defs)

lemma KndRingWrite_accepted:
  assumes ok: "ring_ok c rs" and args: "write_args payload pl data dl"
    and nowrap: "rpos c + dsize c < 2 ^ 64" and fits: "write_fits c pl dl"
    and ty: "ty \<noteq> KND_REC_WRAP"
  shows "appended c rs ty fl (opt_bytes payload @ opt_bytes data)
           (KndRingWrite c ty fl payload pl data dl ts)"
    and "fst (KndRingWrite c ty fl payload pl data dl ts)"
proof -
  define pad where "pad = place_pad (dsize c) (wpos c) (write_size pl dl)"
  define len where "len = place_len (dsize c) (wpos c) (write_size pl dl)"
  define c1 where "c1 = ring_fill c (word_of_nat (wpos c mod dsize c)) (word_of_nat pad)
      (word_of_nat len) ty fl payload pl data dl ts"
  define c' where "c' = ring_publish c1 (word_of_nat (pad + len))"
  define R where "R = rec_bytes (word_of_nat len) ty fl (NextSequence c1) ts (opt_bytes payload @ opt_bytes data)"
  note wf = ring_okD(1) [OF ok]
  note place = write_place [OF wf fits, folded pad_def len_def]
  obtain w where w: "visible w = []" and fill: "filled c (pad + len) (rs @ w @ [R]) c1"
    using fill_chain [OF ok args fits, of ty fl ts] unfolding pad_def len_def c1_def R_def by blast
  have lt: "len < 2 ^ 32" using place(1) ring_wf_size_bounds [OF wf] by simp
  have n: "(wpos c + (pad + len)) mod dsize c + 24 \<le> dsize c" "8 dvd pad + len"
    "wpos c + (pad + len) \<le> rpos c + dsize c" "wpos c + (pad + len) < 2 ^ 64"
    using place nowrap by (simp_all add: add.assoc)
  note pub = filled_publish [OF ok fill n, of "word_of_nat (pad + len)", folded c'_def]
  have res: "KndRingWrite c ty fl payload pl data dl ts = (True, c')"
    using KndRingWrite_plan(2) [OF wf args fits] unfolding c'_def c1_def pad_def len_def by simp
  then show "fst (KndRingWrite c ty fl payload pl data dl ts)" by simp
  have R: "is_record ty fl (opt_bytes payload @ opt_bytes data) R"
    unfolding R_def using rec_bytes_facts(3) [OF args place(3) lt] args
    by (intro is_record_rec_bytes) (simp add: write_args_def)
  then have "visible (rs @ w @ [R]) = visible rs @ [R]"
    using w is_record_visible [OF R ty] by (simp add: visible_def)
  moreover have "counter hdr_totalRecords c' = counter hdr_totalRecords c + 1"
    "counter hdr_droppedRecords c' = counter hdr_droppedRecords c" "RingDataSize c' = RingDataSize c"
    unfolding c'_def using filled_header [OF fill] hdr_in_header filled_size [OF fill]
    by (simp_all only: ring_publish_header ring_publish_fields)
  moreover have "wpos c' \<le> wpos c + dsize c"
    using pub(2) n(3) ring_okD(5) [OF ok] by linarith
  ultimately show "appended c rs ty fl (opt_bytes payload @ opt_bytes data)
           (KndRingWrite c ty fl payload pl data dl ts)"
    using R pub by (auto simp: res appended_def)
qed

lemma KndRingWrite_dropped:
  assumes ok: "ring_ok c rs" and args: "write_args payload pl data dl" and fits: "\<not> write_fits c pl dl"
  shows "appended c rs ty fl (opt_bytes payload @ opt_bytes data)
           (KndRingWrite c ty fl payload pl data dl ts)"
    and "\<not> fst (KndRingWrite c ty fl payload pl data dl ts)"
proof -
  obtain n where n: "KndRingWrite c ty fl payload pl data dl ts = (False, ring_drop c n)"
    "ring_ok (ring_drop c n) rs"
    using KndRingWrite_drops [OF ok args fits] by blast
  then show "\<not> fst (KndRingWrite c ty fl payload pl data dl ts)" by simp
  show "appended c rs ty fl (opt_bytes payload @ opt_bytes data)
           (KndRingWrite c ty fl payload pl data dl ts)"
    using n(2) by (auto simp: n(1) appended_def ring_drop_header)
qed

lemmas KndRingWrite_outcomes = KndRingWrite_accepted KndRingWrite_dropped

lemma KndRingWrite_appended:
  assumes "ring_ok c rs" "write_args payload pl data dl" "rpos c + dsize c < 2 ^ 64"
    and "ty \<noteq> KND_REC_WRAP"
  shows "appended c rs ty fl (opt_bytes payload @ opt_bytes data)
           (KndRingWrite c ty fl payload pl data dl ts)"
  using KndRingWrite_outcomes(1,3) assms by blast

section \<open>Safety whatever the consumer does\<close>

text \<open>
  The consumer can store anything anywhere in the mapping, so nothing is assumed of the bytes of
  the region here. \<open>write_footprint\<close> are the offsets that an append may touch.
\<close>

definition write_footprint :: "'a knd_ring_scheme \<Rightarrow> nat \<Rightarrow> bool" where
  "write_footprint c i \<longleftrightarrow> hdr_writePos \<le> i \<and> i < hdr_captureActive
     \<or> KND_RING_DATA_OFFSET \<le> i \<and> i < KND_RING_DATA_OFFSET + dsize c"

lemma ring_drop_footprint: "\<not> write_footprint c i \<Longrightarrow> rmem (ring_drop c n) i = rmem c i"
  by (auto simp: write_footprint_def ring_drop_def Let_def layout_defs mem_simps)

lemma ring_publish_footprint: "\<not> write_footprint c i \<Longrightarrow> rmem (ring_publish c n) i = rmem c i"
  by (auto simp: write_footprint_def ring_publish_def Let_def layout_defs mem_simps)

lemma data_write_footprint:
  "\<not> write_footprint c i \<Longrightarrow> x + length bs \<le> dsize c \<Longrightarrow> mem_write m (data_addr x) bs i = m i"
  by (intro mem_write_out) (auto simp: write_footprint_def)

lemma fill_frame:
  fixes ty fl ts
  assumes wf: "ring_wf c" and args: "write_args payload pl data dl" and fits: "write_fits c pl dl"
  defines "pad \<equiv> place_pad (dsize c) (wpos c) (write_size pl dl)"
    and "len \<equiv> place_len (dsize c) (wpos c) (write_size pl dl)"
  defines "c1 \<equiv> ring_fill c (word_of_nat (wpos c mod dsize c)) (word_of_nat pad) (word_of_nat len)
              ty fl payload pl data dl ts"
  shows "\<not> write_footprint c i \<Longrightarrow> rmem c1 i = rmem c i"
    "WritePos c1 = WritePos c + word_of_nat (pad + len)"
    "c1 = c\<lparr>NextSequence := NextSequence c1, rmem := rmem c1, WritePos := WritePos c1\<rparr>"
proof -
  note sz = ring_wf_size_bounds [OF wf]
  note place = write_place [OF wf fits, folded pad_def len_def]
  let ?off = "wpos c mod dsize c"
  have lt: "len < 2 ^ 32" "pad < 2 ^ 32" "?off < 2 ^ 32" using place(1,7) sz by simp_all
  note facts = rec_bytes_facts [OF args place(3) lt(1)]
  have src: "length (opt_bytes payload) = unat pl" "length (opt_bytes data) = unat dl"
    using args by (simp_all add: write_args_def)
  have u: "unat (word_of_nat ?off :: u32) = ?off" "unat (word_of_nat pad :: u32) = pad"
    using lt by (simp_all add: unat_of_nat)
  have "(\<not> write_footprint c i \<longrightarrow> rmem c1 i = rmem c i)
     \<and> WritePos c1 = WritePos c + word_of_nat (pad + len)
     \<and> c1 = c\<lparr>NextSequence := NextSequence c1, rmem := rmem c1, WritePos := WritePos c1\<rparr>"
  proof (cases "pad = 0")
    case True
    with place(1) show ?thesis
      unfolding c1_def using lt
      by (simp add: ring_fill_nopad [OF src facts(3)] u ucast_of_nat_small data_write_footprint facts(1))
  next
    case False
    then have nz: "(word_of_nat pad :: u32) \<noteq> 0" using u by force
    have "len \<le> dsize c" "24 \<le> pad" using place(1,6) False by auto
    with place(7) show ?thesis
      unfolding c1_def using lt data_write_footprint [of c i 0]
      by (simp add: ring_fill_pad [OF src facts(3) nz] u ucast_of_nat_small data_write_footprint facts(1)
          add.assoc)
  qed
  then show "\<not> write_footprint c i \<Longrightarrow> rmem c1 i = rmem c i"
    "WritePos c1 = WritePos c + word_of_nat (pad + len)"
    "c1 = c\<lparr>NextSequence := NextSequence c1, rmem := rmem c1, WritePos := WritePos c1\<rparr>"
    by auto
qed

lemma mod_word_size:
  assumes "ring_wf c"
  shows "n mod 2 ^ 64 mod dsize c = n mod dsize c" "8 dvd n mod 2 ^ 64 \<longleftrightarrow> 8 dvd n"
proof -
  from assms obtain k where "k \<le> 31" "dsize c = 2 ^ k" by (rule ring_wf_size)
  then have "dsize c dvd 2 ^ 64" by (simp only: le_imp_power_dvd)
  then show "n mod 2 ^ 64 mod dsize c = n mod dsize c" by (rule mod_mod_cancel)
  show "8 dvd n mod 2 ^ 64 \<longleftrightarrow> 8 dvd n" by (simp add: dvd_mod_iff)
qed

lemma ring_wf_advance:
  assumes wf: "ring_wf c" and n: "(wpos c + n) mod dsize c + 24 \<le> dsize c" "8 dvd n"
    and c1: "c1 = c\<lparr>NextSequence := NextSequence c1, rmem := rmem c1, WritePos := WritePos c + word_of_nat n\<rparr>"
  shows "ring_wf c1"
proof -
  have w: "wpos c1 = (wpos c + n) mod 2 ^ 64"
    by (subst c1) (simp add: unat_word_ariths unat_of_nat mod_simps)
  have "8 dvd wpos c + n" using wf n by (simp add: ring_wf_def)
  then have "8 dvd wpos c1" "wpos c1 mod dsize c = (wpos c + n) mod dsize c"
    unfolding w by (simp_all only: mod_word_size [OF wf])
  moreover have "RingDataSize c1 = RingDataSize c" "Ring c1 = Ring c" "RingBase c1 = RingBase c"
    "RingTotalSize c1 = RingTotalSize c"
    by (subst c1, simp)+
  ultimately show ?thesis
    using wf n unfolding ring_wf_def by (auto simp: sizeof_RECORD_def)
qed

lemma KndRingWrite_safe:
  assumes wf: "ring_wf c" and args: "write_args payload pl data dl"
    and res: "KndRingWrite c ty fl payload pl data dl ts = (ok, c')"
  shows "ring_wf c'" "\<not> write_footprint c i \<Longrightarrow> rmem c' i = rmem c i"
    "c' = c\<lparr>NextSequence := NextSequence c', rmem := rmem c', WritePos := WritePos c'\<rparr>"
proof -
  have "ring_wf c' \<and> (\<not> write_footprint c i \<longrightarrow> rmem c' i = rmem c i)
     \<and> c' = c\<lparr>NextSequence := NextSequence c', rmem := rmem c', WritePos := WritePos c'\<rparr>"
  proof (cases "write_fits c pl dl")
    case False
    then obtain n where c': "c' = ring_drop c n"
      using KndRingWrite_plan(1) [OF wf args, of ty fl ts] res by auto
    have "ring_drop c n = c\<lparr>NextSequence := NextSequence c, rmem := rmem (ring_drop c n), WritePos := WritePos c\<rparr>"
      by (simp add: ring_drop_def Let_def)
    with wf ring_drop_footprint [of c i n] c' show ?thesis by auto
  next
    case True
    define pad where "pad = place_pad (dsize c) (wpos c) (write_size pl dl)"
    define len where "len = place_len (dsize c) (wpos c) (write_size pl dl)"
    define c1 where "c1 = ring_fill c (word_of_nat (wpos c mod dsize c)) (word_of_nat pad)
      (word_of_nat len) ty fl payload pl data dl ts"
    have c': "c' = ring_publish c1 (word_of_nat (pad + len))"
      using KndRingWrite_plan(2) [OF wf args True] res unfolding c1_def pad_def len_def by simp
    note place = write_place [OF wf True, folded pad_def len_def]
    have frame: "\<not> write_footprint c i \<Longrightarrow> rmem c1 i = rmem c i"
      "WritePos c1 = WritePos c + word_of_nat (pad + len)"
      "c1 = c\<lparr>NextSequence := NextSequence c1, rmem := rmem c1, WritePos := WritePos c1\<rparr>"
      unfolding c1_def pad_def len_def by (fact fill_frame [OF wf args True])+
    have sz: "RingDataSize c1 = RingDataSize c" by (subst frame(3)) simp
    have upd: "c' = c\<lparr>NextSequence := NextSequence c', rmem := rmem c', WritePos := WritePos c'\<rparr>"
      unfolding c' by (subst frame(3)) (simp add: ring_publish_def Let_def)
    have "WritePos c' = WritePos c + word_of_nat (pad + len)"
      unfolding c' by (simp add: frame(2))
    then have "c' = c\<lparr>NextSequence := NextSequence c', rmem := rmem c',
        WritePos := WritePos c + word_of_nat (pad + len)\<rparr>"
      using upd by simp
    then have "ring_wf c'"
      using place by (intro ring_wf_advance [OF wf, of "pad + len"]) (simp_all add: add.assoc)
    moreover have "rmem c' i = rmem c i" if "\<not> write_footprint c i"
      using frame(1) [OF that] ring_publish_footprint [of c1 i] that sz
      by (simp add: c' write_footprint_def)
    ultimately show ?thesis using upd by blast
  qed
  then show "ring_wf c'" "\<not> write_footprint c i \<Longrightarrow> rmem c' i = rmem c i"
    "c' = c\<lparr>NextSequence := NextSequence c', rmem := rmem c', WritePos := WritePos c'\<rparr>"
    by auto
qed


section \<open>Creation\<close>

lemma bit_top:
  fixes w :: u32
  assumes "2 ^ k \<le> unat w" "unat w < 2 ^ Suc k"
  shows "bit w k"
proof -
  have "unat w div 2 ^ k = 1"
    using assms by (intro div_nat_eqI) auto
  then have "bit (unat w) k" by (simp add: bit_iff_odd)
  then show ?thesis by (simp add: bit_unsigned_iff)
qed

lemma power_of_two_test:
  fixes w :: u32
  assumes "w AND (w - 1) = 0" "65536 \<le> unat w"
  shows "w \<in> (\<lambda>k. 2 ^ k) ` {16..31}"
proof -
  have "1 \<le> unat w" using assms(2) by simp
  from ex_power_ivl1 [OF order_refl this]
  obtain k where k: "2 ^ k \<le> unat w" "unat w < 2 ^ Suc k" by auto
  have "unat w \<le> 2 ^ k"
  proof (rule ccontr)
    assume "\<not> unat w \<le> 2 ^ k"
    moreover have "unat (w - 1) = unat w - 1"
      using assms(2) by (subst unat_minus_no_wrap) auto
    ultimately have "bit (w - 1) k" "bit w k"
      using k by (auto intro!: bit_top)
    then have "bit (w AND (w - 1)) k" by (simp add: bit_and_iff)
    with assms(1) show False by simp
  qed
  with k have w: "unat w = 2 ^ k" by simp
  have "(2 :: nat) ^ 16 < 2 ^ Suc k" using le_less_trans [OF assms(2) k(2)] by simp
  from power_less_imp_less_exp [OF _ this] have ge: "16 \<le> k" by simp
  have "(2 :: nat) ^ k < 2 ^ 32" using w unat_u32_lt [of w] by simp
  from power_less_imp_less_exp [OF _ this] have le: "k \<le> 31" by simp
  have "w = 2 ^ k"
    using w le by (simp add: word_eq_iff_unsigned [where ?'a = nat] unat_two_power)
  with ge le show ?thesis by auto
qed

lemma KndRingCreate_refused:
  "dataSize < 0x10000 \<or> dataSize AND (dataSize - 1) \<noteq> 0 \<Longrightarrow>
     KndRingCreate c dataSize pool mdl = (STATUS_INVALID_PARAMETER, c)"
  by (simp add: KndRingCreate_def)

lemma KndRingCreate_ok:
  assumes size: "\<not> dataSize < 0x10000" "dataSize AND (dataSize - 1) = 0"
    and mem: "pool \<noteq> 0" "mdl \<noteq> 0"
  shows "fst (KndRingCreate c dataSize pool mdl) = STATUS_SUCCESS"
    "ring_ok (snd (KndRingCreate c dataSize pool mdl)) []"
    "kpool (snd (KndRingCreate c dataSize pool mdl)) = insert pool (kpool c)"
    "kmdls (snd (KndRingCreate c dataSize pool mdl)) = insert mdl (kmdls c)"
proof -
  have ge: "65536 \<le> unat dataSize" using size(1) by (simp add: word_less_nat_alt)
  have "unat (word_of_nat KND_RING_DATA_OFFSET + ucast dataSize :: u64)
      = KND_RING_DATA_OFFSET + unat dataSize"
    by (subst unat_plus_no_wrap) (simp_all add: const_defs less_trans [OF add_strict_left_mono [OF unat_u32_lt]])
  moreover have "ring_chain m sz 0 0 []" for m sz by (rule ring_chain.chain_done)
  ultimately show "ring_ok (snd (KndRingCreate c dataSize pool mdl)) []"
    using size mem ge power_of_two_test [OF size(2) ge]
    by (simp add: KndRingCreate_def Let_def ring_ok_def ring_wf_def init_header_def mem_simps layout_defs)
qed (use assms in \<open>simp_all add: KndRingCreate_def Let_def\<close>)

section \<open>A concrete ring\<close>

text \<open>The ring right after creation, with the smallest data area, for evaluating the theorems.\<close>

definition blank_ring :: knd_ring where
  "blank_ring = \<lparr>RingBase = 0, RingTotalSize = 0, RingDataSize = 0, RingData = 0, RingMdl = 0,
     Ring = 0, WritePos = 0, UserVa = 0, NextSequence = 0, kpool = {}, kmdls = {}, rmem = (\<lambda>_. 0)\<rparr>"

definition small_ring :: knd_ring where
  "small_ring = snd (KndRingCreate blank_ring 0x10000 0x7000 0x9000)"

lemma small_ring_ok: "ring_ok small_ring []"
  unfolding small_ring_def by (rule KndRingCreate_ok) simp_all

lemma small_ring_fields [simp]:
  "RingDataSize small_ring = 0x10000" "WritePos small_ring = 0" "Ring small_ring = 0x7000"
  "RingBase small_ring = 0x7000" "RingTotalSize small_ring = 0x11000" "NextSequence small_ring = 0"
  by (simp_all add: small_ring_def blank_ring_def KndRingCreate_def Let_def const_defs)

lemma small_ring_readPos [simp]: "ld64 (rmem small_ring) hdr_readPos = 0"
  by (simp add: small_ring_def KndRingCreate_def Let_def init_header_def mem_simps layout_defs)

section \<open>Properties of the producer\<close>

text \<open>
  C2. The append refines adding one record at the end of a list. On a ring that holds the records
  \<open>rs\<close>, with buffers as long as announced, the append succeeds exactly when the record,
  rounded up and with the padding that a wrap needs, fits in the free space; then what a consumer
  will see is the old records followed by one record with the given type, flags and body, and
  the total count grows. Otherwise the records are unchanged and the drop is counted.
\<close>

theorem KndRingWrite_refines:
  assumes "ring_ok c rs" "write_args payload pl data dl" "rpos c + dsize c < 2 ^ 64"
    and "ty \<noteq> KND_REC_WRAP"
  shows "fst (KndRingWrite c ty fl payload pl data dl ts) = write_fits c pl dl
    \<and> appended c rs ty fl (opt_bytes payload @ opt_bytes data)
        (KndRingWrite c ty fl payload pl data dl ts)"
  using KndRingWrite_accepted [OF assms(1-3) _ assms(4)] KndRingWrite_dropped [OF assms(1,2)]
  by (cases "write_fits c pl dl") simp_all

theorem KndRingWrite_refines_witness:
  "fst (KndRingWrite small_ring KND_REC_CONN_OPEN 0 (Some [1, 2, 3]) 3 (Some [4, 5]) 2 9)
   \<and> appended small_ring [] KND_REC_CONN_OPEN 0 [1, 2, 3, 4, 5]
        (KndRingWrite small_ring KND_REC_CONN_OPEN 0 (Some [1, 2, 3]) 3 (Some [4, 5]) 2 9)"
  using KndRingWrite_refines [OF small_ring_ok, of "Some [1, 2, 3]" 3 "Some [4, 5]" 2 KND_REC_CONN_OPEN 0 9]
  by (simp add: write_args_def opt_bytes_def const_defs layout_defs align8_def place_fits_def
      place_pad_def place_len_def small_ring_readPos [unfolded layout_defs])

text \<open>
  C13. The producer is safe against its own consumer. For any bytes in the mapped region, any read
  position included, an append keeps the kernel's private invariant, changes nothing of the
  context but the sequence number, the write position and the region, and of the region only
  the producer's counters and the data area: no stray write, and never the consumer's line.
\<close>

theorem KndRingWrite_hostile_reader:
  assumes "ring_wf c" "write_args payload pl data dl"
    and "KndRingWrite c ty fl payload pl data dl ts = (ok, c')"
  shows "ring_wf c' \<and> c' = c\<lparr>NextSequence := NextSequence c', rmem := rmem c', WritePos := WritePos c'\<rparr>
    \<and> (\<forall>i. rmem c' i \<noteq> rmem c i \<longrightarrow> hdr_writePos \<le> i \<and> i < hdr_captureActive
          \<or> KND_RING_DATA_OFFSET \<le> i \<and> i < unat (RingTotalSize c))"
proof -
  have "unat (RingTotalSize c) = KND_RING_DATA_OFFSET + dsize c"
    using assms(1) by (simp add: ring_wf_def)
  with KndRingWrite_safe [OF assms] show ?thesis by (auto simp: write_footprint_def)
qed

theorem KndRingWrite_hostile_reader_witness:
  "let c = small_ring\<lparr>rmem := st64 (rmem small_ring) hdr_readPos (2 ^ 63)\<rparr>;
       c' = snd (KndRingWrite c KND_REC_DATA 0 (Some [7]) 1 None 0 5)
   in ring_wf c' \<and> unat (ld64 (rmem c) hdr_readPos) > wpos c"
proof -
  let ?c = "small_ring\<lparr>rmem := st64 (rmem small_ring) hdr_readPos (2 ^ 63)\<rparr>"
  have "ring_wf ?c" using ring_okD(1) [OF small_ring_ok] unfolding ring_wf_def by simp
  moreover have "write_args (Some [7]) 1 None 0"
    by (simp add: write_args_def opt_bytes_def layout_defs)
  ultimately show ?thesis
    using KndRingWrite_hostile_reader [of ?c "Some [7]" 1 None 0 KND_REC_DATA 0 5]
    by (cases "KndRingWrite ?c KND_REC_DATA 0 (Some [7]) 1 None 0 5") simp
qed

text \<open>
  C39. Creation establishes the invariant or leaves nothing behind. A size that is a power of two of
  at least 64 KiB, with both allocations granted, yields an empty ring; every other case fails
  and keeps no allocation.
\<close>

theorem KndRingCreate_establishes:
  "if \<not> dataSize < 0x10000 \<and> dataSize AND (dataSize - 1) = 0 \<and> pool \<noteq> 0 \<and> mdl \<noteq> 0
   then fst (KndRingCreate c dataSize pool mdl) = STATUS_SUCCESS
     \<and> ring_ok (snd (KndRingCreate c dataSize pool mdl)) []
   else \<not> NT_SUCCESS (fst (KndRingCreate c dataSize pool mdl))
     \<and> kpool (snd (KndRingCreate c dataSize pool mdl)) \<subseteq> kpool c
     \<and> kmdls (snd (KndRingCreate c dataSize pool mdl)) = kmdls c"
  using KndRingCreate_ok [of dataSize pool mdl c]
  by (auto simp: KndRingCreate_def Let_def NT_SUCCESS_def const_defs)

end
