(* ===== verification/Knd_Ioctl.thy ===== *)
theory Knd_Ioctl
  imports Knd_Contents
begin

text \<open>
  The control plane of the driver (\<^verbatim>\<open>src/driver/ioctl.c\<close>): the device context of
  \<^verbatim>\<open>src/driver/knd_driver.h\<close>, the mapping of the ring into the consumer, the copy that is confined
  to the driver's own region, and the dispatch of device control, create, cleanup and close
  requests. What the kernel answers (the current process, the result of mapping locked
  pages, address translation, the physical copy) is a record of arguments. A request carries
  the system buffer that the I/O manager allocates for buffered transfers; the result carries
  the status, the information count and the buffer left behind. The mutex of the mapping
  and the atomic exchanges make each request one step.
\<close>

section \<open>Device context\<close>

definition STATUS_DEVICE_NOT_READY :: ntstatus where
  [const_defs]: "STATUS_DEVICE_NOT_READY = 0xC00000A3"
definition STATUS_DEVICE_BUSY :: ntstatus where [const_defs]: "STATUS_DEVICE_BUSY = 0x80000011"
definition STATUS_BUFFER_TOO_SMALL :: ntstatus where
  [const_defs]: "STATUS_BUFFER_TOO_SMALL = 0xC0000023"
definition STATUS_INVALID_DEVICE_REQUEST :: ntstatus where
  [const_defs]: "STATUS_INVALID_DEVICE_REQUEST = 0xC0000010"
definition STATUS_UNSUCCESSFUL :: ntstatus where [const_defs]: "STATUS_UNSUCCESSFUL = 0xC0000001"

text \<open>\<open>kmaps\<close> holds the live user mappings, as pairs of process and address.\<close>

record knd_ctx = knd_ring +
  DeviceObject :: u64
  MapProcess :: u64
  CaptureActive :: u32
  NextFlowId :: u64
  EngineHandle :: u64
  SublayerAdded :: bool
  CalloutIds :: "u32 list"
  NumCallouts :: nat
  CalloutsRegistered :: bool
  RedirectEnable :: u32
  RedirectPort :: u16
  RedirectHandle :: u64
  RedirectHandleCreated :: bool
  kmaps :: "(u64 \<times> u64) set"

definition KND_MAX_CALLOUTS :: nat where [const_defs]: "KND_MAX_CALLOUTS = 8"

definition KndNextFlowId :: "knd_ctx \<Rightarrow> u64 \<times> knd_ctx" where
  "KndNextFlowId c = (NextFlowId c + 1, c\<lparr>NextFlowId := NextFlowId c + 1\<rparr>)"

text \<open>Mapping locked pages yields an address (NULL included) or raises.\<close>

datatype map_result = Mapped u64 | Raised ntstatus

record kernel_env =
  PsGetCurrentProcess :: u64
  MmMapLockedPages :: map_result
  MmGetPhysicalAddress :: "u64 \<Rightarrow> u64"
  MmCopyMemory :: "mem \<Rightarrow> u64 \<Rightarrow> nat \<Rightarrow> ntstatus \<times> bytes"

section \<open>Mapping the ring into a process\<close>

definition map_ring_out :: "knd_ctx \<Rightarrow> u64 \<Rightarrow> knd_map_ring_out" where
  "map_ring_out c va = \<lparr>mo_userVa = va, mo_totalSize = RingTotalSize c,
     mo_dataOffset = word_of_nat KND_RING_DATA_OFFSET, mo_dataSize = RingDataSize c\<rparr>"

definition KndMapRingToUser ::
  "kernel_env \<Rightarrow> knd_ctx \<Rightarrow> ntstatus \<times> knd_map_ring_out option \<times> knd_ctx" where
  "KndMapRingToUser env c =
     (if RingMdl c = 0 then (STATUS_DEVICE_NOT_READY, None, c)
      else if UserVa c \<noteq> 0
      then (if MapProcess c = PsGetCurrentProcess env
            then (STATUS_SUCCESS, Some (map_ring_out c (UserVa c)), c)
            else (STATUS_DEVICE_BUSY, None, c))
      else
        let (va, status) = (case MmMapLockedPages env of
               Mapped va \<Rightarrow> (va, STATUS_SUCCESS) | Raised code \<Rightarrow> (0, code))
        in if va = 0
           then (if NT_SUCCESS status then STATUS_INSUFFICIENT_RESOURCES else status, None, c)
           else (STATUS_SUCCESS, Some (map_ring_out c va),
                 c\<lparr>UserVa := va, MapProcess := PsGetCurrentProcess env,
                   kmaps := insert (PsGetCurrentProcess env, va) (kmaps c)\<rparr>))"

definition KndUnmapRingFromUser :: "kernel_env \<Rightarrow> knd_ctx \<Rightarrow> ntstatus \<times> knd_ctx" where
  "KndUnmapRingFromUser env c =
     (STATUS_SUCCESS,
      if UserVa c \<noteq> 0 \<and> MapProcess c = PsGetCurrentProcess env
      then c\<lparr>kmaps := kmaps c - {(PsGetCurrentProcess env, UserVa c)}, UserVa := 0, MapProcess := 0\<rparr>
      else c)"

section \<open>The scoped copy\<close>

definition PAGE_SIZE :: nat where [const_defs]: "PAGE_SIZE = 4096"

text \<open>Overwriting part of a buffer.\<close>

definition put_at :: "bytes \<Rightarrow> nat \<Rightarrow> bytes \<Rightarrow> bytes" where
  "put_at buf i bs = take i buf @ bs @ drop (i + length bs) buf"

lemma page_off_lt: "unat ((va :: u64) AND 4095) < 4096"
  using unat_and_mask [of 12 va] by simp

text \<open>Bytes up to the end of the page, at most what remains.\<close>

definition page_chunk :: "u64 \<Rightarrow> nat \<Rightarrow> nat" where
  "page_chunk va remaining =
     (let pageOff = unat (va AND 4095); chunk = PAGE_SIZE - pageOff
      in if chunk > remaining then remaining else chunk)"

lemma page_chunk_bounds:
  assumes "0 < remaining"
  shows "0 < page_chunk va remaining" "page_chunk va remaining \<le> remaining"
  using assms page_off_lt [of va] by (auto simp: page_chunk_def PAGE_SIZE_def Let_def)

text \<open>
  The loop over pages. \<open>va\<close> is the kernel address, \<open>ptr\<close> the position in the
  caller's buffer; a write goes to the region at the offset of \<open>va\<close> from its base.
\<close>

function phys_copy_loop ::
  "kernel_env \<Rightarrow> bool \<Rightarrow> u64 \<Rightarrow> u64 \<Rightarrow> nat \<Rightarrow> nat \<Rightarrow> mem \<Rightarrow> bytes \<Rightarrow> ntstatus \<times> mem \<times> bytes"
  where
  "phys_copy_loop env isWrite base va ptr remaining m buf =
     (if remaining = 0 then (STATUS_SUCCESS, m, buf)
      else
        let chunk = page_chunk va remaining;
            pa = MmGetPhysicalAddress env va
        in if pa = 0 then (STATUS_UNSUCCESSFUL, m, buf)
           else if isWrite
           then phys_copy_loop env isWrite base (va + word_of_nat chunk) (ptr + chunk)
                  (remaining - chunk)
                  (mem_write m (unat (va - base)) (take chunk (drop ptr buf))) buf
           else let (s, bs) = MmCopyMemory env m pa chunk; buf = put_at buf ptr bs
                in if \<not> NT_SUCCESS s then (s, m, buf)
                   else if length bs \<noteq> chunk then (STATUS_UNSUCCESSFUL, m, buf)
                   else phys_copy_loop env isWrite base (va + word_of_nat chunk) (ptr + chunk)
                          (remaining - chunk) m buf)"
  by pat_completeness auto
termination
  by (relation "measure (\<lambda>(_, _, _, _, _, remaining, _, _). remaining)")
    (simp_all add: page_chunk_bounds)

declare phys_copy_loop.simps [simp del]

definition KndScopedPhysCopy ::
  "kernel_env \<Rightarrow> knd_ctx \<Rightarrow> u64 \<Rightarrow> u32 \<Rightarrow> bytes \<Rightarrow> bool \<Rightarrow> ntstatus \<times> knd_ctx \<times> bytes" where
  "KndScopedPhysCopy env c offset len buf isWrite =
     (if RingBase c = 0 then (STATUS_DEVICE_NOT_READY, c, buf)
      else if len = 0 \<or> unat len > KND_MAX_PHYS_RW then (STATUS_INVALID_PARAMETER, c, buf)
      else if offset \<ge> RingTotalSize c \<or> ucast len > RingTotalSize c - offset
      then (STATUS_INVALID_PARAMETER, c, buf)
      else
        let (status, m, buf) = phys_copy_loop env isWrite (RingBase c) (RingBase c + offset) 0
              (unat len) (rmem c) buf
        in (status, c\<lparr>rmem := m\<rparr>, buf))"

section \<open>Dispatch\<close>

record irp =
  IoControlCode :: u32
  InputBufferLength :: u32
  OutputBufferLength :: u32
  SystemBuffer :: bytes

text \<open>The I/O manager allocates the longer of the two lengths.\<close>

definition irp_wf :: "irp \<Rightarrow> bool" where
  "irp_wf q \<longleftrightarrow> length (SystemBuffer q) =
     max (unat (InputBufferLength q)) (unat (OutputBufferLength q))"

definition stats_of :: "mem \<Rightarrow> knd_stats_out" where
  "stats_of m = \<lparr>so_writePos = ld64 m hdr_writePos, so_readPos = ld64 m hdr_readPos,
     so_totalRecords = ld64 m hdr_totalRecords, so_droppedRecords = ld64 m hdr_droppedRecords,
     so_totalBytes = ld64 m hdr_totalBytes, so_droppedBytes = ld64 m hdr_droppedBytes,
     so_activeFlows = ld32 m hdr_activeFlows, so_captureActive = ld32 m hdr_captureActive\<rparr>"

definition set_capture :: "u32 \<Rightarrow> knd_ctx \<Rightarrow> knd_ctx" where
  "set_capture v c =
     (let c = c\<lparr>CaptureActive := v\<rparr>
      in if Ring c \<noteq> 0 then c\<lparr>rmem := st32 (rmem c) hdr_captureActive v\<rparr> else c)"

text \<open>One request on a context that exists: status, information, context and buffer.\<close>

definition device_control :: "kernel_env \<Rightarrow> knd_ctx \<Rightarrow> irp \<Rightarrow> ntstatus \<times> nat \<times> knd_ctx \<times> bytes" where
  "device_control env c q =
     (let sysBuf = SystemBuffer q; inLen = unat (InputBufferLength q);
          outLen = unat (OutputBufferLength q); code = IoControlCode q
      in if code = IOCTL_KND_GET_VERSION
      then (if outLen < sizeof_VERSION_OUT then (STATUS_BUFFER_TOO_SMALL, 0, c, sysBuf)
            else (STATUS_SUCCESS, sizeof_VERSION_OUT, c, put_at sysBuf 0
                    (enc_version \<lparr>vo_protocolVersion = KND_PROTOCOL_VERSION,
                                  vo_driverVersion = KND_DRIVER_VERSION\<rparr>)))
      else if code = IOCTL_KND_MAP_RING
      then (if outLen < sizeof_MAP_RING_OUT then (STATUS_BUFFER_TOO_SMALL, 0, c, sysBuf)
            else case KndMapRingToUser env c of (status, out, c) \<Rightarrow>
              (status, if NT_SUCCESS status then sizeof_MAP_RING_OUT else 0, c,
               case out of None \<Rightarrow> sysBuf | Some v \<Rightarrow> put_at sysBuf 0 (enc_map_ring v)))
      else if code = IOCTL_KND_UNMAP_RING
      then (case KndUnmapRingFromUser env c of (status, c) \<Rightarrow> (status, 0, c, sysBuf))
      else if code = IOCTL_KND_START_CAPTURE then (STATUS_SUCCESS, 0, set_capture 1 c, sysBuf)
      else if code = IOCTL_KND_STOP_CAPTURE then (STATUS_SUCCESS, 0, set_capture 0 c, sysBuf)
      else if code = IOCTL_KND_SET_REDIRECT
      then (if inLen < sizeof_REDIRECT_IN then (STATUS_BUFFER_TOO_SMALL, 0, c, sysBuf)
            else let rq = dec_redirect_in sysBuf
                 in (STATUS_SUCCESS, 0, c\<lparr>RedirectPort := ri_proxyPort rq,
                       RedirectEnable := if ri_enable rq \<noteq> 0 then 1 else 0\<rparr>, sysBuf))
      else if code = IOCTL_KND_GET_STATS
      then (if outLen < sizeof_STATS_OUT then (STATUS_BUFFER_TOO_SMALL, 0, c, sysBuf)
            else if Ring c = 0 then (STATUS_DEVICE_NOT_READY, 0, c, sysBuf)
            else (STATUS_SUCCESS, sizeof_STATS_OUT, c,
                  put_at sysBuf 0 (enc_stats (stats_of (rmem c)))))
      else if code = IOCTL_KND_PHYS_READ
      then (if inLen < sizeof_PHYS_RW then (STATUS_BUFFER_TOO_SMALL, 0, c, sysBuf)
            else let rq = dec_phys_rw sysBuf
                 in if pr_length rq = 0 \<or> unat (pr_length rq) > KND_MAX_PHYS_RW
                    then (STATUS_INVALID_PARAMETER, 0, c, sysBuf)
                    else if outLen < unat (pr_length rq) then (STATUS_BUFFER_TOO_SMALL, 0, c, sysBuf)
                    else case KndScopedPhysCopy env c (pr_offset rq) (pr_length rq) sysBuf False of
                      (status, c, buf) \<Rightarrow>
                        (status, if NT_SUCCESS status then unat (pr_length rq) else 0, c, buf))
      else if code = IOCTL_KND_PHYS_WRITE
      then (if inLen < sizeof_PHYS_RW then (STATUS_BUFFER_TOO_SMALL, 0, c, sysBuf)
            else let rq = dec_phys_rw sysBuf
                 in if pr_length rq = 0 \<or> unat (pr_length rq) > KND_MAX_PHYS_RW
                    then (STATUS_INVALID_PARAMETER, 0, c, sysBuf)
                    else if inLen < sizeof_PHYS_RW + unat (pr_length rq)
                    then (STATUS_BUFFER_TOO_SMALL, 0, c, sysBuf)
                    else case KndScopedPhysCopy env c (pr_offset rq) (pr_length rq)
                           (drop sizeof_PHYS_RW sysBuf) True of
                      (status, c, buf) \<Rightarrow> (status, 0, c, take sizeof_PHYS_RW sysBuf @ buf))
      else (STATUS_INVALID_DEVICE_REQUEST, 0, c, sysBuf))"

definition KndDispatchDeviceControl ::
  "kernel_env \<Rightarrow> knd_ctx option \<Rightarrow> irp \<Rightarrow> ntstatus \<times> nat \<times> knd_ctx option \<times> bytes" where
  "KndDispatchDeviceControl env g q =
     (case g of
        None \<Rightarrow> (STATUS_DEVICE_NOT_READY, 0, None, SystemBuffer q)
      | Some c \<Rightarrow> (case device_control env c q of (status, info, c, buf) \<Rightarrow> (status, info, Some c, buf)))"

datatype major_function = IRP_MJ_CREATE | IRP_MJ_CLEANUP | IRP_MJ_CLOSE

definition KndDispatchCreateClose ::
  "kernel_env \<Rightarrow> knd_ctx option \<Rightarrow> major_function \<Rightarrow> ntstatus \<times> nat \<times> knd_ctx option" where
  "KndDispatchCreateClose env g mj =
     (STATUS_SUCCESS, 0,
      case g of
        Some c \<Rightarrow> (if mj = IRP_MJ_CLEANUP then Some (snd (KndUnmapRingFromUser env c)) else g)
      | None \<Rightarrow> g)"

section \<open>The scoped copy stays inside the region\<close>

lemma offset_step:
  fixes va base :: u64
  assumes "unat (va - base) + n < 2 ^ 64"
  shows "unat (va + word_of_nat n - base) = unat (va - base) + n"
proof -
  have "n < 2 ^ 64" using assms by simp
  then have n: "unat (word_of_nat n :: u64) = n" by (simp add: unat_of_nat)
  have "va + word_of_nat n - base = (va - base) + word_of_nat n" by simp
  moreover have "unat ((va - base) + word_of_nat n) = unat (va - base) + unat (word_of_nat n :: u64)"
    using assms n by (intro unat_plus_no_wrap) simp
  ultimately show ?thesis by (simp only: n)
qed

lemma phys_copy_loop_step:
  assumes "0 < remaining"
  shows "phys_copy_loop env isWrite base va ptr remaining m buf =
     (let chunk = page_chunk va remaining; pa = MmGetPhysicalAddress env va
      in if pa = 0 then (STATUS_UNSUCCESSFUL, m, buf)
         else if isWrite
         then phys_copy_loop env isWrite base (va + word_of_nat chunk) (ptr + chunk)
                (remaining - chunk) (mem_write m (unat (va - base)) (take chunk (drop ptr buf))) buf
         else let (s, bs) = MmCopyMemory env m pa chunk; buf = put_at buf ptr bs
              in if \<not> NT_SUCCESS s then (s, m, buf)
                 else if length bs \<noteq> chunk then (STATUS_UNSUCCESSFUL, m, buf)
                 else phys_copy_loop env isWrite base (va + word_of_nat chunk) (ptr + chunk)
                        (remaining - chunk) m buf)"
  using assms by (subst phys_copy_loop.simps) simp

lemma phys_copy_loop_0 [simp]:
  "phys_copy_loop env isWrite base va ptr 0 m buf = (STATUS_SUCCESS, m, buf)"
  by (subst phys_copy_loop.simps) simp

text \<open>Whatever the kernel answers, only the requested bytes of the region can change.\<close>

lemma phys_copy_loop_confined:
  assumes "unat (va - base) + remaining < 2 ^ 64"
    and "phys_copy_loop env isWrite base va ptr remaining m buf = (s, m', buf')"
    and "i < unat (va - base) \<or> unat (va - base) + remaining \<le> i \<or> \<not> isWrite"
  shows "m' i = m i"
  using assms
proof (induction remaining arbitrary: va ptr m buf rule: less_induct)
  case (less remaining)
  show ?case
  proof (cases "remaining = 0")
    case True
    with less.prems show ?thesis by simp
  next
    case False
    then have pos: "0 < remaining" by simp
    define n where "n = page_chunk va remaining"
    have n: "0 < n" "n \<le> remaining"
      using page_chunk_bounds [OF pos] by (simp_all add: n_def)
    have off: "unat (va + word_of_nat n - base) = unat (va - base) + n"
      using less.prems(1) n by (intro offset_step) simp
    have rec: "m' i = m1 i"
      if "phys_copy_loop env isWrite base (va + word_of_nat n) (ptr + n) (remaining - n) m1 b1
          = (s, m', buf')" for m1 b1
      using less.IH [OF _ _ that] n off less.prems by auto
    have "mem_write m (unat (va - base)) (take n (drop ptr buf)) i = m i" if "isWrite"
      using less.prems(3) n that by (intro mem_write_out) auto
    with rec less.prems(2) show ?thesis
      unfolding phys_copy_loop_step [OF pos] Let_def n_def [symmetric]
      by (auto split: if_splits prod.splits)
  qed
qed

definition translated :: "kernel_env \<Rightarrow> u64 \<Rightarrow> nat \<Rightarrow> bool" where
  "translated env va n \<longleftrightarrow> (\<forall>i < n. MmGetPhysicalAddress env (va + word_of_nat i) \<noteq> 0)"

lemma translated_step:
  assumes "translated env va remaining" "n \<le> remaining"
  shows "translated env (va + word_of_nat n) (remaining - n)"
proof -
  have "MmGetPhysicalAddress env (va + word_of_nat n + word_of_nat i) \<noteq> 0"
    if "i < remaining - n" for i
    using assms that by (simp add: translated_def add.assoc flip: of_nat_add)
  then show ?thesis by (simp add: translated_def)
qed

lemma translated_head: "translated env va remaining \<Longrightarrow> 0 < remaining \<Longrightarrow> MmGetPhysicalAddress env va \<noteq> 0"
  by (auto simp: translated_def dest: spec [of _ 0])

lemma phys_write_loop:
  assumes "translated env va remaining" "unat (va - base) + remaining < 2 ^ 64"
    and "ptr + remaining \<le> length buf"
  shows "phys_copy_loop env True base va ptr remaining m buf =
     (STATUS_SUCCESS, mem_write m (unat (va - base)) (take remaining (drop ptr buf)), buf)"
  using assms
proof (induction remaining arbitrary: va ptr m rule: less_induct)
  case (less remaining)
  show ?case
  proof (cases "remaining = 0")
    case False
    then have pos: "0 < remaining" by simp
    define n where "n = page_chunk va remaining"
    have n: "0 < n" "n \<le> remaining"
      using page_chunk_bounds [OF pos] by (simp_all add: n_def)
    have off: "unat (va + word_of_nat n - base) = unat (va - base) + n"
      using less.prems n by (intro offset_step) simp
    let ?m = "mem_write m (unat (va - base)) (take n (drop ptr buf))"
    have "phys_copy_loop env True base (va + word_of_nat n) (ptr + n) (remaining - n) ?m buf =
      (STATUS_SUCCESS, mem_write ?m (unat (va - base) + n) (take (remaining - n) (drop (ptr + n) buf)), buf)"
      using less.IH [of "remaining - n" "va + word_of_nat n" "ptr + n" ?m] n off less.prems
        translated_step [OF less.prems(1) n(2)] by simp
    moreover have "take remaining (drop ptr buf)
        = take n (drop ptr buf) @ take (remaining - n) (drop (ptr + n) buf)"
      using n by (simp add: take_add [of n "remaining - n", symmetric, simplified] add.commute flip: drop_drop)
    moreover have "length (take n (drop ptr buf)) = n" using less.prems n by simp
    ultimately show ?thesis
      using translated_head [OF less.prems(1) pos] unfolding phys_copy_loop_step [OF pos] Let_def n_def [symmetric]
      by (simp add: mem_write_append)
  qed simp
qed


lemma length_put_at: "i + length bs \<le> length buf \<Longrightarrow> length (put_at buf i bs) = length buf"
  by (simp add: put_at_def)

lemma put_at_Nil [simp]: "put_at buf i [] = buf"
  by (simp add: put_at_def)

lemma put_at_append:
  assumes "i + length xs + length ys \<le> length buf"
  shows "put_at (put_at buf i xs) (i + length xs) ys = put_at buf i (xs @ ys)"
  using assms by (simp add: put_at_def ac_simps)

lemma take_put_at: "i + length bs \<le> length buf \<Longrightarrow> i = 0 \<Longrightarrow> take (length bs) (put_at buf i bs) = bs"
  by (simp add: put_at_def)

text \<open>
  What the driver relies on for a read: the translation of an address of the region followed by
  a physical copy within one page yields the bytes at that address.
\<close>

definition phys_reads :: "kernel_env \<Rightarrow> u64 \<Rightarrow> nat \<Rightarrow> bool" where
  "phys_reads env base n \<longleftrightarrow> (\<forall>off < n. \<forall>k. off + k \<le> n \<longrightarrow> (\<forall>m.
     MmGetPhysicalAddress env (base + word_of_nat off) \<noteq> 0 \<and>
     MmCopyMemory env m (MmGetPhysicalAddress env (base + word_of_nat off)) k
       = (STATUS_SUCCESS, mem_read m off k)))"

lemma NT_SUCCESS_SUCCESS [simp]: "NT_SUCCESS STATUS_SUCCESS"
  by (simp add: NT_SUCCESS_def STATUS_SUCCESS_def)

lemma phys_read_loop:
  assumes "phys_reads env base tot" "off + remaining \<le> tot" "tot < 2 ^ 64"
    and "ptr + remaining \<le> length buf"
  shows "phys_copy_loop env False base (base + word_of_nat off) ptr remaining m buf =
     (STATUS_SUCCESS, m, put_at buf ptr (mem_read m off remaining))"
  using assms(2,4)
proof (induction remaining arbitrary: off ptr buf rule: less_induct)
  case (less remaining)
  show ?case
  proof (cases "remaining = 0")
    case False
    then have pos: "0 < remaining" by simp
    let ?va = "base + word_of_nat off"
    define n where "n = page_chunk ?va remaining"
    have n: "0 < n" "n \<le> remaining"
      using page_chunk_bounds [OF pos] by (simp_all add: n_def)
    have va: "?va + word_of_nat n = base + word_of_nat (off + n)" by simp
    have copy: "MmGetPhysicalAddress env ?va \<noteq> 0"
      "MmCopyMemory env m (MmGetPhysicalAddress env ?va) n = (STATUS_SUCCESS, mem_read m off n)"
      using assms(1) n less.prems by (auto simp: phys_reads_def)
    have "phys_copy_loop env False base (base + word_of_nat (off + n)) (ptr + n) (remaining - n) m
        (put_at buf ptr (mem_read m off n)) = (STATUS_SUCCESS, m,
        put_at (put_at buf ptr (mem_read m off n)) (ptr + n) (mem_read m (off + n) (remaining - n)))"
      using n less.prems by (intro less.IH) (auto simp: length_put_at)
    moreover have "put_at (put_at buf ptr (mem_read m off n)) (ptr + n) (mem_read m (off + n) (remaining - n))
        = put_at buf ptr (mem_read m off remaining)"
      using put_at_append [of ptr "mem_read m off n" "mem_read m (off + n) (remaining - n)" buf]
        n less.prems mem_read_add [of m off n "remaining - n"] by simp
    ultimately show ?thesis
      using copy n unfolding phys_copy_loop_step [OF pos] Let_def n_def [symmetric] va
      by (simp add: copy(2))
  qed simp
qed

lemma nt_failures [simp]:
  "\<not> NT_SUCCESS STATUS_DEVICE_NOT_READY" "\<not> NT_SUCCESS STATUS_INVALID_PARAMETER"
  "\<not> NT_SUCCESS STATUS_INSUFFICIENT_RESOURCES" "\<not> NT_SUCCESS STATUS_DEVICE_BUSY"
  "\<not> NT_SUCCESS STATUS_BUFFER_TOO_SMALL" "\<not> NT_SUCCESS STATUS_UNSUCCESSFUL"
  "\<not> NT_SUCCESS STATUS_INVALID_DEVICE_REQUEST"
  by (simp_all add: NT_SUCCESS_def const_defs)

lemma unat_offset_in_region:
  fixes offset :: u64 and len :: u32
  assumes "\<not> (offset \<ge> tot \<or> ucast len > tot - offset)"
  shows "unat offset + unat len \<le> unat tot"
proof -
  have "unat offset < unat tot" using assms by (simp add: word_le_nat_alt)
  moreover from this have "unat len \<le> unat tot - unat offset"
    using assms by (simp add: word_less_nat_alt unat_minus_no_wrap)
  ultimately show ?thesis by linarith
qed

lemma scoped_copy_cases:
  obtains (refused) s where "KndScopedPhysCopy env c offset len buf isWrite = (s, c, buf)"
      "\<not> NT_SUCCESS s"
  | (copied) s m buf' where "KndScopedPhysCopy env c offset len buf isWrite = (s, c\<lparr>rmem := m\<rparr>, buf')"
      "phys_copy_loop env isWrite (RingBase c) (RingBase c + offset) 0 (unat len) (rmem c) buf = (s, m, buf')"
      "unat offset + unat len \<le> unat (RingTotalSize c)" "len \<noteq> 0" "unat len \<le> KND_MAX_PHYS_RW"
proof (cases "RingBase c = 0 \<or> len = 0 \<or> unat len > KND_MAX_PHYS_RW \<or> offset \<ge> RingTotalSize c
    \<or> ucast len > RingTotalSize c - offset")
  case True
  then have "KndScopedPhysCopy env c offset len buf isWrite =
      (if RingBase c = 0 then STATUS_DEVICE_NOT_READY else STATUS_INVALID_PARAMETER, c, buf)"
    by (auto simp: KndScopedPhysCopy_def)
  then show ?thesis by (rule refused) simp
next
  case False
  obtain s m buf' where l: "phys_copy_loop env isWrite (RingBase c) (RingBase c + offset) 0 (unat len)
      (rmem c) buf = (s, m, buf')" by (rule prod_cases3)
  with False have "KndScopedPhysCopy env c offset len buf isWrite = (s, c\<lparr>rmem := m\<rparr>, buf')"
    by (simp add: KndScopedPhysCopy_def)
  moreover have "unat offset + unat len \<le> unat (RingTotalSize c)"
    using False by (intro unat_offset_in_region) auto
  ultimately show ?thesis using copied l False by auto
qed

text \<open>
  C14. The copy is no general memory primitive. Whatever offset, length and kernel answers, the
  only state that changes is the bytes of the region at the requested offsets, only for a write,
  and only when the whole request lies inside the region.
\<close>

theorem KndScopedPhysCopy_confined:
  assumes "KndScopedPhysCopy env c offset len buf isWrite = (s, c', buf')"
  shows "c' = c\<lparr>rmem := rmem c'\<rparr>
     \<and> (\<forall>i. rmem c' i \<noteq> rmem c i \<longrightarrow> isWrite \<and> unat offset \<le> i \<and> i < unat offset + unat len
          \<and> unat offset + unat len \<le> unat (RingTotalSize c) \<and> unat len \<le> KND_MAX_PHYS_RW)"
proof (cases rule: scoped_copy_cases [of env c offset len buf isWrite])
  case (refused s')
  with assms show ?thesis by simp
next
  case (copied s' m b)
  have "unat (RingBase c + offset - RingBase c) = unat offset" by simp
  moreover have "unat offset + unat len < 2 ^ 64"
    using le_less_trans [OF copied(3) unat_u64_lt] by simp
  ultimately have "isWrite \<and> unat offset \<le> i \<and> i < unat offset + unat len" if "m i \<noteq> rmem c i" for i
    using phys_copy_loop_confined [OF _ copied(2), of i] that by (auto simp flip: not_le)
  moreover have "c' = c\<lparr>rmem := m\<rparr>" using assms copied(1) by simp
  ultimately show ?thesis using copied by simp
qed

text \<open>The buffer keeps its length when the kernel copies no more than it is asked for.\<close>

definition copy_bounded :: "kernel_env \<Rightarrow> bool" where
  "copy_bounded env \<longleftrightarrow> (\<forall>m pa n. length (snd (MmCopyMemory env m pa n)) \<le> n)"

lemma phys_copy_loop_length:
  assumes "copy_bounded env" "ptr + remaining \<le> length buf"
    and "phys_copy_loop env isWrite base va ptr remaining m buf = (s, m', buf')"
  shows "length buf' = length buf"
  using assms(2,3)
proof (induction remaining arbitrary: va ptr m buf rule: less_induct)
  case (less remaining)
  show ?case
  proof (cases "remaining = 0")
    case True
    with less.prems show ?thesis by simp
  next
    case False
    then have pos: "0 < remaining" by simp
    define n where "n = page_chunk va remaining"
    have n: "0 < n" "n \<le> remaining"
      using page_chunk_bounds [OF pos] by (simp_all add: n_def)
    obtain s1 bs where cp: "MmCopyMemory env m (MmGetPhysicalAddress env va) n = (s1, bs)"
      by (cases "MmCopyMemory env m (MmGetPhysicalAddress env va) n") blast
    have bs: "length bs \<le> n"
      using assms(1) cp by (metis copy_bounded_def snd_conv)
    have len: "length (put_at buf ptr bs) = length buf"
      using bs n less.prems by (intro length_put_at) simp
    have rec: "length buf' = length b1"
      if "phys_copy_loop env isWrite base (va + word_of_nat n) (ptr + n) (remaining - n) m1 b1
          = (s, m', buf')" "length b1 = length buf" for m1 b1
      using less.IH [OF _ _ that(1)] n less.prems that(2) by auto
    from less.prems(2) rec len show ?thesis
      unfolding phys_copy_loop_step [OF pos] Let_def n_def [symmetric] cp
      by (auto split: if_splits prod.splits)
  qed
qed

lemma ring_wf_rmem [simp]: "ring_wf (c\<lparr>rmem := m\<rparr>) = ring_wf c"
  unfolding ring_wf_def by simp

lemma scoped_copy_length:
  assumes "KndScopedPhysCopy env c offset len buf isWrite = (s, c', buf')"
    and "copy_bounded env" "unat len \<le> length buf"
  shows "length buf' = length buf"
proof (cases rule: scoped_copy_cases [of env c offset len buf isWrite])
  case (refused s')
  with assms show ?thesis by simp
next
  case (copied s' m b)
  with assms phys_copy_loop_length [OF assms(2) _ copied(2)] show ?thesis by simp
qed

section \<open>Requests\<close>

text \<open>
  What a request may change of the private state of the ring: nothing. The region's bytes, the
  mapping, the capture flag and the redirect target are all it touches.
\<close>

definition same_ring :: "knd_ctx \<Rightarrow> knd_ctx \<Rightarrow> bool" where
  "same_ring c c' \<longleftrightarrow> RingBase c' = RingBase c \<and> RingTotalSize c' = RingTotalSize c
     \<and> RingDataSize c' = RingDataSize c \<and> RingData c' = RingData c \<and> RingMdl c' = RingMdl c
     \<and> Ring c' = Ring c \<and> WritePos c' = WritePos c \<and> NextSequence c' = NextSequence c
     \<and> kpool c' = kpool c \<and> kmdls c' = kmdls c"

lemma same_ring_refl [simp]: "same_ring c c"
  by (simp add: same_ring_def)

lemma same_ring_wf: "same_ring c c' \<Longrightarrow> ring_wf c' = ring_wf c"
  unfolding same_ring_def ring_wf_def by simp

lemma map_ring_same: "KndMapRingToUser env c = (s, out, c') \<Longrightarrow> same_ring c c'"
  unfolding KndMapRingToUser_def Let_def
  by (auto simp: same_ring_def split: if_splits prod.splits)

lemma unmap_ring_same: "KndUnmapRingFromUser env c = (s, c') \<Longrightarrow> same_ring c c'"
  by (auto simp: KndUnmapRingFromUser_def same_ring_def split: if_splits)

lemma set_capture_same: "same_ring c (set_capture v c)"
  by (simp add: set_capture_def same_ring_def Let_def)

lemma scoped_copy_same:
  assumes "KndScopedPhysCopy env c offset len buf isWrite = (s, c', buf')"
  shows "same_ring c c'"
  by (cases rule: scoped_copy_cases [of env c offset len buf isWrite])
    (use assms in \<open>auto simp: same_ring_def\<close>)

lemma device_control_same:
  assumes "device_control env c q = (s, info, c', buf)"
  shows "same_ring c c'"
  using assms unfolding device_control_def Let_def
  by (auto split: if_splits prod.splits
      dest: map_ring_same unmap_ring_same scoped_copy_same intro: set_capture_same
      simp: same_ring_def [of c "c\<lparr>RedirectPort := _, RedirectEnable := _\<rparr>"])


text \<open>The buffer of a request and the count that is handed back to the caller.\<close>

lemma put_at_enc_length:
  "length bs \<le> length buf \<Longrightarrow> length (put_at buf 0 bs) = length buf"
  by (simp add: length_put_at)

lemma enc_lengths [simp]:
  "length (enc_version v) = 8" "length (enc_map_ring w) = 24" "length (enc_stats x) = 56"
  "length (enc_phys_rw y) = 16" "length (enc_redirect_in z) = 8"
  by (simp_all add: enc_version_def enc_map_ring_def enc_stats_def enc_phys_rw_def
      enc_redirect_in_def)

lemma KndMapRingToUser_out:
  "KndMapRingToUser env c = (s, out, c') \<Longrightarrow> NT_SUCCESS s \<longleftrightarrow> out \<noteq> None"
  by (auto simp: KndMapRingToUser_def Let_def split: if_splits prod.splits)

lemma device_control_info:
  assumes "device_control env c q = (s, info, c', buf)"
  shows "info \<le> unat (OutputBufferLength q)" "\<not> NT_SUCCESS s \<Longrightarrow> info = 0"
  using assms unfolding device_control_def Let_def
  by (auto split: if_splits prod.splits)

lemma device_control_buffer:
  assumes "irp_wf q" "copy_bounded env" "device_control env c q = (s, info, c', buf)"
  shows "length buf = length (SystemBuffer q)"
  using assms(1,3) unfolding device_control_def Let_def irp_wf_def
  by (auto simp: put_at_enc_length layout_defs split: if_splits prod.splits option.splits
      dest!: scoped_copy_length [OF _ assms(2)])

lemma scoped_copy_accepted:
  assumes "RingBase c \<noteq> 0" "0 < unat len" "unat len \<le> KND_MAX_PHYS_RW"
    and "unat offset + unat len \<le> unat (RingTotalSize c)"
  shows "KndScopedPhysCopy env c offset len buf isWrite =
     (let (status, m, buf) = phys_copy_loop env isWrite (RingBase c) (RingBase c + offset) 0
              (unat len) (rmem c) buf
        in (status, c\<lparr>rmem := m\<rparr>, buf))"
proof -
  have "offset < RingTotalSize c" "\<not> ucast len > RingTotalSize c - offset"
    using assms by (auto simp: word_less_nat_alt unat_minus_no_wrap)
  then show ?thesis
    using assms by (auto simp: KndScopedPhysCopy_def not_less Let_def)
qed

lemma phys_readsD:
  assumes "phys_reads env base tot" "off < tot"
  shows "MmGetPhysicalAddress env (base + word_of_nat off) \<noteq> 0"
  using assms unfolding phys_reads_def by (metis add.right_neutral less_imp_le_nat)

lemma phys_reads_translated:
  assumes "phys_reads env base tot" "off + n \<le> tot"
  shows "translated env (base + word_of_nat off) n"
  unfolding translated_def
proof (intro allI impI)
  fix i assume "i < n"
  with assms phys_readsD [OF assms(1), of "off + i"]
  show "MmGetPhysicalAddress env (base + word_of_nat off + word_of_nat i) \<noteq> 0"
    by (simp add: add.assoc)
qed

lemma scoped_copy_write:
  assumes "RingBase c \<noteq> 0" "0 < unat len" "unat len \<le> KND_MAX_PHYS_RW"
    and "unat offset + unat len \<le> unat (RingTotalSize c)" "unat len \<le> length buf"
    and "phys_reads env (RingBase c) (unat (RingTotalSize c))"
  shows "KndScopedPhysCopy env c offset len buf True =
     (STATUS_SUCCESS, c\<lparr>rmem := mem_write (rmem c) (unat offset) (take (unat len) buf)\<rparr>, buf)"
proof -
  have "unat offset + unat len < 2 ^ 64"
    using le_less_trans [OF assms(4) unat_u64_lt] by simp
  moreover have "translated env (RingBase c + offset) (unat len)"
    using phys_reads_translated [OF assms(6,4)] by simp
  ultimately show ?thesis
    using assms(5) by (simp add: scoped_copy_accepted [OF assms(1-4)] phys_write_loop)
qed

lemma scoped_copy_read:
  assumes "RingBase c \<noteq> 0" "0 < unat len" "unat len \<le> KND_MAX_PHYS_RW"
    and "unat offset + unat len \<le> unat (RingTotalSize c)" "unat len \<le> length buf"
    and "phys_reads env (RingBase c) (unat (RingTotalSize c))"
  shows "KndScopedPhysCopy env c offset len buf False =
     (STATUS_SUCCESS, c, put_at buf 0 (mem_read (rmem c) (unat offset) (unat len)))"
  using phys_read_loop [OF assms(6), of "unat offset" "unat len" 0 buf "rmem c"] assms(4,5)
  by (simp add: scoped_copy_accepted [OF assms(1-4)])

section \<open>One mapping at a time\<close>

text \<open>The live mappings are the one that the context records, if any.\<close>

definition map_inv :: "knd_ctx \<Rightarrow> bool" where
  "map_inv c \<longleftrightarrow> kmaps c = (if UserVa c = 0 then {} else {(MapProcess c, UserVa c)})
     \<and> (UserVa c \<noteq> 0 \<longrightarrow> RingMdl c \<noteq> 0)"

definition same_mapping :: "knd_ctx \<Rightarrow> knd_ctx \<Rightarrow> bool" where
  "same_mapping c c' \<longleftrightarrow> kmaps c' = kmaps c \<and> UserVa c' = UserVa c \<and> MapProcess c' = MapProcess c
     \<and> RingMdl c' = RingMdl c"

lemma same_mapping_refl [simp]: "same_mapping c c"
  by (simp add: same_mapping_def)

lemma same_mapping_inv: "same_mapping c c' \<Longrightarrow> map_inv c' = map_inv c"
  by (auto simp: same_mapping_def map_inv_def)

lemma map_ring_inv: "KndMapRingToUser env c = (s, out, c') \<Longrightarrow> map_inv c \<Longrightarrow> map_inv c'"
  by (auto simp: KndMapRingToUser_def map_inv_def Let_def split: if_splits prod.splits)

lemma unmap_ring_inv: "KndUnmapRingFromUser env c = (s, c') \<Longrightarrow> map_inv c \<Longrightarrow> map_inv c'"
  by (auto simp: KndUnmapRingFromUser_def map_inv_def split: if_splits)

lemma scoped_copy_mapping:
  "KndScopedPhysCopy env c offset len buf isWrite = (s, c', buf') \<Longrightarrow> same_mapping c c'"
  by (cases rule: scoped_copy_cases [of env c offset len buf isWrite])
    (auto simp: same_mapping_def)

lemma set_capture_mapping: "same_mapping c (set_capture v c)"
  by (simp add: set_capture_def same_mapping_def Let_def)

lemma device_control_map_inv:
  assumes "device_control env c q = (s, info, c', buf)" "map_inv c"
  shows "map_inv c'"
proof -
  have r: "same_mapping c (c\<lparr>RedirectPort := p, RedirectEnable := e\<rparr>)" for p e
    by (simp add: same_mapping_def)
  note same = same_mapping_inv [OF set_capture_mapping] same_mapping_inv [OF r]
  show ?thesis
    using assms unfolding device_control_def Let_def
    by (auto simp: same split: if_splits prod.splits
        dest: map_ring_inv unmap_ring_inv same_mapping_inv [OF scoped_copy_mapping])
qed

text \<open>The first process to ask keeps the ring until it lets go; others are told that it is busy.\<close>

lemma mapping_exclusive:
  assumes "UserVa c \<noteq> 0" "MapProcess c \<noteq> PsGetCurrentProcess env" "RingMdl c \<noteq> 0"
  shows "KndMapRingToUser env c = (STATUS_DEVICE_BUSY, None, c)"
    "KndUnmapRingFromUser env c = (STATUS_SUCCESS, c)"
  using assms by (simp_all add: KndMapRingToUser_def KndUnmapRingFromUser_def)

lemma map_ring_owner:
  assumes "KndMapRingToUser env c = (s, Some out, c')"
  shows "UserVa c' \<noteq> 0" "MapProcess c' = PsGetCurrentProcess env"
    "out = map_ring_out c' (UserVa c')" "RingMdl c' \<noteq> 0" "s = STATUS_SUCCESS"
  using assms
  by (auto simp: KndMapRingToUser_def map_ring_out_def Let_def split: if_splits prod.splits)

lemma map_then_cleanup:
  assumes "KndMapRingToUser env c = (s, Some out, c')" "map_inv c"
  shows "KndDispatchCreateClose env (Some c') IRP_MJ_CLEANUP =
      (STATUS_SUCCESS, 0, Some (c'\<lparr>kmaps := {}, UserVa := 0, MapProcess := 0\<rparr>))"
  using map_ring_owner [OF assms(1)] map_ring_inv [OF assms]
  by (simp add: KndDispatchCreateClose_def KndUnmapRingFromUser_def map_inv_def)

section \<open>A concrete context\<close>

definition blank_ctx :: knd_ctx where
  "blank_ctx = \<lparr>RingBase = 0, RingTotalSize = 0, RingDataSize = 0, RingData = 0, RingMdl = 0,
     Ring = 0, WritePos = 0, UserVa = 0, NextSequence = 0, kpool = {}, kmdls = {}, rmem = (\<lambda>_. 0),
     DeviceObject = 0, MapProcess = 0, CaptureActive = 0, NextFlowId = 0, EngineHandle = 0,
     SublayerAdded = False, CalloutIds = replicate 8 0, NumCallouts = 0, CalloutsRegistered = False,
     RedirectEnable = 0, RedirectPort = 0, RedirectHandle = 0, RedirectHandleCreated = False,
     kmaps = {}\<rparr>"

definition small_ctx :: knd_ctx where
  "small_ctx = (snd (KndRingCreate blank_ctx 0x10000 0x7000 0x9000))\<lparr>CaptureActive := 1\<rparr>"

lemma small_ctx_ok: "ring_ok small_ctx []"
proof -
  have "ring_ok (snd (KndRingCreate blank_ctx 0x10000 0x7000 0x9000)) []"
    by (rule KndRingCreate_ok) simp_all
  then show ?thesis by (auto simp: small_ctx_def ring_ok_def ring_wf_def)
qed

lemma small_ctx_fields [simp]:
  "RingDataSize small_ctx = 0x10000" "WritePos small_ctx = 0" "Ring small_ctx = 0x7000"
  "RingBase small_ctx = 0x7000" "RingTotalSize small_ctx = 0x11000" "CaptureActive small_ctx = 1"
  "UserVa small_ctx = 0" "kmaps small_ctx = {}" "RingMdl small_ctx = 0x9000" "MapProcess small_ctx = 0"
  by (simp_all add: small_ctx_def blank_ctx_def KndRingCreate_def Let_def const_defs)

lemma small_ctx_readPos [simp]: "ld64 (rmem small_ctx) hdr_readPos = 0"
  by (simp add: small_ctx_def KndRingCreate_def Let_def init_header_def mem_simps layout_defs)

definition plain_env :: kernel_env where
  "plain_env = \<lparr>PsGetCurrentProcess = 40, MmMapLockedPages = Mapped 0x20000,
     MmGetPhysicalAddress = (\<lambda>va. va),
     MmCopyMemory = (\<lambda>m pa n. (STATUS_SUCCESS, mem_read m (unat pa - 0x7000) n))\<rparr>"

lemma plain_env_bounded: "copy_bounded plain_env"
  by (simp add: copy_bounded_def plain_env_def)

lemma plain_env_reads: "phys_reads plain_env 0x7000 0x11000"
proof -
  have u: "unat (0x7000 + word_of_nat off :: u64) = 0x7000 + off" if "off < 0x11000" for off
    using that by (subst unat_plus_no_wrap) (simp_all add: unat_of_nat)
  then have "(0x7000 + word_of_nat off :: u64) \<noteq> 0" if "off < 0x11000" for off
    using that by (metis add_is_0 unat_0 zero_neq_numeral)
  with u show ?thesis by (simp add: phys_reads_def plain_env_def)
qed

theorem KndScopedPhysCopy_confined_witness:
  "\<exists>s c' b. KndScopedPhysCopy plain_env small_ctx 0x10FFE 4 [1, 2, 3, 4] True = (s, c', b)
     \<and> (\<forall>i. rmem c' i \<noteq> rmem small_ctx i \<longrightarrow> i < unat (RingTotalSize small_ctx))"
proof -
  obtain s c' b where r: "KndScopedPhysCopy plain_env small_ctx 0x10FFE 4 [1, 2, 3, 4] True = (s, c', b)"
    by (rule prod_cases3)
  from KndScopedPhysCopy_confined [OF r] r show ?thesis by fastforce
qed



text \<open>
  C24. One consumer at a time. Every request, device control or cleanup, keeps the live mappings
  equal to the one the context records; a second process is refused and cannot unmap; and
  cleanup from the process that mapped the ring releases it.
\<close>

theorem mapping_single_owner:
  assumes "map_inv c"
  shows "(\<forall>env q s info c' buf. device_control env c q = (s, info, c', buf) \<longrightarrow> map_inv c')
    \<and> (\<forall>env mj. \<exists>c'. KndDispatchCreateClose env (Some c) mj = (STATUS_SUCCESS, 0, Some c') \<and> map_inv c')
    \<and> (\<forall>env env' s out c'. KndMapRingToUser env c = (s, Some out, c') \<longrightarrow>
         (PsGetCurrentProcess env' \<noteq> PsGetCurrentProcess env \<longrightarrow>
            KndMapRingToUser env' c' = (STATUS_DEVICE_BUSY, None, c')
            \<and> KndUnmapRingFromUser env' c' = (STATUS_SUCCESS, c'))
         \<and> kmaps (snd (KndUnmapRingFromUser env c')) = {})"
proof (intro conjI allI impI)
  show "map_inv c'" if "device_control env c q = (s, info, c', buf)" for env q s info c' buf
    using device_control_map_inv [OF that assms] .
  show "\<exists>c'. KndDispatchCreateClose env (Some c) mj = (STATUS_SUCCESS, 0, Some c') \<and> map_inv c'" for env mj
    using unmap_ring_inv [of env c STATUS_SUCCESS] assms
    by (auto simp: KndDispatchCreateClose_def KndUnmapRingFromUser_def split: if_splits)
  fix env env' s out c' assume map: "KndMapRingToUser env c = (s, Some out, c')"
  note own = map_ring_owner [OF map]
  show "KndMapRingToUser env' c' = (STATUS_DEVICE_BUSY, None, c')"
    "KndUnmapRingFromUser env' c' = (STATUS_SUCCESS, c')"
    if "PsGetCurrentProcess env' \<noteq> PsGetCurrentProcess env"
    using mapping_exclusive [of c' env'] own that by auto
  show "kmaps (snd (KndUnmapRingFromUser env c')) = {}"
    using own map_ring_inv [OF map assms] by (simp add: KndUnmapRingFromUser_def map_inv_def)
qed

theorem mapping_single_owner_witness:
  "let c' = snd (snd (KndMapRingToUser plain_env small_ctx))
   in kmaps c' = {(40, 0x20000)}
      \<and> KndMapRingToUser (plain_env\<lparr>PsGetCurrentProcess := 41\<rparr>) c' = (STATUS_DEVICE_BUSY, None, c')
      \<and> kmaps (snd (KndUnmapRingFromUser plain_env c')) = {}"
proof -
  have inv: "map_inv small_ctx" by (simp add: map_inv_def)
  obtain out c' where r: "KndMapRingToUser plain_env small_ctx = (STATUS_SUCCESS, Some out, c')"
    and m: "kmaps c' = {(40, 0x20000)}"
    by (simp add: KndMapRingToUser_def plain_env_def)
  with mapping_single_owner [OF inv] show ?thesis
    by (simp add: plain_env_def)
qed

end
