(* ===== verification/Knd_Wfp.thy ===== *)
theory Knd_Wfp
  imports Knd_Ioctl "HOL-Library.Sublist"
begin

text \<open>
  The capture side of the driver (\<^verbatim>\<open>src/driver/wfp.c\<close>): the classify callouts for established
  flows, stream data and connect redirection, the flow-delete notification, and the
  registration and removal of the callouts. The values that the filtering platform hands to
  a callout are records of the fields the code reads; its answers (statuses, ids, handles, the
  copied stream bytes, the clock) are arguments. The platform objects that are live are
  sets in \<open>knd_sys\<close>, next to the driver's globals; \<open>orphans\<close> are ring allocations whose
  context was freed before they were. The scratch buffer of a stream indication is allocated and
  freed within the callout, so only whether it was granted is an argument.
\<close>

section \<open>Globals and platform objects\<close>

datatype stream_layer = STREAM_V4 | STREAM_V6

record knd_sys =
  g_Knd :: "knd_ctx option"
  g_streamIdV4 :: u32
  g_streamIdV6 :: u32
  flow_contexts :: "(u64 \<times> stream_layer \<times> u32 \<times> u64) list"
  engines :: "u64 set"
  callouts :: "u32 set"
  redirects :: "u64 set"
  sys_devices :: "u64 set"
  symlinked :: bool
  ctx_pool :: "u64 set"
  orphans :: "u64 set"

datatype wfp_action = ACTION_UNSET | FWP_ACTION_CONTINUE | FWP_ACTION_PERMIT | FWP_ACTION_BLOCK

record classify_out =
  co_writable :: bool
  co_action :: wfp_action

definition set_action :: "wfp_action \<Rightarrow> classify_out \<Rightarrow> classify_out" where
  "set_action a out = (if co_writable out then out\<lparr>co_action := a\<rparr> else out)"

section \<open>Connection payloads\<close>

record flow_values =
  fv_isV4 :: bool
  fv_local4 :: u32
  fv_remote4 :: u32
  fv_local6 :: "bytes option"
  fv_remote6 :: "bytes option"
  fv_localPort :: u16
  fv_remotePort :: u16
  fv_protocol :: u8
  fv_inbound :: bool

record flow_meta =
  fm_processId :: "u64 option"
  fm_processPath :: "bytes option"
  fm_flowHandle :: "u64 option"

definition zero_conn :: knd_conn_payload where
  "zero_conn = \<lparr>cp_flowId = 0, cp_processId = 0, cp_protocol = 0, cp_ipVersion = 0,
     cp_direction = 0, cp_reserved0 = 0, cp_localPort = 0, cp_remotePort = 0,
     cp_localAddr = replicate 16 0, cp_remoteAddr = replicate 16 0, cp_bytesIn = 0,
     cp_bytesOut = 0, cp_processPathChars = 0, cp_reserved1 = 0, cp_reserved2 = 0,
     cp_processPath = replicate KND_PROCPATH_CHARS 0\<rparr>"

text \<open>Network-order octets of a host-order address.\<close>

definition octets :: "u32 \<Rightarrow> bytes" where
  "octets a = [ucast (drop_bit 24 a), ucast (drop_bit 16 a), ucast (drop_bit 8 a), ucast a]"

definition put_prefix :: "bytes \<Rightarrow> bytes \<Rightarrow> bytes" where
  "put_prefix bs old = bs @ drop (length bs) old"

definition KndFillProcessInfo :: "flow_meta \<Rightarrow> knd_conn_payload \<Rightarrow> knd_conn_payload" where
  "KndFillProcessInfo meta p =
     (let p = (case fm_processId meta of Some pid \<Rightarrow> p\<lparr>cp_processId := pid\<rparr> | None \<Rightarrow> p)
      in case fm_processPath meta of
           Some data \<Rightarrow>
             let chars = length data div 2;
                 chars = (if chars > KND_PROCPATH_CHARS - 1 then KND_PROCPATH_CHARS - 1 else chars)
             in p\<lparr>cp_processPath := get_wchars data 0 chars @ [0] @ drop (chars + 1) (cp_processPath p),
                  cp_processPathChars := word_of_nat chars\<rparr>
         | None \<Rightarrow> p)"

definition flow_payload :: "flow_values \<Rightarrow> knd_conn_payload" where
  "flow_payload fv =
     (if fv_isV4 fv
      then zero_conn\<lparr>cp_ipVersion := KND_IPV4,
             cp_localAddr := put_prefix (octets (fv_local4 fv)) (replicate 16 0),
             cp_remoteAddr := put_prefix (octets (fv_remote4 fv)) (replicate 16 0),
             cp_localPort := fv_localPort fv, cp_remotePort := fv_remotePort fv,
             cp_protocol := fv_protocol fv,
             cp_direction := if fv_inbound fv then KND_DIR_INBOUND else KND_DIR_OUTBOUND\<rparr>
      else zero_conn\<lparr>cp_ipVersion := KND_IPV6,
             cp_localAddr := (case fv_local6 fv of Some a \<Rightarrow> take 16 a | None \<Rightarrow> replicate 16 0),
             cp_remoteAddr := (case fv_remote6 fv of Some a \<Rightarrow> take 16 a | None \<Rightarrow> replicate 16 0),
             cp_localPort := fv_localPort fv, cp_remotePort := fv_remotePort fv,
             cp_protocol := fv_protocol fv,
             cp_direction := if fv_inbound fv then KND_DIR_INBOUND else KND_DIR_OUTBOUND\<rparr>)"

section \<open>Classify callouts\<close>

definition add_activeFlows :: "u32 \<Rightarrow> knd_ctx \<Rightarrow> knd_ctx" where
  "add_activeFlows d c = c\<lparr>rmem := st32 (rmem c) hdr_activeFlows (ld32 (rmem c) hdr_activeFlows + d)\<rparr>"

definition write_conn :: "knd_ctx \<Rightarrow> u16 \<Rightarrow> knd_conn_payload \<Rightarrow> u64 \<Rightarrow> bool \<times> knd_ctx" where
  "write_conn c ty p ts =
     KndRingWrite c ty 0 (Some (enc_conn p)) (word_of_nat sizeof_CONN_PAYLOAD) None 0 ts"

definition KndClassifyFlow ::
  "flow_values \<Rightarrow> flow_meta \<Rightarrow> u64 \<Rightarrow> classify_out \<Rightarrow> knd_sys \<Rightarrow> classify_out \<times> knd_sys" where
  "KndClassifyFlow fv meta ts out g =
     (let out = set_action FWP_ACTION_CONTINUE out
      in case g_Knd g of
           None \<Rightarrow> (out, g)
         | Some c \<Rightarrow>
             if CaptureActive c = 0 then (out, g)
             else
               let p = flow_payload fv;
                   (flowHandle, p, c) = (case fm_flowHandle meta of
                      Some fh \<Rightarrow> (fh, p\<lparr>cp_flowId := fh\<rparr>, c)
                    | None \<Rightarrow> (case KndNextFlowId c of (fid, c) \<Rightarrow> (0, p\<lparr>cp_flowId := fid\<rparr>, c)));
                   p = KndFillProcessInfo meta p;
                   (ok, c) = write_conn c KND_REC_CONN_OPEN p ts;
                   c = (if ok then add_activeFlows 1 c else c);
                   sid = (if fv_isV4 fv then g_streamIdV4 g else g_streamIdV6 g);
                   streamLayer = (if fv_isV4 fv then STREAM_V4 else STREAM_V6)
               in (out, g\<lparr>g_Knd := Some c,
                     flow_contexts := (if flowHandle \<noteq> 0 \<and> sid \<noteq> 0
                       then (flowHandle, streamLayer, sid, cp_flowId p) # flow_contexts g
                       else flow_contexts g)\<rparr>))"

definition KND_STREAM_COPY_MAX :: nat where [const_defs]: "KND_STREAM_COPY_MAX = 256 * 1024"

datatype stream_action = ACTION_INITIAL | STREAM_ACTION_NONE

record stream_data =
  sd_bytes :: bytes
  sd_receive :: bool

record stream_packet =
  sp_streamData :: "stream_data option"
  sp_streamAction :: stream_action
  sp_countBytesEnforced :: nat

text \<open>The records for the copied bytes, in order, each at most one chunk.\<close>

function emit_chunks ::
  "knd_ctx \<Rightarrow> u64 \<Rightarrow> u8 \<Rightarrow> u16 \<Rightarrow> bytes \<Rightarrow> nat \<Rightarrow> (nat \<Rightarrow> u64) \<Rightarrow> knd_ctx" where
  "emit_chunks c flowId direction recFlags scratch off clock =
     (if off < length scratch
      then let chunk = length scratch - off;
               chunk = (if chunk > KND_MAX_DATA_CHUNK then KND_MAX_DATA_CHUNK else chunk);
               dp = \<lparr>dp_flowId = flowId, dp_direction = direction, dp_dataKind = KND_DATA_CIPHERTEXT,
                     dp_reserved0 = 0, dp_dataLength = word_of_nat chunk\<rparr>;
               (_, c) = KndRingWrite c KND_REC_DATA recFlags (Some (enc_data dp))
                  (word_of_nat sizeof_DATA_PAYLOAD) (Some (take chunk (drop off scratch)))
                  (word_of_nat chunk) (clock off)
           in emit_chunks c flowId direction recFlags scratch (off + chunk) clock
      else c)"
  by pat_completeness auto
termination
  by (relation "measure (\<lambda>(_, _, _, _, scratch, off, _). length scratch - off)")
    (auto simp: const_defs Let_def)

declare emit_chunks.simps [simp del]

definition KndClassifyStream ::
  "(bytes \<Rightarrow> nat \<Rightarrow> bytes) \<Rightarrow> u64 \<Rightarrow> (nat \<Rightarrow> u64) \<Rightarrow> u64 option \<Rightarrow> u64 \<Rightarrow> stream_packet option \<Rightarrow>
     classify_out \<Rightarrow> knd_sys \<Rightarrow> stream_packet option \<times> classify_out \<times> knd_sys" where
  "KndClassifyStream copyStream pool clock metaHandle flowContext pkt out g =
     (case pkt of
        None \<Rightarrow> (pkt, set_action FWP_ACTION_PERMIT out, g)
      | Some pk \<Rightarrow>
          (case sp_streamData pk of
             None \<Rightarrow> (pkt, set_action FWP_ACTION_PERMIT out, g)
           | Some sd \<Rightarrow>
               let pk = pk\<lparr>sp_streamAction := STREAM_ACTION_NONE,
                           sp_countBytesEnforced := length (sd_bytes sd)\<rparr>;
                   out = set_action FWP_ACTION_PERMIT out
               in case g_Knd g of
                    None \<Rightarrow> (Some pk, out, g)
                  | Some c \<Rightarrow>
                      if CaptureActive c = 0 \<or> length (sd_bytes sd) = 0 then (Some pk, out, g)
                      else
                        let direction = (if sd_receive sd then KND_DIR_INBOUND else KND_DIR_OUTBOUND);
                            flowId = (if flowContext \<noteq> 0 then flowContext
                                      else case metaHandle of Some h \<Rightarrow> h | None \<Rightarrow> 0);
                            (copyLen, recFlags) =
                              (if length (sd_bytes sd) > KND_STREAM_COPY_MAX
                               then (KND_STREAM_COPY_MAX, 0x0001)
                               else (length (sd_bytes sd), 0))
                        in if pool = 0 then (Some pk, out, g)
                           else (Some pk, out, g\<lparr>g_Knd := Some (emit_chunks c flowId direction recFlags
                                   (copyStream (sd_bytes sd) copyLen) 0 clock)\<rparr>)))"

section \<open>Connect redirection\<close>

definition KND_AF_INET :: u16 where [const_defs]: "KND_AF_INET = 2"
definition KND_INADDR_LOOPBACK :: u32 where [const_defs]: "KND_INADDR_LOOPBACK = 0x7f000001"

record redirect_values =
  rv_protocol :: u8
  rv_remotePort :: u16
  rv_remote4 :: u32

record connect_request =
  cr_remoteAddressAndPort :: bytes
  cr_localRedirectHandle :: u64
  cr_localRedirectContext :: "bytes option"
  cr_localRedirectContextSize :: nat

definition net16 :: "u16 \<Rightarrow> bytes" where
  "net16 v = [ucast (drop_bit 8 v), ucast v]"

definition redirect_ctx :: "redirect_values \<Rightarrow> knd_redirect_ctx" where
  "redirect_ctx v = \<lparr>rx_ipVersion = KND_IPV4, rx_reserved = 0, rx_origPort = rv_remotePort v,
     rx_origAddr = put_prefix (octets (rv_remote4 v)) (replicate 16 0)\<rparr>"

definition redirect_request :: "knd_ctx \<Rightarrow> redirect_values \<Rightarrow> connect_request \<Rightarrow> connect_request" where
  "redirect_request c v req =
     req\<lparr>cr_remoteAddressAndPort := put_prefix
            (put16 KND_AF_INET @ net16 (RedirectPort c) @ octets KND_INADDR_LOOPBACK)
            (replicate (length (cr_remoteAddressAndPort req)) 0),
         cr_localRedirectHandle := RedirectHandle c,
         cr_localRedirectContext := Some (enc_redirect_ctx (redirect_ctx v)),
         cr_localRedirectContextSize := sizeof_REDIRECT_CTX\<rparr>"

text \<open>
  The platform's part: the classify handle, the writable request (NULL on failure) and the
  pool address of the redirect context. The result has the request as applied, if it was, and the
  calls that acquire and release the classify handle.
\<close>

datatype handle_call = Acquire | Release

definition KndClassifyConnectRedirect ::
  "redirect_values \<Rightarrow> ntstatus \<Rightarrow> ntstatus \<Rightarrow> connect_request option \<Rightarrow> u64 \<Rightarrow> classify_out \<Rightarrow> knd_sys \<Rightarrow>
     connect_request option \<times> handle_call list \<times> classify_out" where
  "KndClassifyConnectRedirect v acquired writable req pool out g =
     (if \<not> co_writable out then (None, [], out)
      else
        let out = out\<lparr>co_action := FWP_ACTION_PERMIT\<rparr>
        in case g_Knd g of
             None \<Rightarrow> (None, [], out)
           | Some c \<Rightarrow>
               if RedirectEnable c = 0 \<or> \<not> RedirectHandleCreated c then (None, [], out)
               else if rv_protocol v \<noteq> KND_PROTO_TCP then (None, [], out)
               else if rv_remotePort v \<noteq> 443 \<and> rv_remotePort v \<noteq> 80 then (None, [], out)
               else if rv_remotePort v = RedirectPort c then (None, [], out)
               else if \<not> NT_SUCCESS acquired then (None, [], out)
               else case req of
                      None \<Rightarrow> (None, [Acquire, Release], out)
                    | Some rq \<Rightarrow>
                        if \<not> NT_SUCCESS writable then (None, [Acquire, Release], out)
                        else (Some (if pool \<noteq> 0 then redirect_request c v rq else rq),
                              [Acquire, Release], out))"

section \<open>Flow deletion\<close>

definition KndFlowDelete :: "u64 \<Rightarrow> u64 \<Rightarrow> knd_sys \<Rightarrow> knd_sys" where
  "KndFlowDelete flowContext ts g =
     (case g_Knd g of
        None \<Rightarrow> g
      | Some c \<Rightarrow>
          if CaptureActive c = 0 then g
          else let (ok, c) = write_conn c KND_REC_CONN_CLOSE (zero_conn\<lparr>cp_flowId := flowContext\<rparr>) ts
               in g\<lparr>g_Knd := Some (if ok then add_activeFlows (- 1) c else c)\<rparr>)"

definition KndNotifyFn :: ntstatus where
  "KndNotifyFn = STATUS_SUCCESS"

section \<open>Registration\<close>

datatype callout_kind = CO_FLOW_V4 | CO_FLOW_V6 | CO_STREAM_V4 | CO_STREAM_V6 | CO_REDIRECT_V4

record callout_answers =
  ca_register :: ntstatus
  ca_id :: u32
  ca_add :: ntstatus
  ca_filter :: ntstatus

text \<open>The caller passes the address of a global for the stream callouts only.\<close>

definition out_callout_id :: "callout_kind \<Rightarrow> u32 \<Rightarrow> knd_sys \<Rightarrow> knd_sys" where
  "out_callout_id k cid g =
     (case k of
        CO_STREAM_V4 \<Rightarrow> g\<lparr>g_streamIdV4 := cid\<rparr>
      | CO_STREAM_V6 \<Rightarrow> g\<lparr>g_streamIdV6 := cid\<rparr>
      | _ \<Rightarrow> g)"

definition KndRegisterCallout ::
  "callout_answers \<Rightarrow> callout_kind \<Rightarrow> knd_ctx \<times> knd_sys \<Rightarrow> ntstatus \<times> knd_ctx \<times> knd_sys" where
  "KndRegisterCallout a k cg =
     (let (c, g) = cg
      in if \<not> NT_SUCCESS (ca_register a) then (ca_register a, c, g)
      else
        let g = out_callout_id k (ca_id a) (g\<lparr>callouts := insert (ca_id a) (callouts g)\<rparr>);
            c = (if NumCallouts c < KND_MAX_CALLOUTS
                 then c\<lparr>CalloutIds := (CalloutIds c)[NumCallouts c := ca_id a],
                        NumCallouts := NumCallouts c + 1\<rparr>
                 else c)
        in if \<not> NT_SUCCESS (ca_add a) then (ca_add a, c, g) else (ca_filter a, c, g))"

primrec register_all ::
  "(callout_kind \<Rightarrow> callout_answers) \<Rightarrow> callout_kind list \<Rightarrow> knd_ctx \<times> knd_sys \<Rightarrow>
     ntstatus \<times> knd_ctx \<times> knd_sys" where
  "register_all a [] cg = (STATUS_SUCCESS, cg)"
| "register_all a (k # ks) cg =
     (case KndRegisterCallout (a k) k cg of
        (status, cg) \<Rightarrow> if \<not> NT_SUCCESS status then (status, cg) else register_all a ks cg)"

section \<open>Stop\<close>

function unregister_loop :: "(u32 \<Rightarrow> nat \<Rightarrow> ntstatus) \<Rightarrow> u32 \<Rightarrow> nat \<Rightarrow> ntstatus" where
  "unregister_loop unreg cid tries =
     (let s = unreg cid tries
      in if s = STATUS_DEVICE_BUSY \<and> tries + 1 < 250 then unregister_loop unreg cid (tries + 1) else s)"
  by pat_completeness auto
termination
  by (relation "measure (\<lambda>(_, _, tries). 250 - tries)") auto

declare unregister_loop.simps [simp del]

definition unregister_one ::
  "(u32 \<Rightarrow> nat \<Rightarrow> ntstatus) \<Rightarrow> u32 set \<Rightarrow> u32 \<Rightarrow> u32 set" where
  "unregister_one unreg live cid =
     (if NT_SUCCESS (unregister_loop unreg cid 0) then live - {cid} else live)"

definition KndWfpStop ::
  "(u32 \<Rightarrow> nat \<Rightarrow> ntstatus) \<Rightarrow> knd_ctx \<times> knd_sys \<Rightarrow> knd_ctx \<times> knd_sys" where
  "KndWfpStop unreg cg =
     (let (c, g) = cg;
          (c, g) = (if EngineHandle c \<noteq> 0
                    then (c\<lparr>EngineHandle := 0\<rparr>, g\<lparr>engines := engines g - {EngineHandle c}\<rparr>)
                    else (c, g));
          g = g\<lparr>callouts := foldl (unregister_one unreg) (callouts g)
                  (take (NumCallouts c) (CalloutIds c))\<rparr>;
          c = c\<lparr>NumCallouts := 0\<rparr>;
          g = g\<lparr>g_streamIdV4 := 0, g_streamIdV6 := 0\<rparr>;
          (c, g) = (if RedirectHandleCreated c
                    then (c\<lparr>RedirectHandleCreated := False\<rparr>,
                          g\<lparr>redirects := redirects g - {RedirectHandle c}\<rparr>)
                    else (c, g))
      in (c\<lparr>SublayerAdded := False, CalloutsRegistered := False\<rparr>, g))"

section \<open>Start\<close>

record wfp_answers =
  wa_engine :: "ntstatus \<times> u64"
  wa_redirect :: "ntstatus \<times> u64"
  wa_begin :: ntstatus
  wa_sublayer :: ntstatus
  wa_callout :: "callout_kind \<Rightarrow> callout_answers"
  wa_commit :: ntstatus
  wa_unregister :: "u32 \<Rightarrow> nat \<Rightarrow> ntstatus"

definition wfp_start_body :: "wfp_answers \<Rightarrow> knd_ctx \<times> knd_sys \<Rightarrow> ntstatus \<times> knd_ctx \<times> knd_sys" where
  "wfp_start_body a cg =
     (if \<not> NT_SUCCESS (wa_begin a) then (wa_begin a, cg)
      else if \<not> NT_SUCCESS (wa_sublayer a) then (wa_sublayer a, cg)
      else
        let (c, g) = cg;
            (status, c, g) = register_all (wa_callout a)
              [CO_FLOW_V4, CO_FLOW_V6, CO_STREAM_V4, CO_STREAM_V6, CO_REDIRECT_V4]
              (c\<lparr>SublayerAdded := True\<rparr>, g)
        in if \<not> NT_SUCCESS status then (status, c, g)
           else if \<not> NT_SUCCESS (wa_commit a) then (wa_commit a, c, g)
           else (STATUS_SUCCESS, c\<lparr>CalloutsRegistered := True\<rparr>, g))"

definition KndWfpStart :: "wfp_answers \<Rightarrow> knd_ctx \<times> knd_sys \<Rightarrow> ntstatus \<times> knd_ctx \<times> knd_sys" where
  "KndWfpStart a cg =
     (let (c, g) = cg; (opened, engine) = wa_engine a; (created, handle) = wa_redirect a
      in if \<not> NT_SUCCESS opened then (opened, c, g)
      else
        let c = c\<lparr>EngineHandle := engine\<rparr>;
            g = g\<lparr>engines := insert engine (engines g)\<rparr>;
            (c, g) = (if NT_SUCCESS created
                      then (c\<lparr>RedirectHandle := handle, RedirectHandleCreated := True\<rparr>,
                            g\<lparr>redirects := insert handle (redirects g)\<rparr>)
                      else (c, g));
            (status, c, g) = wfp_start_body a (c, g)
        in if NT_SUCCESS status then (STATUS_SUCCESS, c, g)
           else (status, KndWfpStop (wa_unregister a) (c, g)))"

section \<open>Captured stream data\<close>

text \<open>The bytes cut into pieces of at most one chunk: the reference for the emitting loop.\<close>

function data_chunks :: "bytes \<Rightarrow> bytes list" where
  "data_chunks bs = (if bs = [] then []
     else take KND_MAX_DATA_CHUNK bs # data_chunks (drop KND_MAX_DATA_CHUNK bs))"
  by pat_completeness auto
termination
  by (relation "measure length") (auto simp: const_defs)

declare data_chunks.simps [simp del]

lemma concat_data_chunks: "concat (data_chunks bs) = bs"
proof (induction bs rule: data_chunks.induct)
  case (1 bs)
  then show ?case by (subst data_chunks.simps) auto
qed

lemma length_data_chunks: "ch \<in> set (data_chunks bs) \<Longrightarrow> 0 < length ch \<and> length ch \<le> KND_MAX_DATA_CHUNK"
proof (induction bs rule: data_chunks.induct)
  case (1 bs)
  show ?case
  proof (cases "bs = []")
    case True
    with 1 show ?thesis by (simp add: data_chunks.simps)
  next
    case False
    then have "ch = take KND_MAX_DATA_CHUNK bs \<or> ch \<in> set (data_chunks (drop KND_MAX_DATA_CHUNK bs))"
      using 1(2) by (simp add: data_chunks.simps [of bs])
    then show ?thesis
      using 1(1) False by (auto simp: const_defs)
  qed
qed

lemma length_data_chunks_le: "length (data_chunks bs) \<le> length bs"
proof (induction bs rule: data_chunks.induct)
  case (1 bs)
  show ?case
  proof (cases "bs = []")
    case False
    with 1 have "length (data_chunks (drop KND_MAX_DATA_CHUNK bs)) \<le> length bs - KND_MAX_DATA_CHUNK" by simp
    moreover have "0 < length bs" "0 < KND_MAX_DATA_CHUNK" using False by (simp_all add: const_defs)
    moreover have "length (data_chunks bs) = Suc (length (data_chunks (drop KND_MAX_DATA_CHUNK bs)))"
      using False by (simp add: data_chunks.simps [of bs])
    ultimately show ?thesis by linarith
  qed (simp add: data_chunks.simps)
qed

lemma subseq_map_inv: "subseq ys (map f xs) \<Longrightarrow> \<exists>zs. subseq zs xs \<and> ys = map f zs"
proof (induction xs arbitrary: ys)
  case (Cons x xs)
  show ?case
  proof (cases "subseq ys (map f xs)")
    case True
    then obtain zs where "subseq zs xs" "ys = map f zs" using Cons.IH by blast
    then show ?thesis by (intro exI [of _ zs]) auto
  next
    case False
    then obtain ys' where ys: "ys = f x # ys'" "subseq ys' (map f xs)"
      using Cons.prems by (auto elim: list_emb.cases)
    with Cons.IH obtain zs where "subseq zs xs" "ys' = map f zs" by blast
    with ys show ?thesis by (intro exI [of _ "x # zs"]) simp
  qed
qed auto

definition chunk_body :: "u64 \<Rightarrow> u8 \<Rightarrow> bytes \<Rightarrow> bytes" where
  "chunk_body flowId direction ch = enc_data \<lparr>dp_flowId = flowId, dp_direction = direction,
     dp_dataKind = KND_DATA_CIPHERTEXT, dp_reserved0 = 0, dp_dataLength = word_of_nat (length ch)\<rparr> @ ch"

definition write_chunk :: "knd_ctx \<Rightarrow> u64 \<Rightarrow> u8 \<Rightarrow> u16 \<Rightarrow> bytes \<Rightarrow> u64 \<Rightarrow> bool \<times> knd_ctx" where
  "write_chunk c flowId direction recFlags ch ts =
     KndRingWrite c KND_REC_DATA recFlags
       (Some (enc_data \<lparr>dp_flowId = flowId, dp_direction = direction, dp_dataKind = KND_DATA_CIPHERTEXT,
          dp_reserved0 = 0, dp_dataLength = word_of_nat (length ch)\<rparr>))
       (word_of_nat sizeof_DATA_PAYLOAD) (Some ch) (word_of_nat (length ch)) ts"

lemma emit_chunks_step:
  assumes "off < length scratch"
  defines "ch \<equiv> take KND_MAX_DATA_CHUNK (drop off scratch)"
  shows "emit_chunks c flowId direction recFlags scratch off clock =
     emit_chunks (snd (write_chunk c flowId direction recFlags ch (clock off)))
       flowId direction recFlags scratch (off + length ch) clock"
proof -
  define n where "n = (if length scratch - off > KND_MAX_DATA_CHUNK then KND_MAX_DATA_CHUNK else length scratch - off)"
  have ch: "take n (drop off scratch) = ch" "length ch = n"
    by (auto simp: ch_def n_def)
  show ?thesis
    using assms(1) by (subst emit_chunks.simps)
      (simp add: Let_def write_chunk_def case_prod_beta ch flip: n_def)
qed

lemma emit_chunks_done: "\<not> off < length scratch \<Longrightarrow>
    emit_chunks c flowId direction recFlags scratch off clock = c"
  by (subst emit_chunks.simps) simp

lemma length_enc_data [simp]: "length (enc_data dp) = 16"
  by (simp add: enc_data_def)

lemma write_chunk_args:
  assumes "length ch \<le> KND_MAX_DATA_CHUNK"
  shows "write_args (Some (enc_data dp)) (word_of_nat sizeof_DATA_PAYLOAD) (Some ch) (word_of_nat (length ch))"
  using assms by (simp add: write_args_def opt_bytes_def unat_of_nat const_defs layout_defs)

lemma write_chunk_appended:
  assumes "ring_ok c rs" "rpos c + dsize c < 2 ^ 64" "length ch \<le> KND_MAX_DATA_CHUNK"
  shows "appended c rs KND_REC_DATA recFlags (chunk_body flowId direction ch)
           (write_chunk c flowId direction recFlags ch ts)"
proof -
  have "KND_REC_DATA \<noteq> KND_REC_WRAP" by (simp add: const_defs)
  from KndRingWrite_appended [OF assms(1) write_chunk_args [OF assms(3)] assms(2) this]
  show ?thesis by (simp add: write_chunk_def chunk_body_def opt_bytes_def)
qed

text \<open>
  What the loop leaves in the ring: new records for a subsequence of the chunks, in order, and
  every other chunk counted as dropped.
\<close>

definition emitted ::
  "knd_ctx \<Rightarrow> bytes list \<Rightarrow> u16 \<Rightarrow> bytes list \<Rightarrow> knd_ctx \<Rightarrow> bool" where
  "emitted c rs fl bodies c' \<longleftrightarrow>
     (\<exists>rs' new kept. ring_ok c' rs' \<and> visible rs' = visible rs @ new
        \<and> subseq kept bodies \<and> list_all2 (is_record KND_REC_DATA fl) kept new
        \<and> counter hdr_droppedRecords c' = counter hdr_droppedRecords c + of_nat (length bodies - length kept)
        \<and> counter hdr_totalRecords c' = counter hdr_totalRecords c + of_nat (length kept))
     \<and> rpos c' = rpos c \<and> RingDataSize c' = RingDataSize c"

lemma emitted_Nil: "ring_ok c rs \<Longrightarrow> emitted c rs fl [] c"
  unfolding emitted_def by (intro conjI exI [of _ rs] exI [of _ "[]"]) simp_all

lemma emitted_Cons:
  assumes "appended c rs KND_REC_DATA fl body (ok, c1)"
    and rest: "\<And>rs1. ring_ok c1 rs1 \<Longrightarrow> emitted c1 rs1 fl bodies c'"
  shows "emitted c rs fl (body # bodies) c'"
proof -
  from assms(1) obtain rs1 r where s1: "ring_ok c1 rs1"
      "if ok then is_record KND_REC_DATA fl body r \<and> visible rs1 = visible rs @ [r] else rs1 = rs"
      "counter hdr_totalRecords c1 = counter hdr_totalRecords c + of_bool ok"
      "counter hdr_droppedRecords c1 = counter hdr_droppedRecords c + of_bool (\<not> ok)"
      "rpos c1 = rpos c" "RingDataSize c1 = RingDataSize c"
    by (auto simp: appended_def)
  from rest [OF s1(1)] obtain rs' new kept where s2: "ring_ok c' rs'" "visible rs' = visible rs1 @ new"
      "subseq kept bodies" "list_all2 (is_record KND_REC_DATA fl) kept new"
      "counter hdr_droppedRecords c' = counter hdr_droppedRecords c1 + of_nat (length bodies - length kept)"
      "counter hdr_totalRecords c' = counter hdr_totalRecords c1 + of_nat (length kept)"
      "rpos c' = rpos c1" "RingDataSize c' = RingDataSize c1"
    by (auto simp: emitted_def)
  have len: "length kept \<le> length bodies" using s2(3) by (rule list_emb_length)
  show ?thesis
  proof (cases ok)
    case True
    then show ?thesis
      unfolding emitted_def using s1 s2
      by (intro conjI exI [of _ rs'] exI [of _ "r # new"] exI [of _ "body # kept"]) auto
  next
    case False
    then show ?thesis
      unfolding emitted_def using s1 s2 len
      by (intro conjI exI [of _ rs'] exI [of _ new] exI [of _ kept])
        (auto simp: Suc_diff_le)
  qed
qed

lemma emit_chunks_emitted:
  assumes "ring_ok c rs" "rpos c + dsize c < 2 ^ 64"
  shows "emitted c rs fl (map (chunk_body flowId direction) (data_chunks (drop off scratch)))
           (emit_chunks c flowId direction fl scratch off clock)"
  using assms
proof (induction "length scratch - off" arbitrary: c rs off rule: less_induct)
  case less
  show ?case
  proof (cases "off < length scratch")
    case False
    then show ?thesis
      using less.prems by (simp add: emit_chunks_done data_chunks.simps emitted_Nil)
  next
    case True
    define ch where "ch = take KND_MAX_DATA_CHUNK (drop off scratch)"
    obtain ok c1 where w: "write_chunk c flowId direction fl ch (clock off) = (ok, c1)"
      by (cases "write_chunk c flowId direction fl ch (clock off)")
    have ch: "length ch \<le> KND_MAX_DATA_CHUNK" "0 < length ch"
      using True by (auto simp: ch_def const_defs)
    have ap: "appended c rs KND_REC_DATA fl (chunk_body flowId direction ch) (ok, c1)"
      using write_chunk_appended [OF less.prems ch(1), of fl flowId direction "clock off"] by (simp add: w)
    have "drop KND_MAX_DATA_CHUNK (drop off scratch) = drop (off + length ch) scratch"
      by (auto simp: ch_def min_def add.commute)
    then have chunks: "data_chunks (drop off scratch) = ch # data_chunks (drop (off + length ch) scratch)"
      using True by (subst data_chunks.simps) (simp add: ch_def)
    have shorter: "length scratch - (off + length ch) < length scratch - off"
      using True ch(2) by linarith
    have "rpos c1 = rpos c" "RingDataSize c1 = RingDataSize c"
      using ap by (auto simp: appended_def)
    then have "emitted c1 rs1 fl (map (chunk_body flowId direction) (data_chunks (drop (off + length ch) scratch)))
        (emit_chunks c1 flowId direction fl scratch (off + length ch) clock)" if "ring_ok c1 rs1" for rs1
      using less.hyps [OF shorter that] less.prems by simp
    then show ?thesis
      using emitted_Cons [OF ap] w by (simp add: chunks emit_chunks_step [OF True] flip: ch_def)
  qed
qed


lemma stream_emits:
  assumes "g_Knd g = Some c" "CaptureActive c \<noteq> 0" "ring_ok c rs" "rpos c + dsize c < 2 ^ 64"
    and "sp_streamData pk = Some sd" "sd_bytes sd \<noteq> []" "pool \<noteq> 0" "flowContext \<noteq> 0"
    and copy: "\<And>bs n. copyStream bs n = take n bs"
  shows "\<exists>c'. g_Knd (snd (snd (KndClassifyStream copyStream pool clock metaHandle flowContext
              (Some pk) out g))) = Some c'
     \<and> emitted c rs (if length (sd_bytes sd) > KND_STREAM_COPY_MAX then 1 else 0)
         (map (chunk_body flowContext (if sd_receive sd then KND_DIR_INBOUND else KND_DIR_OUTBOUND))
           (data_chunks (take KND_STREAM_COPY_MAX (sd_bytes sd)))) c'"
proof -
  have "take (length (sd_bytes sd)) (sd_bytes sd) = take KND_STREAM_COPY_MAX (sd_bytes sd)"
    if "\<not> length (sd_bytes sd) > KND_STREAM_COPY_MAX" using that by simp
  then show ?thesis
    using emit_chunks_emitted [OF assms(3,4), where off = 0] assms
    by (simp add: KndClassifyStream_def Let_def)
qed

section \<open>Connection records\<close>

lemma length_octets [simp]: "length (octets a) = 4"
  by (simp add: octets_def)

lemma length_put_prefix [simp]: "length bs \<le> length old \<Longrightarrow> length (put_prefix bs old) = length old"
  by (simp add: put_prefix_def)

definition v6_ok :: "flow_values \<Rightarrow> bool" where
  "v6_ok fv \<longleftrightarrow> (\<forall>a. fv_local6 fv = Some a \<or> fv_remote6 fv = Some a \<longrightarrow> length a = 16)"

lemma wf_zero_conn [simp]: "wf_conn zero_conn"
  by (simp add: wf_conn_def zero_conn_def)

lemma wf_flow_payload: "v6_ok fv \<Longrightarrow> wf_conn (flow_payload fv)"
  by (auto simp: wf_conn_def flow_payload_def zero_conn_def v6_ok_def split: option.splits)

lemma wf_conn_flowId [simp]: "wf_conn (p\<lparr>cp_flowId := f\<rparr>) = wf_conn p"
  by (simp add: wf_conn_def)

lemma length_get_wchars [simp]: "length (get_wchars bs off n) = n"
  by (simp add: get_wchars_def)

lemma wf_fill_process: "wf_conn p \<Longrightarrow> wf_conn (KndFillProcessInfo meta p)"
  by (auto simp: wf_conn_def KndFillProcessInfo_def Let_def const_defs split: option.splits)

text \<open>The image path is copied up to the capacity, terminated, and announced with its length.\<close>

lemma fill_process_path:
  assumes "wf_conn p" "fm_processPath meta = Some data"
  defines "n \<equiv> min (length data div 2) (KND_PROCPATH_CHARS - 1)"
  shows "cp_processPathChars (KndFillProcessInfo meta p) = word_of_nat n"
    "take n (cp_processPath (KndFillProcessInfo meta p)) = get_wchars data 0 n"
    "cp_processPath (KndFillProcessInfo meta p) ! n = 0"
  using assms
  by (auto simp: KndFillProcessInfo_def Let_def min_def nth_append wf_conn_def split: option.splits)

lemma write_conn_args:
  "wf_conn p \<Longrightarrow> write_args (Some (enc_conn p)) (word_of_nat sizeof_CONN_PAYLOAD) None 0"
  by (simp add: write_args_def opt_bytes_def conn_wire.enc_length layout_defs)

lemma write_conn_appended:
  assumes "ring_ok c rs" "rpos c + dsize c < 2 ^ 64" "wf_conn p" "ty \<noteq> KND_REC_WRAP"
  shows "appended c rs ty 0 (enc_conn p) (write_conn c ty p ts)"
  using KndRingWrite_appended [OF assms(1) write_conn_args [OF assms(3)] assms(2,4)]
  by (simp add: write_conn_def opt_bytes_def)

text \<open>Stores into the header beside the two positions leave the contents alone.\<close>

lemma ring_ok_header_store:
  assumes "ring_ok c rs" "a + 4 \<le> KND_RING_DATA_OFFSET"
    and "a + 4 \<le> hdr_writePos \<or> hdr_writePos + 8 \<le> a" "a + 4 \<le> hdr_readPos \<or> hdr_readPos + 8 \<le> a"
  shows "ring_ok (c\<lparr>rmem := st32 (rmem c) a v\<rparr>) rs"
proof -
  have "ld64 (st32 (rmem c) a v) hdr_readPos = ld64 (rmem c) hdr_readPos"
    "ld64 (st32 (rmem c) a v) hdr_writePos = ld64 (rmem c) hdr_writePos"
    using assms(3,4) by (auto simp: mem_simps)
  moreover have "ring_chain (st32 (rmem c) a v) (dsize c) (wpos c) (rpos c) rs"
    using assms(2) by (intro chain_cong [OF ring_okD(4) [OF assms(1)]]) (simp add: mem_simps)
  ultimately show ?thesis
    using assms(1) by (simp add: ring_ok_def)
qed

lemma ring_ok_active: "ring_ok c rs \<Longrightarrow> ring_ok (add_activeFlows d c) rs"
  unfolding add_activeFlows_def by (erule ring_ok_header_store) (simp_all add: layout_defs const_defs)


text \<open>A connection event: the record, if it was accepted, moves the counter of active flows.\<close>

definition conn_event ::
  "knd_ctx \<Rightarrow> bytes list \<Rightarrow> u16 \<Rightarrow> u32 \<Rightarrow> knd_conn_payload \<Rightarrow> knd_ctx \<Rightarrow> bool" where
  "conn_event c rs ty d p c' \<longleftrightarrow>
     (\<exists>ok rs' r. ring_ok c' rs'
        \<and> (if ok then is_record ty 0 (enc_conn p) r \<and> dec_conn (drop sizeof_RECORD r) = p
                \<and> visible rs' = visible rs @ [r]
           else rs' = rs)
        \<and> counter hdr_droppedRecords c' = counter hdr_droppedRecords c + of_bool (\<not> ok)
        \<and> ld32 (rmem c') hdr_activeFlows = ld32 (rmem c) hdr_activeFlows + (if ok then d else 0))"

lemma is_record_conn:
  assumes "wf_conn p" "is_record ty fl (enc_conn p) r"
  shows "dec_conn (drop sizeof_RECORD r) = p"
proof -
  have "drop sizeof_RECORD r = enc_conn p @ drop (length (enc_conn p)) (drop sizeof_RECORD r)"
    using assms(2) unfolding is_record_def by (metis append_take_drop_id)
  then show ?thesis by (metis conn_wire.dec_enc [OF assms(1)])
qed

lemma write_conn_active:
  assumes "ring_wf c" "wf_conn p" "write_conn c ty p ts = (ok, c')"
  shows "ld32 (rmem c') hdr_activeFlows = ld32 (rmem c) hdr_activeFlows"
proof -
  have "\<not> write_footprint c (hdr_activeFlows + i)" if "i < 4" for i
    using that by (simp add: write_footprint_def layout_defs const_defs)
  then have "rmem c' (hdr_activeFlows + i) = rmem c (hdr_activeFlows + i)" if "i < 4" for i
    using KndRingWrite_safe(2) [OF assms(1) write_conn_args [OF assms(2)]] assms(3) that
    unfolding write_conn_def by blast
  then have "mem_read (rmem c') hdr_activeFlows 4 = mem_read (rmem c) hdr_activeFlows 4"
    by (rule mem_read_cong)
  then show ?thesis by (simp add: ld32_def)
qed

lemma write_conn_event:
  assumes "ring_ok c rs" "rpos c + dsize c < 2 ^ 64" "wf_conn p" "ty \<noteq> KND_REC_WRAP"
    and "write_conn c ty p ts = (ok, c1)"
  shows "conn_event c rs ty d p (if ok then add_activeFlows d c1 else c1)"
proof -
  obtain rs' r where r: "ring_ok c1 rs'"
      "if ok then is_record ty 0 (enc_conn p) r \<and> visible rs' = visible rs @ [r] else rs' = rs"
      "counter hdr_droppedRecords c1 = counter hdr_droppedRecords c + of_bool (\<not> ok)"
    using write_conn_appended [OF assms(1-4), of ts] assms(5) by (auto simp: appended_def)
  have act: "ld32 (rmem c1) hdr_activeFlows = ld32 (rmem c) hdr_activeFlows"
    by (rule write_conn_active [OF ring_okD(1) [OF assms(1)] assms(3,5)])
  have hdr: "ld32 (rmem (add_activeFlows d c1)) hdr_activeFlows = ld32 (rmem c1) hdr_activeFlows + d"
    "counter hdr_droppedRecords (add_activeFlows d c1) = counter hdr_droppedRecords c1"
    by (simp_all add: add_activeFlows_def mem_simps layout_defs)
  show ?thesis
  proof (cases ok)
    case True
    with r act hdr ring_ok_active [OF r(1), of d] is_record_conn [OF assms(3)] show ?thesis
      unfolding conn_event_def by (intro exI [of _ True] exI [of _ rs'] exI [of _ r]) auto
  next
    case False
    with r act show ?thesis
      unfolding conn_event_def by (intro exI [of _ False] exI [of _ rs']) auto
  qed
qed

section \<open>Registering and removing the callouts\<close>

lemma unregister_loop_settles:
  assumes "tries \<le> n" "n < 250" "unreg cid n \<noteq> STATUS_DEVICE_BUSY"
    and "\<And>i. tries \<le> i \<Longrightarrow> i < n \<Longrightarrow> unreg cid i = STATUS_DEVICE_BUSY"
  shows "unregister_loop unreg cid tries = unreg cid n"
  using assms
proof (induction "n - tries" arbitrary: tries)
  case 0
  then show ?case by (subst unregister_loop.simps) simp
next
  case (Suc k)
  then have "tries < n" by simp
  with Suc.prems Suc.hyps(1) [of "Suc tries"] Suc.hyps(2) show ?case
    by (subst unregister_loop.simps) simp
qed

text \<open>Every callout drains within the retry budget.\<close>

definition drains :: "(u32 \<Rightarrow> nat \<Rightarrow> ntstatus) \<Rightarrow> bool" where
  "drains unreg \<longleftrightarrow> (\<forall>cid. \<exists>n < 250. NT_SUCCESS (unreg cid n)
     \<and> (\<forall>i < n. unreg cid i = STATUS_DEVICE_BUSY))"

lemma drains_unregister: "drains unreg \<Longrightarrow> NT_SUCCESS (unregister_loop unreg cid 0)"
  unfolding drains_def using unregister_loop_settles [of 0 _ unreg cid]
  by (metis le0 nt_failures(4))

lemma unregister_all:
  "drains unreg \<Longrightarrow> foldl (unregister_one unreg) live cids = live - set cids"
  by (induction cids arbitrary: live) (auto simp: unregister_one_def drains_unregister)

text \<open>
  Ownership: the live platform objects are those that others own and those that the context
  records, which are not among the former.
\<close>

definition wfp_owns :: "u64 set \<Rightarrow> u32 set \<Rightarrow> u64 set \<Rightarrow> knd_ctx \<times> knd_sys \<Rightarrow> bool" where
  "wfp_owns E C R cg \<longleftrightarrow> (case cg of (c, g) \<Rightarrow>
     engines g = E \<union> (if EngineHandle c \<noteq> 0 then {EngineHandle c} else {})
     \<and> callouts g = C \<union> set (take (NumCallouts c) (CalloutIds c))
     \<and> redirects g = R \<union> (if RedirectHandleCreated c then {RedirectHandle c} else {})
     \<and> (EngineHandle c \<noteq> 0 \<longrightarrow> EngineHandle c \<notin> E)
     \<and> set (take (NumCallouts c) (CalloutIds c)) \<inter> C = {}
     \<and> (RedirectHandleCreated c \<longrightarrow> RedirectHandle c \<notin> R)
     \<and> length (CalloutIds c) = KND_MAX_CALLOUTS \<and> NumCallouts c \<le> KND_MAX_CALLOUTS)"

lemma register_owns:
  assumes "wfp_owns E C R (c, g)" "NumCallouts c < KND_MAX_CALLOUTS" "ca_id a \<notin> C"
    and "KndRegisterCallout a k (c, g) = (s, c', g')"
  shows "wfp_owns E C R (c', g')" "NumCallouts c' \<le> NumCallouts c + 1"
    "NT_SUCCESS s \<Longrightarrow> take (NumCallouts c') (CalloutIds c') = take (NumCallouts c) (CalloutIds c) @ [ca_id a]"
proof -
  have ids: "take (Suc (NumCallouts c)) ((CalloutIds c)[NumCallouts c := ca_id a])
      = take (NumCallouts c) (CalloutIds c) @ [ca_id a]"
    using assms(1,2) by (simp add: wfp_owns_def take_Suc_conv_app_nth)
  have eng: "engines (out_callout_id k i h) = engines h" "callouts (out_callout_id k i h) = callouts h"
    "redirects (out_callout_id k i h) = redirects h" for i h
    by (cases k; simp add: out_callout_id_def)+
  have "wfp_owns E C R (c', g') \<and> NumCallouts c' \<le> NumCallouts c + 1 \<and> (NT_SUCCESS s \<longrightarrow>
      take (NumCallouts c') (CalloutIds c') = take (NumCallouts c) (CalloutIds c) @ [ca_id a])"
  proof (cases "NT_SUCCESS (ca_register a)")
    case False
    with assms show ?thesis by (simp add: KndRegisterCallout_def)
  next
    case True
    have c': "c' = c\<lparr>CalloutIds := (CalloutIds c)[NumCallouts c := ca_id a], NumCallouts := NumCallouts c + 1\<rparr>"
      and g': "g' = out_callout_id k (ca_id a) (g\<lparr>callouts := insert (ca_id a) (callouts g)\<rparr>)"
      using assms(2,4) True by (simp_all add: KndRegisterCallout_def Let_def split: if_splits)
    have "wfp_owns E C R (c', g')"
      using assms(1-3) ids unfolding c' g' wfp_owns_def by (simp add: eng)
    with ids show ?thesis by (simp add: c')
  qed
  then show "wfp_owns E C R (c', g')" "NumCallouts c' \<le> NumCallouts c + 1"
    "NT_SUCCESS s \<Longrightarrow> take (NumCallouts c') (CalloutIds c') = take (NumCallouts c) (CalloutIds c) @ [ca_id a]"
    by auto
qed

lemma register_all_owns:
  assumes "wfp_owns E C R (c, g)" "NumCallouts c + length ks \<le> KND_MAX_CALLOUTS"
    and "\<And>k. ca_id (a k) \<notin> C" and "register_all a ks (c, g) = (s, c', g')"
  shows "wfp_owns E C R (c', g') \<and> (NT_SUCCESS s \<longrightarrow>
     take (NumCallouts c') (CalloutIds c') = take (NumCallouts c) (CalloutIds c) @ map (\<lambda>k. ca_id (a k)) ks)"
  using assms(1,2,4)
proof (induction ks arbitrary: c g)
  case Nil
  then show ?case by simp
next
  case (Cons k ks)
  obtain s1 c1 g1 where r: "KndRegisterCallout (a k) k (c, g) = (s1, c1, g1)" by (rule prod_cases3)
  have lt: "NumCallouts c < KND_MAX_CALLOUTS" using Cons.prems(2) by simp
  note o = register_owns [OF Cons.prems(1) lt assms(3) r]
  show ?case
  proof (cases "NT_SUCCESS s1")
    case True
    with Cons.prems r have "register_all a ks (c1, g1) = (s, c', g')" by simp
    with Cons.IH [OF o(1)] o(2,3) True Cons.prems(2) show ?thesis by simp
  next
    case False
    with Cons.prems r o show ?thesis by simp
  qed
qed

lemma KndWfpStop_releases:
  assumes "wfp_owns E C R (c, g)" "drains unreg" "KndWfpStop unreg (c, g) = (c', g')"
  shows "engines g' = E \<and> callouts g' = C \<and> redirects g' = R \<and> EngineHandle c' = 0
    \<and> NumCallouts c' = 0 \<and> \<not> RedirectHandleCreated c' \<and> \<not> CalloutsRegistered c'
    \<and> g_streamIdV4 g' = 0 \<and> g_streamIdV6 g' = 0"
  using assms(1,3)
  by (auto simp: KndWfpStop_def Let_def unregister_all [OF assms(2)] wfp_owns_def split: if_splits)

definition wfp_idle :: "knd_ctx \<Rightarrow> bool" where
  "wfp_idle c \<longleftrightarrow> EngineHandle c = 0 \<and> NumCallouts c = 0 \<and> \<not> RedirectHandleCreated c
     \<and> length (CalloutIds c) = KND_MAX_CALLOUTS"

definition wfp_fresh :: "wfp_answers \<Rightarrow> knd_sys \<Rightarrow> bool" where
  "wfp_fresh a g \<longleftrightarrow> snd (wa_engine a) \<noteq> 0 \<and> snd (wa_engine a) \<notin> engines g
     \<and> snd (wa_redirect a) \<notin> redirects g \<and> (\<forall>k. ca_id (wa_callout a k) \<notin> callouts g)"

abbreviation all_callouts :: "callout_kind list" where
  "all_callouts \<equiv> [CO_FLOW_V4, CO_FLOW_V6, CO_STREAM_V4, CO_STREAM_V6, CO_REDIRECT_V4]"

lemma wfp_start_body_owns:
  assumes "wfp_owns E C R (c, g)" "NumCallouts c = 0" "\<And>k. ca_id (wa_callout a k) \<notin> C"
    and "wfp_start_body a (c, g) = (s, c', g')"
  shows "wfp_owns E C R (c', g') \<and> (NT_SUCCESS s \<longrightarrow> s = STATUS_SUCCESS \<and> CalloutsRegistered c'
     \<and> take (NumCallouts c') (CalloutIds c') = map (\<lambda>k. ca_id (wa_callout a k)) all_callouts)"
proof (cases "NT_SUCCESS (wa_begin a) \<and> NT_SUCCESS (wa_sublayer a)")
  case False
  with assms show ?thesis by (auto simp: wfp_start_body_def split: if_splits)
next
  case True
  obtain s1 c1 g1 where r: "register_all (wa_callout a) all_callouts (c\<lparr>SublayerAdded := True\<rparr>, g) = (s1, c1, g1)"
    by (rule prod_cases3)
  have "wfp_owns E C R (c\<lparr>SublayerAdded := True\<rparr>, g)"
    using assms(1) by (simp add: wfp_owns_def)
  from register_all_owns [OF this _ assms(3) r] assms(2)
  have o: "wfp_owns E C R (c1, g1)" "NT_SUCCESS s1 \<Longrightarrow>
      take (NumCallouts c1) (CalloutIds c1) = map (\<lambda>k. ca_id (wa_callout a k)) all_callouts"
    by (simp_all add: const_defs)
  have res: "(s, c', g') = (if \<not> NT_SUCCESS s1 then (s1, c1, g1)
      else if \<not> NT_SUCCESS (wa_commit a) then (wa_commit a, c1, g1)
      else (STATUS_SUCCESS, c1\<lparr>CalloutsRegistered := True\<rparr>, g1))"
    using assms(4) True r by (simp add: wfp_start_body_def Let_def)
  show ?thesis
    using res o by (auto simp: wfp_owns_def split: if_splits)
qed


lemma start_after_open_owns:
  assumes "wfp_idle c" "wfp_fresh a g"
  shows "wfp_owns (engines g) (callouts g) (redirects g)
    (c\<lparr>EngineHandle := snd (wa_engine a)\<rparr>, g\<lparr>engines := insert (snd (wa_engine a)) (engines g)\<rparr>)"
    "wfp_owns (engines g) (callouts g) (redirects g)
    (c\<lparr>EngineHandle := snd (wa_engine a), RedirectHandle := snd (wa_redirect a), RedirectHandleCreated := True\<rparr>,
     g\<lparr>engines := insert (snd (wa_engine a)) (engines g), redirects := insert (snd (wa_redirect a)) (redirects g)\<rparr>)"
  using assms by (auto simp: wfp_idle_def wfp_fresh_def wfp_owns_def const_defs)

lemma KndWfpStart_cases:
  assumes idle: "wfp_idle c" and fresh: "wfp_fresh a g" and drain: "drains (wa_unregister a)"
    and res: "KndWfpStart a (c, g) = (s, c', g')"
  shows "if NT_SUCCESS s
    then s = STATUS_SUCCESS \<and> CalloutsRegistered c' \<and> wfp_owns (engines g) (callouts g) (redirects g) (c', g')
      \<and> take (NumCallouts c') (CalloutIds c') = map (\<lambda>k. ca_id (wa_callout a k)) all_callouts
    else engines g' = engines g \<and> callouts g' = callouts g \<and> redirects g' = redirects g"
proof (cases "NT_SUCCESS (fst (wa_engine a))")
  case False
  with res show ?thesis by (simp add: KndWfpStart_def Let_def case_prod_beta)
next
  case True
  define cg where "cg = (if NT_SUCCESS (fst (wa_redirect a))
     then (c\<lparr>EngineHandle := snd (wa_engine a), RedirectHandle := snd (wa_redirect a), RedirectHandleCreated := True\<rparr>,
       g\<lparr>engines := insert (snd (wa_engine a)) (engines g), redirects := insert (snd (wa_redirect a)) (redirects g)\<rparr>)
     else (c\<lparr>EngineHandle := snd (wa_engine a)\<rparr>, g\<lparr>engines := insert (snd (wa_engine a)) (engines g)\<rparr>))"
  obtain c0 g0 where cg: "cg = (c0, g0)" by (cases cg)
  obtain s1 c1 g1 where b: "wfp_start_body a (c0, g0) = (s1, c1, g1)" by (rule prod_cases3)
  have own: "wfp_owns (engines g) (callouts g) (redirects g) (c0, g0)" "NumCallouts c0 = 0"
    using start_after_open_owns [OF idle fresh] idle cg
    by (auto simp: cg_def wfp_idle_def split: if_splits)
  have ids: "ca_id (wa_callout a k) \<notin> callouts g" for k using fresh by (simp add: wfp_fresh_def)
  note body = wfp_start_body_owns [OF own ids b]
  have "KndWfpStart a (c, g) =
      (if NT_SUCCESS s1 then (STATUS_SUCCESS, c1, g1) else (s1, KndWfpStop (wa_unregister a) (c1, g1)))"
    using True b cg by (simp add: KndWfpStart_def Let_def case_prod_beta cg_def split: if_splits)
  then show ?thesis
    using res body KndWfpStop_releases [OF _ drain, of "engines g" "callouts g" "redirects g" c1 g1 c' g']
    by (auto split: if_splits)
qed

definition small_sys :: knd_sys where
  "small_sys = \<lparr>g_Knd = Some small_ctx, g_streamIdV4 = 21, g_streamIdV6 = 22, flow_contexts = [],
     engines = {}, callouts = {}, redirects = {}, sys_devices = {}, symlinked = False, ctx_pool = {}, orphans = {}\<rparr>"

lemma small_sys_fields [simp]: "g_Knd small_sys = Some small_ctx"
  by (simp add: small_sys_def)

section \<open>Properties of the capture\<close>

text \<open>
  The capture is passive. The flow callout always continues the chain, the stream callout always
  permits, and for every indication with data it enforces exactly the bytes indicated and
  hands the data on as it is, whatever the state of the driver and of the ring.
\<close>

theorem capture_passive:
  "fst (KndClassifyFlow fv meta ts out g) = set_action FWP_ACTION_CONTINUE out
   \<and> fst (snd (KndClassifyStream copyStream pool clock metaHandle flowContext pkt out g))
      = set_action FWP_ACTION_PERMIT out
   \<and> fst (KndClassifyStream copyStream pool clock metaHandle flowContext pkt out g) =
      (case pkt of None \<Rightarrow> None
       | Some pk \<Rightarrow> (case sp_streamData pk of None \<Rightarrow> Some pk
          | Some sd \<Rightarrow> Some (pk\<lparr>sp_streamAction := STREAM_ACTION_NONE,
                              sp_countBytesEnforced := length (sd_bytes sd)\<rparr>)))"
  by (simp add: KndClassifyFlow_def KndClassifyStream_def Let_def split: option.splits prod.splits)



text \<open>
  C19. Stream data is captured in order and without invention. With capture on and a scratch
  buffer granted, the first 256 KiB of the indication, cut into chunks of at most 64 KiB, go
  to the ring as data records under the flow's context id and direction: the new records are a
  subsequence of the chunks in order, and each chunk that is missing is counted as dropped.
\<close>

theorem KndClassifyStream_captures:
  assumes "g_Knd g = Some c" "CaptureActive c \<noteq> 0" "ring_ok c rs" "rpos c + dsize c < 2 ^ 64"
    and "sp_streamData pk = Some sd" "sd_bytes sd \<noteq> []" "pool \<noteq> 0" "flowContext \<noteq> 0"
    and copy: "\<And>bs n. copyStream bs n = take n bs"
  defines "chunks \<equiv> data_chunks (take KND_STREAM_COPY_MAX (sd_bytes sd))"
  shows "(\<exists>c'. g_Knd (snd (snd (KndClassifyStream copyStream pool clock metaHandle flowContext
              (Some pk) out g))) = Some c'
     \<and> emitted c rs (if length (sd_bytes sd) > KND_STREAM_COPY_MAX then 1 else 0)
         (map (chunk_body flowContext (if sd_receive sd then KND_DIR_INBOUND else KND_DIR_OUTBOUND)) chunks) c')
     \<and> concat chunks = take KND_STREAM_COPY_MAX (sd_bytes sd)
     \<and> (\<forall>ch \<in> set chunks. length ch \<le> KND_MAX_DATA_CHUNK)"
  using stream_emits [OF assms(1-9)] concat_data_chunks length_data_chunks by (simp add: chunks_def)

theorem KndClassifyStream_captures_witness:
  "\<exists>c'. g_Knd (snd (snd (KndClassifyStream (\<lambda>bs n. take n bs) 5 (\<lambda>_. 0) None 77
       (Some \<lparr>sp_streamData = Some \<lparr>sd_bytes = [1, 2, 3], sd_receive = True\<rparr>,
          sp_streamAction = ACTION_INITIAL, sp_countBytesEnforced = 0\<rparr>)
       \<lparr>co_writable = True, co_action = ACTION_UNSET\<rparr> small_sys))) = Some c'
     \<and> emitted small_ctx [] 0 [chunk_body 77 KND_DIR_INBOUND [1, 2, 3]] c'"
  using KndClassifyStream_captures [OF small_sys_fields _ small_ctx_ok, of
      "\<lparr>sp_streamData = Some \<lparr>sd_bytes = [1, 2, 3], sd_receive = True\<rparr>,
          sp_streamAction = ACTION_INITIAL, sp_countBytesEnforced = 0\<rparr>"
      "\<lparr>sd_bytes = [1, 2, 3], sd_receive = True\<rparr>" 5 77 "\<lambda>bs n. take n bs" "\<lambda>_. 0" None
      "\<lparr>co_writable = True, co_action = ACTION_UNSET\<rparr>"]
  by (simp add: const_defs data_chunks.simps)


text \<open>
  C18. Redirection sends only what it should, and remembers where it was going. A request is
  modified only for TCP to port 443 or 80, with redirection enabled, its handle created, and a
  port that is not the proxy's own; then the new destination is the loopback address with
  the proxy's port in network order, and the attached context decodes to the original address and
  port. The classify handle is released whenever it was acquired, and the action is never to block.
\<close>

theorem KndClassifyConnectRedirect_correct:
  assumes "KndClassifyConnectRedirect v acquired writable req pool out g = (res, calls, out')"
  shows "(calls = [] \<or> calls = [Acquire, Release])
     \<and> (co_action out' = FWP_ACTION_PERMIT \<or> out' = out)
     \<and> (\<forall>rq'. res = Some rq' \<longrightarrow> (\<exists>c rq. g_Knd g = Some c \<and> req = Some rq \<and> RedirectEnable c \<noteq> 0
          \<and> rv_protocol v = KND_PROTO_TCP \<and> rv_remotePort v \<in> {443, 80} \<and> rv_remotePort v \<noteq> RedirectPort c
          \<and> (rq' = rq \<and> pool = 0 \<or>
             take 8 (cr_remoteAddressAndPort rq') =
               [2, 0, ucast (drop_bit 8 (RedirectPort c)), ucast (RedirectPort c), 127, 0, 0, 1]
             \<and> (\<exists>cx. cr_localRedirectContext rq' = Some cx \<and> length cx = cr_localRedirectContextSize rq'
                  \<and> dec_redirect_ctx cx = \<lparr>rx_ipVersion = KND_IPV4, rx_reserved = 0,
                       rx_origPort = rv_remotePort v,
                       rx_origAddr = octets (rv_remote4 v) @ replicate 12 0\<rparr>))))"
proof -
  have wf: "wf_redirect_ctx (redirect_ctx v)"
    by (simp add: wf_redirect_ctx_def redirect_ctx_def)
  have cx: "dec_redirect_ctx (enc_redirect_ctx (redirect_ctx v)) = \<lparr>rx_ipVersion = KND_IPV4,
      rx_reserved = 0, rx_origPort = rv_remotePort v, rx_origAddr = octets (rv_remote4 v) @ replicate 12 0\<rparr>"
    by (simp add: redirect_ctx_wire.dec_enc_exact [OF wf]) (simp add: redirect_ctx_def put_prefix_def)
  have sa: "take 8 (cr_remoteAddressAndPort (redirect_request c v rq)) =
      [2, 0, ucast (drop_bit 8 (RedirectPort c)), ucast (RedirectPort c), 127, 0, 0, 1]" for c rq
    by (simp add: redirect_request_def put_prefix_def net16_def octets_def const_defs le_bytes_2)
  show ?thesis
    using assms cx sa redirect_ctx_wire.enc_length [OF wf] unfolding KndClassifyConnectRedirect_def Let_def
    by (auto simp: redirect_request_def split: if_splits option.splits)
qed


definition redirecting_sys :: knd_sys where
  "redirecting_sys = small_sys\<lparr>g_Knd := Some (small_ctx\<lparr>RedirectEnable := 1, RedirectPort := 8080,
     RedirectHandleCreated := True\<rparr>)\<rparr>"

theorem KndClassifyConnectRedirect_correct_witness:
  "\<exists>rq' out'. KndClassifyConnectRedirect \<lparr>rv_protocol = 6, rv_remotePort = 443, rv_remote4 = 0x5DB8D822\<rparr>
       0 0 (Some \<lparr>cr_remoteAddressAndPort = replicate 128 7, cr_localRedirectHandle = 0,
         cr_localRedirectContext = None, cr_localRedirectContextSize = 0\<rparr>) 0x5000
       \<lparr>co_writable = True, co_action = ACTION_UNSET\<rparr> redirecting_sys = (Some rq', [Acquire, Release], out')
     \<and> take 8 (cr_remoteAddressAndPort rq') = [2, 0, 31, 144, 127, 0, 0, 1]"
proof -
  let ?v = "\<lparr>rv_protocol = 6, rv_remotePort = 443, rv_remote4 = 0x5DB8D822\<rparr>"
  let ?rq = "\<lparr>cr_remoteAddressAndPort = replicate 128 7, cr_localRedirectHandle = 0,
         cr_localRedirectContext = None, cr_localRedirectContextSize = 0\<rparr>"
  let ?out = "\<lparr>co_writable = True, co_action = ACTION_UNSET\<rparr>"
  have res: "\<exists>rq' out'. KndClassifyConnectRedirect ?v 0 0 (Some ?rq) 0x5000 ?out redirecting_sys
      = (Some rq', [Acquire, Release], out')"
    by (simp add: KndClassifyConnectRedirect_def redirecting_sys_def NT_SUCCESS_def const_defs)
  then obtain rq' out' where eq: "KndClassifyConnectRedirect ?v 0 0 (Some ?rq) 0x5000 ?out redirecting_sys
      = (Some rq', [Acquire, Release], out')" by blast
  from KndClassifyConnectRedirect_correct [OF eq]
  have "take 8 (cr_remoteAddressAndPort rq') = [2, 0, 31, 144, 127, 0, 0, 1]"
    by (simp add: redirecting_sys_def)
  with eq show ?thesis by blast
qed

text \<open>
  C21. Registration is all or nothing. From an idle context, with handles and ids that are new to
  the system and callouts that drain within the retry budget, starting either succeeds with all
  five callouts registered and recorded for removal, or fails and leaves no engine handle, no
  callout and no redirect handle behind.
\<close>

theorem KndWfpStart_all_or_nothing:
  assumes "wfp_idle c" "wfp_fresh a g" "drains (wa_unregister a)"
    and "KndWfpStart a (c, g) = (s, c', g')"
  shows "if NT_SUCCESS s
    then CalloutsRegistered c' \<and> NumCallouts c' \<le> KND_MAX_CALLOUTS
      \<and> take (NumCallouts c') (CalloutIds c') = map (\<lambda>k. ca_id (wa_callout a k))
          [CO_FLOW_V4, CO_FLOW_V6, CO_STREAM_V4, CO_STREAM_V6, CO_REDIRECT_V4]
      \<and> callouts g' = callouts g \<union> set (take (NumCallouts c') (CalloutIds c'))
    else engines g' = engines g \<and> callouts g' = callouts g \<and> redirects g' = redirects g"
  using KndWfpStart_cases [OF assms] by (auto simp: wfp_owns_def split: if_splits)

definition sample_answers :: "ntstatus \<Rightarrow> wfp_answers" where
  "sample_answers commit = \<lparr>wa_engine = (0, 0x100), wa_redirect = (0, 0x200), wa_begin = 0, wa_sublayer = 0,
     wa_callout = (\<lambda>k. \<lparr>ca_register = 0, ca_id = (case k of CO_FLOW_V4 \<Rightarrow> 1 | CO_FLOW_V6 \<Rightarrow> 2
        | CO_STREAM_V4 \<Rightarrow> 3 | CO_STREAM_V6 \<Rightarrow> 4 | CO_REDIRECT_V4 \<Rightarrow> 5), ca_add = 0, ca_filter = 0\<rparr>),
     wa_commit = commit,
     wa_unregister = (\<lambda>cid n. if n < 2 then STATUS_DEVICE_BUSY else STATUS_SUCCESS)\<rparr>"

lemma sample_drains: "drains (wa_unregister (sample_answers s))"
  unfolding drains_def sample_answers_def by (auto intro!: exI [of _ 2])

theorem KndWfpStart_all_or_nothing_witness:
  "\<exists>s c' g'. KndWfpStart (sample_answers STATUS_UNSUCCESSFUL) (blank_ctx, small_sys) = (s, c', g')
     \<and> \<not> NT_SUCCESS s \<and> engines g' = {} \<and> callouts g' = {} \<and> redirects g' = {}"
proof -
  let ?a = "sample_answers STATUS_UNSUCCESSFUL"
  obtain s c' g' where r: "KndWfpStart ?a (blank_ctx, small_sys) = (s, c', g')" by (rule prod_cases3)
  have "wfp_idle blank_ctx" "wfp_fresh ?a small_sys"
    by (auto simp: wfp_idle_def wfp_fresh_def blank_ctx_def small_sys_def sample_answers_def const_defs)
  from KndWfpStart_all_or_nothing [OF this sample_drains r]
  have "if NT_SUCCESS s then CalloutsRegistered c' else engines g' = engines small_sys
      \<and> callouts g' = callouts small_sys \<and> redirects g' = redirects small_sys"
    by (simp split: if_splits)
  moreover have "\<not> NT_SUCCESS s"
    using r by (auto simp: KndWfpStart_def sample_answers_def wfp_start_body_def KndRegisterCallout_def
        Let_def NT_SUCCESS_def [of 0] split: prod.splits if_splits)
  ultimately show ?thesis using r by (auto simp: small_sys_def)
qed

text \<open>
  A torn-down flow is recorded under its id. With capture on, the ring gains one connection-close
  record, whose payload is zero but for the flow id, and the count of active flows goes
  down; or the ring is full and the drop is counted. The count goes down whether or not the
  opening of the same flow was recorded, so a flow whose opening was dropped takes it below zero.
\<close>

theorem KndFlowDelete_records:
  assumes "g_Knd g = Some c" "CaptureActive c \<noteq> 0" "ring_ok c rs" "rpos c + dsize c < 2 ^ 64"
  shows "\<exists>c'. g_Knd (KndFlowDelete fc ts g) = Some c'
     \<and> conn_event c rs KND_REC_CONN_CLOSE (- 1) (zero_conn\<lparr>cp_flowId := fc\<rparr>) c'"
proof -
  obtain ok c1 where w: "write_conn c KND_REC_CONN_CLOSE (zero_conn\<lparr>cp_flowId := fc\<rparr>) ts = (ok, c1)"
    by (cases "write_conn c KND_REC_CONN_CLOSE (zero_conn\<lparr>cp_flowId := fc\<rparr>) ts")
  have "conn_event c rs KND_REC_CONN_CLOSE (- 1) (zero_conn\<lparr>cp_flowId := fc\<rparr>)
      (if ok then add_activeFlows (- 1) c1 else c1)"
    by (rule write_conn_event [OF assms(3,4) _ _ w]) (simp_all add: const_defs)
  then show ?thesis using assms(1,2) w by (simp add: KndFlowDelete_def)
qed

theorem KndFlowDelete_records_witness:
  "\<exists>c'. g_Knd (KndFlowDelete 77 0 small_sys) = Some c'
     \<and> conn_event small_ctx [] KND_REC_CONN_CLOSE (- 1) (zero_conn\<lparr>cp_flowId := 77\<rparr>) c'"
  by (rule KndFlowDelete_records [OF small_sys_fields _ small_ctx_ok]) simp_all

end
