(* ===== verification/Knd_Text.thy ===== *)
theory Knd_Text
  imports Knd_Prelude
begin

text \<open>
  The parts of the C and C++ libraries for text that the application uses: decimal and hexadecimal
  conversion, bounded formatting, character classes, searching and trimming of strings.
  A string is a list of characters; a byte and its character are converted by value.
\<close>

section \<open>Bytes and characters\<close>

definition chr :: "u8 \<Rightarrow> char" where
  "chr b = char_of (unat b)"

definition byte :: "char \<Rightarrow> u8" where
  "byte c = word_of_nat (of_char c)"

lemma byte_chr [simp]: "byte (chr b) = b"
proof -
  have "(of_char (chr b) :: nat) = unat b" by (simp add: chr_def)
  then show ?thesis by (simp add: byte_def)
qed

lemma chr_byte [simp]: "chr (byte c) = c"
proof -
  have "(of_char c :: nat) < 256" by simp
  then have "unat (byte c) = of_char c" by (simp add: byte_def unat_of_nat)
  then show ?thesis by (simp add: chr_def)
qed

definition text_of :: "bytes \<Rightarrow> string" where
  "text_of bs = map chr bs"

definition bytes_of_text :: "string \<Rightarrow> bytes" where
  "bytes_of_text s = map byte s"

lemma text_round_trip [simp]: "bytes_of_text (text_of bs) = bs" "text_of (bytes_of_text s) = s"
  by (simp_all add: bytes_of_text_def text_of_def comp_def)

lemma length_text [simp]: "length (text_of bs) = length bs" "length (bytes_of_text s) = length s"
  by (simp_all add: bytes_of_text_def text_of_def)

section \<open>Numbers\<close>

definition digit :: "nat \<Rightarrow> char" where
  "digit d = char_of (if d < 10 then 48 + d else 87 + d)"

fun numeral_text :: "nat \<Rightarrow> nat \<Rightarrow> string" where
  "numeral_text base n =
     (if n < base \<or> base < 2 then [digit n] else numeral_text base (n div base) @ [digit (n mod base)])"

declare numeral_text.simps [simp del]

abbreviation dec_text :: "nat \<Rightarrow> string" where "dec_text \<equiv> numeral_text 10"
abbreviation hex_text :: "nat \<Rightarrow> string" where "hex_text \<equiv> numeral_text 16"

text \<open>Zero padding to a minimal width, as in a format with a width and a leading zero.\<close>

definition pad0 :: "nat \<Rightarrow> string \<Rightarrow> string" where
  "pad0 w s = replicate (w - length s) (CHR ''0'') @ s"

text \<open>Formatting into a buffer of a given size keeps what fits beside the terminator.\<close>

definition snprintf :: "nat \<Rightarrow> string \<Rightarrow> string" where
  "snprintf n s = take (n - 1) s"

lemma length_snprintf: "0 < n \<Longrightarrow> length (snprintf n s) < n"
  by (simp add: snprintf_def)

lemma snprintf_fits [simp]: "length s < n \<Longrightarrow> snprintf n s = s"
  by (simp add: snprintf_def)

definition is_digit :: "char \<Rightarrow> bool" where
  "is_digit c \<longleftrightarrow> 48 \<le> (of_char c :: nat) \<and> (of_char c :: nat) \<le> 57"

definition digit_val :: "char \<Rightarrow> nat" where
  "digit_val c = (let n = of_char c in
     if 48 \<le> n \<and> n \<le> 57 then n - 48 else if 97 \<le> n \<and> n \<le> 102 then n - 87
     else if 65 \<le> n \<and> n \<le> 70 then n - 55 else 16)"

definition digits_val :: "nat \<Rightarrow> string \<Rightarrow> nat" where
  "digits_val base s = foldl (\<lambda>v c. v * base + digit_val c) 0 s"

lemma of_char_digit: "d < 16 \<Longrightarrow> (of_char (digit d) :: nat) = (if d < 10 then 48 + d else 87 + d)"
  by (simp add: digit_def of_char_of take_bit_eq_mod)

lemma digit_val_digit [simp]: "d < 16 \<Longrightarrow> digit_val (digit d) = d"
  by (simp add: digit_val_def of_char_digit Let_def)

lemma digits_val_append: "digits_val base (s @ [c]) = digits_val base s * base + digit_val c"
  by (simp add: digits_val_def)

text \<open>Printing a number and reading its digits back.\<close>

lemma digits_val_numeral_text:
  "2 \<le> base \<Longrightarrow> base \<le> 16 \<Longrightarrow> digits_val base (numeral_text base n) = n"
proof (induction base n rule: numeral_text.induct)
  case (1 base n)
  show ?case
  proof (cases "n < base")
    case True
    with 1 show ?thesis by (simp add: numeral_text.simps [of base n] digits_val_def)
  next
    case False
    then have "n mod base < 16" using 1 mod_less_divisor [of base n] by linarith
    with False 1 show ?thesis
      by (subst numeral_text.simps) (simp add: digits_val_append)
  qed
qed

lemma numeral_text_nonempty: "numeral_text base n \<noteq> []"
  by (subst numeral_text.simps) simp

lemma digit_not: "d < 16 \<Longrightarrow> digit d \<noteq> CHR ''.'' \<and> digit d \<noteq> CHR '':''"
  using of_char_digit [of d] by (auto split: if_splits)

lemma numeral_text_digits: "2 \<le> base \<Longrightarrow> base \<le> 16 \<Longrightarrow> x \<in> set (numeral_text base n) \<Longrightarrow> \<exists>d < base. x = digit d"
proof (induction base n rule: numeral_text.induct)
  case (1 base n)
  show ?case
  proof (cases "n < base")
    case True
    with 1 show ?thesis by (simp add: numeral_text.simps [of base n]) blast
  next
    case False
    with 1 have "x \<in> set (numeral_text base (n div base)) \<or> x = digit (n mod base)"
      by (auto simp: numeral_text.simps [of base n])
    moreover have "n mod base < base" using 1 by simp
    moreover have "x \<in> set (numeral_text base (n div base)) \<Longrightarrow> \<exists>d<base. x = digit d" using 1 False by simp
    ultimately show ?thesis by blast
  qed
qed

lemma numeral_text_no_sep:
  "2 \<le> base \<Longrightarrow> base \<le> 16 \<Longrightarrow> CHR ''.'' \<notin> set (numeral_text base n) \<and> CHR '':'' \<notin> set (numeral_text base n)"
  using numeral_text_digits [of base _ n] digit_not by (metis less_le_trans)

lemma length_numeral_text: "0 < k \<Longrightarrow> 2 \<le> base \<Longrightarrow> n < base ^ k \<Longrightarrow> length (numeral_text base n) \<le> k"
proof (induction k arbitrary: n)
  case (Suc k)
  show ?case
  proof (cases "n < base")
    case True
    then show ?thesis by (simp add: numeral_text.simps [of base n])
  next
    case False
    with Suc.prems have "0 < k" by (cases k) auto
    moreover have "n div base < base ^ k"
      using Suc.prems by (simp add: div_less_iff_less_mult mult.commute)
    ultimately have "length (numeral_text base (n div base)) \<le> k" using Suc by simp
    then show ?thesis using False Suc.prems by (simp add: numeral_text.simps [of base n])
  qed
qed simp

section \<open>Joining and splitting\<close>

fun join :: "string \<Rightarrow> string list \<Rightarrow> string" where
  "join sep [] = []"
| "join sep [x] = x"
| "join sep (x # y # xs) = x @ sep @ join sep (y # xs)"

fun split_at :: "char \<Rightarrow> string \<Rightarrow> string list" where
  "split_at c [] = [[]]"
| "split_at c (x # xs) = (if x = c then [] # split_at c xs
     else (case split_at c xs of [] \<Rightarrow> [[x]] | p # ps \<Rightarrow> (x # p) # ps))"

lemma split_at_nonempty: "split_at c s \<noteq> []"
  by (cases s) (auto split: list.splits)

lemma split_at_append: "c \<notin> set x \<Longrightarrow> split_at c (x @ c # s) = x # split_at c s"
  by (induction x) auto

lemma split_at_plain: "c \<notin> set x \<Longrightarrow> split_at c x = [x]"
  by (induction x) auto

lemma split_at_join: "ps \<noteq> [] \<Longrightarrow> (\<And>p. p \<in> set ps \<Longrightarrow> c \<notin> set p) \<Longrightarrow> split_at c (join [c] ps) = ps"
proof (induction "[c]" ps rule: join.induct)
  case (3 x y xs)
  then show ?case by (simp add: split_at_append)
qed (simp_all add: split_at_plain)

lemma length_join: "(\<And>p. p \<in> set ps \<Longrightarrow> length p \<le> k) \<Longrightarrow> length (join sep ps) \<le> length ps * (k + length sep)"
proof (induction sep ps rule: join.induct)
  case (3 sep x y xs)
  then have "length (join sep (y # xs)) \<le> length (y # xs) * (k + length sep)" "length x \<le> k" by auto
  then show ?case by simp
qed auto

text \<open>A string read through its terminator.\<close>

definition c_str :: "string \<Rightarrow> string" where
  "c_str s = takeWhile (\<lambda>c. c \<noteq> CHR 0x00) s"

lemma c_str_plain: "CHR 0x00 \<notin> set s \<Longrightarrow> c_str s = s"
  unfolding c_str_def by (rule iffD2 [OF takeWhile_eq_all_conv]) auto

section \<open>Searching, trimming and reading numbers\<close>

text \<open>Positions in a string: the first one at or after a start where a pattern begins.\<close>

definition find_text :: "string \<Rightarrow> string \<Rightarrow> nat \<Rightarrow> nat option" where
  "find_text pat s from = List.find (\<lambda>i. take (length pat) (drop i s) = pat) [from..<Suc (length s) - length pat]"

definition rfind_char :: "char \<Rightarrow> string \<Rightarrow> nat option" where
  "rfind_char c s = List.find (\<lambda>i. s ! i = c) (rev [0..<length s])"

definition substr :: "nat \<Rightarrow> nat \<Rightarrow> string \<Rightarrow> string" where
  "substr pos n s = take n (drop pos s)"

definition has_text :: "string \<Rightarrow> string \<Rightarrow> bool" where
  "has_text pat s \<longleftrightarrow> find_text pat s 0 \<noteq> None"

definition tolower :: "char \<Rightarrow> char" where
  "tolower c = (let n = of_char c :: nat in if 65 \<le> n \<and> n \<le> 90 then char_of (n + 32) else c)"

definition is_alpha :: "char \<Rightarrow> bool" where
  "is_alpha c \<longleftrightarrow> (let n = of_char c :: nat in 65 \<le> n \<and> n \<le> 90 \<or> 97 \<le> n \<and> n \<le> 122)"

definition is_space :: "char \<Rightarrow> bool" where
  "is_space c \<longleftrightarrow> (let n = of_char c :: nat in n = 32 \<or> 9 \<le> n \<and> n \<le> 13)"

text \<open>
  \<open>strtoul\<close> with a 32-bit \<open>unsigned long\<close>: leading white space, a sign, in base 16 an optional
  prefix, then the longest run of digits; too large a value saturates, a minus sign negates.
\<close>

definition read_sign :: "string \<Rightarrow> bool \<times> string" where
  "read_sign s = (case dropWhile is_space s of
     c # t \<Rightarrow> if c = CHR ''-'' then (True, t) else if c = CHR ''+'' then (False, t) else (False, c # t)
   | [] \<Rightarrow> (False, []))"

definition read_prefix :: "nat \<Rightarrow> string \<Rightarrow> string" where
  "read_prefix base s = (case s of
     a # b # c # t \<Rightarrow> if base = 16 \<and> a = CHR ''0'' \<and> tolower b = CHR ''x'' \<and> digit_val c < 16 then c # t else s
   | _ \<Rightarrow> s)"

definition strtoul :: "nat \<Rightarrow> string \<Rightarrow> u32" where
  "strtoul base s = (let (neg, t) = read_sign s;
       v = digits_val base (takeWhile (\<lambda>c. digit_val c < base) (read_prefix base t)) in
     if 2 ^ 32 \<le> v then - 1 else if neg then - word_of_nat v else word_of_nat v)"

text \<open>\<open>atoi\<close> with a 32-bit \<open>int\<close>, saturating.\<close>

definition atoi :: "string \<Rightarrow> int" where
  "atoi s = (let (neg, t) = read_sign s;
       v = int (digits_val 10 (takeWhile (\<lambda>c. digit_val c < 10) t)) in
     if neg then max (- v) (- (2 ^ 31)) else min v (2 ^ 31 - 1))"

lemma find_upt_Some:
  "List.find P [a..<b] = Some i \<longleftrightarrow> a \<le> i \<and> i < b \<and> P i \<and> (\<forall>j. a \<le> j \<and> j < i \<longrightarrow> \<not> P j)"
proof (induction "b - a" arbitrary: a)
  case 0
  then show ?case by auto
next
  case (Suc n)
  then have ab: "a < b" by simp
  then have "[a..<b] = a # [Suc a..<b]" by (simp add: upt_conv_Cons)
  moreover have "List.find P [Suc a..<b] = Some i \<longleftrightarrow> Suc a \<le> i \<and> i < b \<and> P i \<and> (\<forall>j. Suc a \<le> j \<and> j < i \<longrightarrow> \<not> P j)"
    using Suc by simp
  moreover have "(\<forall>j. a \<le> j \<and> j < i \<longrightarrow> \<not> P j) \<longleftrightarrow> (a < i \<longrightarrow> \<not> P a) \<and> (\<forall>j. Suc a \<le> j \<and> j < i \<longrightarrow> \<not> P j)"
    by (auto simp: Suc_le_eq) (metis le_neq_implies_less less_le_trans)
  ultimately show ?case using ab by (auto simp: Suc_le_eq)
qed

lemma find_upt_None: "List.find P [a..<b] = None \<longleftrightarrow> (\<forall>j. a \<le> j \<and> j < b \<longrightarrow> \<not> P j)"
  by (auto simp: find_None_iff)

lemma find_text_Some:
  "find_text pat s from = Some i \<Longrightarrow> from \<le> i \<and> i + length pat \<le> length s \<and> take (length pat) (drop i s) = pat"
  by (auto simp: find_text_def find_upt_Some)

text \<open>A single character is found behind a part that does not have it.\<close>

lemma find_char_split:
  assumes "c \<notin> set mid" "length pre = from"
  shows "find_text [c] (pre @ mid @ c # post) from = Some (from + length mid)"
proof -
  have "take 1 (drop j (pre @ mid @ c # post)) \<noteq> [c]" if "from \<le> j" "j < from + length mid" for j
  proof -
    have "drop j (pre @ mid @ c # post) = drop (j - from) mid @ c # post" using that assms(2) by simp
    moreover have "j - from < length mid" using that by linarith
    then obtain x xs where "drop (j - from) mid = x # xs" by (cases "drop (j - from) mid") auto
    moreover from this have "x \<in> set mid" using in_set_dropD [of x "j - from" mid] by simp
    ultimately show ?thesis using assms(1) by auto
  qed
  then show ?thesis unfolding find_text_def find_upt_Some using assms(2) by auto
qed

lemma find_char_none: "c \<notin> set mid \<Longrightarrow> length pre = from \<Longrightarrow> find_text [c] (pre @ mid) from = None"
proof -
  assume a: "c \<notin> set mid" "length pre = from"
  have "take 1 (drop j (pre @ mid)) \<noteq> [c]" if "from \<le> j" "j < length (pre @ mid)" for j
    using a that in_set_dropD [of c "j - from" mid]
    by (cases "drop (j - from) mid") auto
  then show ?thesis by (auto simp: find_text_def find_upt_None)
qed

lemma digit_val_not_digit: "digit_val (CHR '';'') = 16" "digit_val (CHR 0x0D) = 16"
  by (simp_all add: digit_val_def Let_def)

lemma numeral_text_all_digits: "2 \<le> base \<Longrightarrow> base \<le> 16 \<Longrightarrow> x \<in> set (numeral_text base n) \<Longrightarrow> digit_val x < base"
  using numeral_text_digits [of base x n] by auto

lemma takeWhile_numeral: "2 \<le> base \<Longrightarrow> base \<le> 16 \<Longrightarrow>
    takeWhile (\<lambda>c. digit_val c < base) (numeral_text base n) = numeral_text base n"
  by (rule iffD2 [OF takeWhile_eq_all_conv]) (auto intro: numeral_text_all_digits)

lemma digit_not_space: "d < 16 \<Longrightarrow> \<not> is_space (digit d) \<and> digit d \<noteq> CHR ''-'' \<and> digit d \<noteq> CHR ''+''"
  using of_char_digit [of d] by (auto simp: is_space_def Let_def split: if_splits)

lemma read_sign_numeral: "2 \<le> base \<Longrightarrow> base \<le> 16 \<Longrightarrow> read_sign (numeral_text base n @ rest) = (False, numeral_text base n @ rest)"
proof -
  assume b: "2 \<le> base" "base \<le> 16"
  obtain c t where ct: "numeral_text base n = c # t" using numeral_text_nonempty by (metis neq_Nil_conv)
  then obtain d where "d < base" "c = digit d" using numeral_text_digits [OF b, of c n] by auto
  then show ?thesis using digit_not_space [of d] b by (simp add: read_sign_def ct)
qed

lemma digit_tolower: "d < 16 \<Longrightarrow> tolower (digit d) \<noteq> CHR ''x''"
  using of_char_digit [of d] by (auto simp: tolower_def Let_def split: if_splits)

lemma strtoul_numeral:
  assumes "2 \<le> base" "base \<le> 16" "n < 2 ^ 32"
  shows "strtoul base (numeral_text base n) = word_of_nat n"
proof -
  let ?s = "numeral_text base n"
  have "read_prefix base ?s = ?s"
  proof (cases "\<exists>a b c t. ?s = a # b # c # t")
    case True
    then obtain a b c t where s: "?s = a # b # c # t" by blast
    then obtain d where "d < base" "b = digit d" using numeral_text_digits [OF assms(1,2), of b n] by auto
    then show ?thesis using s digit_tolower [of d] assms by (auto simp: read_prefix_def)
  next
    case False
    then show ?thesis by (auto simp: read_prefix_def split: list.split)
  qed
  then show ?thesis
    using read_sign_numeral [OF assms(1,2), of n "[]"] assms digits_val_numeral_text
    by (simp add: strtoul_def takeWhile_numeral)
qed

lemma atoi_numeral: "n < 2 ^ 31 \<Longrightarrow> atoi (dec_text n) = int n"
proof -
  assume n: "n < 2 ^ 31"
  show ?thesis
    using read_sign_numeral [of 10 n "[]"] n digits_val_numeral_text [of 10 n] by (simp add: atoi_def takeWhile_numeral)
qed

end
