(* ===== verification/Knd_Model.thy ===== *)
theory Knd_Model
  imports Knd_Wfp Knd_Text
begin

text \<open>
  The application's model of the captured traffic
  (\<^verbatim>\<open>src/app/src/app_model.h\<close>, \<^verbatim>\<open>src/app/src/app_model.cpp\<close>): the flows with their payload, the
  statistics, the chronological packet log, and the formatting helpers. \<open>ingest\<close> is given one
  record as the bytes that the ring's consumer hands out; a read outside these bytes is the
  result \<open>None\<close>. Conversion from UTF-16 and the conversion of file times to local time are
  parameters; the user interface's clock is a type parameter, because its values are only
  stored.
\<close>

section \<open>Formatting\<close>

definition addr_word :: "bytes \<Rightarrow> nat \<Rightarrow> nat" where
  "addr_word addr i = unat (addr ! (2 * i)) * 256 + unat (addr ! (2 * i + 1))"

definition KndFormatAddr :: "bytes \<Rightarrow> u8 \<Rightarrow> string" where
  "KndFormatAddr addr ipVersion =
     (if ipVersion = KND_IPV6
      then snprintf 64 (join '':'' (map (\<lambda>i. hex_text (addr_word addr i)) [0, 1, 2, 3, 4, 5, 6, 7]))
      else snprintf 64 (join ''.'' (map (\<lambda>i. dec_text (unat (addr ! i))) [0, 1, 2, 3])))"

definition KndFormatProto :: "u8 \<Rightarrow> string" where
  "KndFormatProto protocol =
     (if protocol = KND_PROTO_TCP then ''TCP'' else if protocol = KND_PROTO_UDP then ''UDP''
      else snprintf 16 (''ip:'' @ dec_text (unat protocol)))"

text \<open>The parameters convert a file time to local time and to hour, minute and second.\<close>

definition KndFormatTime :: "(u64 \<Rightarrow> u64 option) \<Rightarrow> (u64 \<Rightarrow> (u16 \<times> u16 \<times> u16) option) \<Rightarrow> u64 \<Rightarrow> string" where
  "KndFormatTime to_local to_system ticks =
     (case Option.bind (to_local ticks) to_system of
        None \<Rightarrow> ''--:--:--''
      | Some (h, mi, s) \<Rightarrow>
          (let ms = unat ticks div 10000 mod 1000 in
             snprintf 32 (pad0 2 (dec_text (unat h)) @ '':'' @ pad0 2 (dec_text (unat mi)) @ '':''
               @ pad0 2 (dec_text (unat s)) @ ''.'' @ pad0 3 (dec_text ms))))"

text \<open>
  A 64-bit integer converted to a double keeps 53 significant bits, rounded to nearest, ties to
  even. Division by a power of 1024 is then exact, so a scaled value is the pair of the
  rounded integer and the exponent; one decimal is printed, correctly rounded.
\<close>

definition div_round :: "nat \<Rightarrow> nat \<Rightarrow> nat" where
  "div_round a b = (let q = a div b; r = a mod b in
     if 2 * r < b \<or> (2 * r = b \<and> even q) then q else Suc q)"

fun bits :: "nat \<Rightarrow> nat" where
  "bits n = (if n = 0 then 0 else Suc (bits (n div 2)))"

declare bits.simps [simp del]

definition to_double :: "nat \<Rightarrow> nat" where
  "to_double n = (let e = bits n - 53 in div_round n (2 ^ e) * 2 ^ e)"

function unit_loop :: "nat \<Rightarrow> nat \<Rightarrow> nat" where
  "unit_loop v u = (if 1024 * 1024 ^ u \<le> v \<and> u < 4 then unit_loop v (Suc u) else u)"
  by auto
termination by (relation "measure (\<lambda>(v, u). 4 - u)") auto

declare unit_loop.simps [simp del]

definition KndFormatBytes :: "u64 \<Rightarrow> string" where
  "KndFormatBytes n =
     (let units = [''B'', ''KB'', ''MB'', ''GB'', ''TB''];
          v = to_double (unat n);
          u = unit_loop v 0 in
        if u = 0 then snprintf 32 (dec_text (unat n) @ '' B'')
        else (let t = div_round (10 * v) (1024 ^ u) in
          snprintf 32 (dec_text (t div 10) @ ''.'' @ dec_text (t mod 10) @ '' '' @ units ! u)))"

text \<open>The parameter is the UTF-8 text of a string of 16-bit characters, empty when it fails.\<close>

definition Utf16ToUtf8 :: "(u16 list \<Rightarrow> string) \<Rightarrow> u16 list \<Rightarrow> string" where
  "Utf16ToUtf8 utf8 s = (if s = [] then [] else utf8 s)"

section \<open>State\<close>

record 't knd_flow =
  kf_flowId :: u64
  kf_processId :: u64
  kf_protocol :: u8
  kf_ipVersion :: u8
  kf_direction :: u8
  kf_localPort :: u16
  kf_remotePort :: u16
  kf_localAddr :: bytes
  kf_remoteAddr :: bytes
  kf_processName :: string
  kf_processPath :: string
  kf_firstTs :: u64
  kf_lastTs :: u64
  kf_bytesOut :: u64
  kf_bytesIn :: u64
  kf_records :: u64
  kf_closed :: bool
  kf_payload :: "bytes list"
  kf_truncated :: "bool list"
  kf_uiCreated :: 't
  kf_uiActivity :: 't

record knd_model_stats =
  ms_totalRecords :: u64
  ms_connOpens :: u64
  ms_connCloses :: u64
  ms_dataRecords :: u64
  ms_payloadBytes :: u64
  ms_outBytes :: u64
  ms_inBytes :: u64
  ms_sizeHist :: "u64 list"

record knd_packet =
  pk_no :: u64
  pk_ts :: u64
  pk_flowId :: u64
  pk_type :: u16
  pk_direction :: u8
  pk_length :: u32
  pk_info :: string
  pk_preview :: bytes

record 't knd_model =
  flows :: "'t knd_flow list"
  flow_index :: "u64 \<rightharpoonup> nat"
  stats :: knd_model_stats
  packets :: "knd_packet list"
  packetNo :: u64
  payloadCap :: nat
  packetCap :: nat

definition zero_stats :: knd_model_stats where
  "zero_stats = \<lparr>ms_totalRecords = 0, ms_connOpens = 0, ms_connCloses = 0, ms_dataRecords = 0,
     ms_payloadBytes = 0, ms_outBytes = 0, ms_inBytes = 0, ms_sizeHist = [0, 0, 0, 0, 0, 0]\<rparr>"

definition new_flow :: "u64 \<Rightarrow> 't \<Rightarrow> 't knd_flow" where
  "new_flow flowId now = \<lparr>kf_flowId = flowId, kf_processId = 0, kf_protocol = 0, kf_ipVersion = 0,
     kf_direction = 0, kf_localPort = 0, kf_remotePort = 0, kf_localAddr = replicate 16 0,
     kf_remoteAddr = replicate 16 0, kf_processName = [], kf_processPath = [], kf_firstTs = 0,
     kf_lastTs = 0, kf_bytesOut = 0, kf_bytesIn = 0, kf_records = 0, kf_closed = False,
     kf_payload = [[], []], kf_truncated = [False, False], kf_uiCreated = now, kf_uiActivity = now\<rparr>"

definition new_model :: "'t knd_model" where
  "new_model = \<lparr>flows = [], flow_index = Map.empty, stats = zero_stats, packets = [], packetNo = 0,
     payloadCap = 4 * 1024 * 1024, packetCap = 50000\<rparr>"

section \<open>Operations\<close>

text \<open>A reference to a flow is its position in the vector.\<close>

definition getOrCreate :: "u64 \<Rightarrow> 't \<Rightarrow> 't knd_model \<Rightarrow> nat \<times> 't knd_model" where
  "getOrCreate flowId now mdl = (case flow_index mdl flowId of
     Some i \<Rightarrow> (i, mdl)
   | None \<Rightarrow> (length (flows mdl),
       mdl\<lparr>flows := flows mdl @ [new_flow flowId now],
           flow_index := (flow_index mdl)(flowId \<mapsto> length (flows mdl))\<rparr>))"

definition find_flow :: "u64 \<Rightarrow> 't knd_model \<Rightarrow> 't knd_flow option" where
  "find_flow flowId mdl = map_option (\<lambda>i. flows mdl ! i) (flow_index mdl flowId)"

definition clear :: "'t knd_model \<Rightarrow> 't knd_model" where
  "clear mdl = mdl\<lparr>flows := [], flow_index := Map.empty, stats := zero_stats, packets := [], packetNo := 0\<rparr>"

definition printable :: "u8 \<Rightarrow> char" where
  "printable c = (if 0x20 \<le> c \<and> c < 0x7f then chr c else CHR ''.'')"

text \<open>The text and the preview of one entry; \<open>data\<close> is the memory behind the data pointer.\<close>

definition packet_info :: "u16 \<Rightarrow> 't knd_flow \<Rightarrow> u8 \<Rightarrow> u32 \<Rightarrow> bytes option \<Rightarrow> (string \<times> bytes) option" where
  "packet_info type f dir len data =
     (let remote = KndFormatAddr (kf_remoteAddr f) (kf_ipVersion f);
          port = dec_text (unat (kf_remotePort f)) in
      if type = KND_REC_CONN_OPEN
      then Some (snprintf 160 (''Connect  '' @ remote @ '':'' @ port @ ''  '' @ c_str (kf_processName f)), [])
      else if type = KND_REC_CONN_CLOSE
      then Some (snprintf 160 (''Close  '' @ remote @ '':'' @ port), [])
      else
        (let pv = (if unat len < 64 then unat len else 64);
             arrow = (if dir = KND_DIR_INBOUND then ''<-'' else ''->'');
             head = snprintf 160 (arrow @ ''  '' @ dec_text (unat len) @ '' B  '') in
         case data of
           None \<Rightarrow> if pv = 0 then Some (head, []) else None
         | Some bs \<Rightarrow> if length bs < pv then None
             else Some (head @ map printable (take (min pv 48) bs), take pv bs)))"

definition pushPacket ::
  "knd_record \<Rightarrow> 't knd_flow \<Rightarrow> u8 \<Rightarrow> u32 \<Rightarrow> bytes option \<Rightarrow> 't knd_model \<Rightarrow> 't knd_model option" where
  "pushPacket rec f dir len data mdl =
     map_option (\<lambda>(info, preview).
       (let p = \<lparr>pk_no = packetNo mdl + 1, pk_ts = rec_timestamp rec, pk_flowId = kf_flowId f,
                 pk_type = rec_type rec, pk_direction = dir, pk_length = len, pk_info = info,
                 pk_preview = preview\<rparr>;
            ps = packets mdl @ [p] in
          mdl\<lparr>packetNo := packetNo mdl + 1, packets := (if packetCap mdl < length ps then tl ps else ps)\<rparr>))
       (packet_info (rec_type rec) f dir len data)"

definition after_slash :: "string \<Rightarrow> string" where
  "after_slash s = rev (takeWhile (\<lambda>c. c \<noteq> CHR 0x5C \<and> c \<noteq> CHR ''/'') (rev s))"

definition open_flow :: "(u16 list \<Rightarrow> string) \<Rightarrow> knd_record \<Rightarrow> knd_conn_payload \<Rightarrow> u16 list \<Rightarrow> 't knd_flow \<Rightarrow> 't knd_flow" where
  "open_flow utf8 rec p path f =
     (let f1 = f\<lparr>kf_processId := cp_processId p, kf_protocol := cp_protocol p,
                kf_ipVersion := cp_ipVersion p, kf_direction := cp_direction p,
                kf_localPort := cp_localPort p, kf_remotePort := cp_remotePort p,
                kf_localAddr := cp_localAddr p, kf_remoteAddr := cp_remoteAddr p,
                kf_firstTs := (if kf_firstTs f = 0 then rec_timestamp rec else kf_firstTs f),
                kf_lastTs := rec_timestamp rec\<rparr> in
      if 0 < cp_processPathChars p
      then f1\<lparr>kf_processPath := Utf16ToUtf8 utf8 path,
              kf_processName := after_slash (Utf16ToUtf8 utf8 path)\<rparr>
      else f1)"

definition close_flow :: "knd_record \<Rightarrow> knd_conn_payload \<Rightarrow> 't knd_flow \<Rightarrow> 't knd_flow" where
  "close_flow rec p f = f\<lparr>kf_closed := True, kf_bytesIn := cp_bytesIn p, kf_bytesOut := cp_bytesOut p,
     kf_lastTs := rec_timestamp rec\<rparr>"

definition flow_dir :: "u8 \<Rightarrow> nat" where
  "flow_dir d = (if d = KND_DIR_INBOUND then 1 else 0)"

text \<open>Appends what fits; the result is \<open>None\<close> when the appended bytes are not all there.\<close>

definition append_payload :: "nat \<Rightarrow> nat \<Rightarrow> nat \<Rightarrow> bytes \<Rightarrow> 't knd_flow \<Rightarrow> 't knd_flow option" where
  "append_payload cap dir len data f =
     (let buf = kf_payload f ! dir in
      if length buf < cap
      then (let room = cap - length buf; n = (if len < room then len else room) in
        if length data < n then None
        else Some (f\<lparr>kf_payload := (kf_payload f)[dir := buf @ take n data],
                     kf_truncated := (if n < len then (kf_truncated f)[dir := True] else kf_truncated f)\<rparr>))
      else Some (f\<lparr>kf_truncated := (kf_truncated f)[dir := True]\<rparr>))"

definition data_flow ::
  "nat \<Rightarrow> knd_record \<Rightarrow> 't \<Rightarrow> knd_data_payload \<Rightarrow> bytes \<Rightarrow> 't knd_flow \<Rightarrow> 't knd_flow option" where
  "data_flow cap rec now dp data f =
     (let dir = flow_dir (dp_direction dp); n = ucast (dp_dataLength dp) in
      append_payload cap dir (unat (dp_dataLength dp)) data
        (f\<lparr>kf_bytesIn := (if dir = 1 then kf_bytesIn f + n else kf_bytesIn f),
           kf_bytesOut := (if dir = 1 then kf_bytesOut f else kf_bytesOut f + n),
           kf_records := kf_records f + 1, kf_lastTs := rec_timestamp rec, kf_uiActivity := now\<rparr>))"

definition size_bucket :: "u32 \<Rightarrow> nat" where
  "size_bucket L = (if L < 128 then 0 else if L < 512 then 1 else if L < 1500 then 2
     else if L < 4096 then 3 else if L < 16384 then 4 else 5)"

definition count_data :: "nat \<Rightarrow> u32 \<Rightarrow> knd_model_stats \<Rightarrow> knd_model_stats" where
  "count_data dir L st = (let n = ucast L in
     st\<lparr>ms_inBytes := (if dir = 1 then ms_inBytes st + n else ms_inBytes st),
        ms_outBytes := (if dir = 1 then ms_outBytes st else ms_outBytes st + n),
        ms_sizeHist := (ms_sizeHist st)[size_bucket L := ms_sizeHist st ! size_bucket L + 1],
        ms_dataRecords := ms_dataRecords st + 1, ms_payloadBytes := ms_payloadBytes st + n\<rparr>)"

definition set_flow :: "nat \<Rightarrow> 't knd_flow \<Rightarrow> 't knd_model \<Rightarrow> 't knd_model" where
  "set_flow i f mdl = mdl\<lparr>flows := (flows mdl)[i := f]\<rparr>"

definition ingest_open :: "(u16 list \<Rightarrow> string) \<Rightarrow> knd_record \<Rightarrow> bytes \<Rightarrow> 't \<Rightarrow> 't knd_model \<Rightarrow> 't knd_model option" where
  "ingest_open utf8 rec body now mdl =
     (let p = dec_conn body; chars = unat (cp_processPathChars p) in
      if length body < 80 + 2 * chars then None
      else (let (i, m1) = getOrCreate (cp_flowId p) now mdl;
                f = open_flow utf8 rec p (get_wchars body 80 chars) (flows m1 ! i) in
        map_option (\<lambda>m2. m2\<lparr>stats := (stats m2)\<lparr>ms_connOpens := ms_connOpens (stats m2) + 1\<rparr>\<rparr>)
          (pushPacket rec f (kf_direction f) 0 None (set_flow i f m1))))"

definition ingest_close :: "knd_record \<Rightarrow> bytes \<Rightarrow> 't \<Rightarrow> 't knd_model \<Rightarrow> 't knd_model option" where
  "ingest_close rec body now mdl =
     (let p = dec_conn body in
      if length body < 72 then None
      else (let (i, m1) = getOrCreate (cp_flowId p) now mdl;
                f = close_flow rec p (flows m1 ! i) in
        map_option (\<lambda>m2. m2\<lparr>stats := (stats m2)\<lparr>ms_connCloses := ms_connCloses (stats m2) + 1\<rparr>\<rparr>)
          (pushPacket rec f 0 0 None (set_flow i f m1))))"

definition ingest_data :: "knd_record \<Rightarrow> bytes \<Rightarrow> 't \<Rightarrow> 't knd_model \<Rightarrow> 't knd_model option" where
  "ingest_data rec body now mdl =
     (let dp = dec_data body; data = drop sizeof_DATA_PAYLOAD body in
      if length body < sizeof_DATA_PAYLOAD then None
      else (let (i, m1) = getOrCreate (dp_flowId dp) now mdl in
        case data_flow (payloadCap m1) rec now dp data (flows m1 ! i) of
          None \<Rightarrow> None
        | Some f \<Rightarrow> map_option
            (\<lambda>m2. m2\<lparr>stats := count_data (flow_dir (dp_direction dp)) (dp_dataLength dp) (stats m2)\<rparr>)
            (pushPacket rec f (dp_direction dp) (dp_dataLength dp) (Some data) (set_flow i f m1))))"

definition ingest :: "(u16 list \<Rightarrow> string) \<Rightarrow> bytes \<Rightarrow> 't \<Rightarrow> 't knd_model \<Rightarrow> 't knd_model option" where
  "ingest utf8 r now mdl =
     (if length r < sizeof_RECORD then None
      else (let rec = dec_record r; body = drop sizeof_RECORD r;
                m0 = mdl\<lparr>stats := (stats mdl)\<lparr>ms_totalRecords := ms_totalRecords (stats mdl) + 1\<rparr>\<rparr> in
        if rec_type rec = KND_REC_CONN_OPEN then ingest_open utf8 rec body now m0
        else if rec_type rec = KND_REC_CONN_CLOSE then ingest_close rec body now m0
        else if rec_type rec = KND_REC_DATA then ingest_data rec body now m0
        else Some m0))"

section \<open>Formatting: bounds and round trips\<close>

lemma addr_word_lt: "addr_word addr i < 65536"
proof -
  have "unat (addr ! (2 * i)) \<le> 255" "unat (addr ! (2 * i + 1)) \<le> 255"
    using unat_u8_lt [of "addr ! (2 * i)"] unat_u8_lt [of "addr ! (2 * i + 1)"] by linarith+
  then show ?thesis by (simp add: addr_word_def)
qed

lemma dec_byte_length: "length (dec_text (unat (b :: u8))) \<le> 3"
  using less_trans [OF unat_u8_lt [of b], of 1000] by (intro length_numeral_text) auto

lemma hex_word_length: "n < 65536 \<Longrightarrow> length (hex_text n) \<le> 4"
  by (intro length_numeral_text) auto

text \<open>Neither form of an address is cut by the 64-byte buffer.\<close>

lemma KndFormatAddr_whole:
  "KndFormatAddr addr ver =
     (if ver = KND_IPV6 then join '':'' (map (\<lambda>i. hex_text (addr_word addr i)) [0, 1, 2, 3, 4, 5, 6, 7])
      else join ''.'' (map (\<lambda>i. dec_text (unat (addr ! i))) [0, 1, 2, 3]))"
proof -
  have "length (join '':'' (map (\<lambda>i. hex_text (addr_word addr i)) [0, 1, 2, 3, 4, 5, 6, 7])) \<le> 8 * (4 + 1)"
    by (rule order_trans [OF length_join [where k = 4]]) (auto simp: hex_word_length addr_word_lt)
  moreover have "length (join ''.'' (map (\<lambda>i. dec_text (unat (addr ! i))) [0, 1, 2, 3])) \<le> 4 * (3 + 1)"
    by (rule order_trans [OF length_join [where k = 3]]) (auto simp: dec_byte_length)
  ultimately show ?thesis unfolding KndFormatAddr_def by (simp del: join.simps list.map)
qed

lemma split_addr:
  "map (digits_val 16) (split_at (CHR '':'') (KndFormatAddr addr KND_IPV6)) = map (addr_word addr) [0, 1, 2, 3, 4, 5, 6, 7]"
  "ver \<noteq> KND_IPV6 \<Longrightarrow>
     map (digits_val 10) (split_at (CHR ''.'') (KndFormatAddr addr ver)) = map (\<lambda>i. unat (addr ! i)) [0, 1, 2, 3]"
proof -
  have "split_at (CHR '':'') (KndFormatAddr addr KND_IPV6)
      = map (\<lambda>i. hex_text (addr_word addr i)) [0, 1, 2, 3, 4, 5, 6, 7]"
    unfolding KndFormatAddr_whole if_P [OF refl]
    by (rule split_at_join) (auto simp: numeral_text_no_sep)
  then show "map (digits_val 16) (split_at (CHR '':'') (KndFormatAddr addr KND_IPV6)) = map (addr_word addr) [0, 1, 2, 3, 4, 5, 6, 7]"
    by (simp add: digits_val_numeral_text)
next
  assume ver: "ver \<noteq> KND_IPV6"
  have "split_at (CHR ''.'') (KndFormatAddr addr ver) = map (\<lambda>i. dec_text (unat (addr ! i))) [0, 1, 2, 3]"
    unfolding KndFormatAddr_whole if_not_P [OF ver]
    by (rule split_at_join) (auto simp: numeral_text_no_sep)
  then show "map (digits_val 10) (split_at (CHR ''.'') (KndFormatAddr addr ver)) = map (\<lambda>i. unat (addr ! i)) [0, 1, 2, 3]"
    by (simp add: digits_val_numeral_text)
qed

lemma div_round_close: "0 < b \<Longrightarrow> 2 * (div_round a b * b) \<le> 2 * a + b \<and> 2 * a \<le> 2 * (div_round a b * b) + b"
proof -
  assume b: "0 < b"
  have a: "a = a div b * b + a mod b" by simp
  have "a mod b < b" using b by simp
  moreover define q r where "q = a div b" and "r = a mod b"
  ultimately have qr: "a = q * b + r" "r < b" using a by auto
  have "div_round a b = q \<and> 2 * r \<le> b \<or> div_round a b = Suc q \<and> b \<le> 2 * r"
    by (auto simp: div_round_def Let_def q_def r_def)
  then show ?thesis using qr by (auto simp: algebra_simps)
qed

lemma div_round_one [simp]: "div_round a (Suc 0) = a"
  by (simp add: div_round_def)

lemma bits_le: "n < 2 ^ k \<Longrightarrow> bits n \<le> k"
proof (induction k arbitrary: n)
  case 0
  then show ?case by (simp add: bits.simps)
next
  case (Suc k)
  then have "n div 2 < 2 ^ k" by (simp add: div_less_iff_less_mult)
  with Suc.IH show ?case by (subst bits.simps) simp
qed

lemma to_double_exact: "n < 2 ^ 53 \<Longrightarrow> to_double n = n"
  using bits_le [of n 53] by (simp add: to_double_def Let_def)

lemma unit_loop_spec:
  "u \<le> 4 \<Longrightarrow> (u = 0 \<or> 1024 ^ u \<le> v) \<Longrightarrow>
   unit_loop v u \<le> 4 \<and> (unit_loop v u = 0 \<or> 1024 ^ unit_loop v u \<le> v)
   \<and> (unit_loop v u = 4 \<or> v < 1024 * 1024 ^ unit_loop v u)"
proof (induction v u rule: unit_loop.induct)
  case (1 v u)
  then show ?case by (cases "1024 * 1024 ^ u \<le> v \<and> u < 4") (auto simp: unit_loop.simps [of v u])
qed

section \<open>The model's invariant\<close>

definition flow_wf :: "nat \<Rightarrow> 't knd_flow \<Rightarrow> bool" where
  "flow_wf cap f \<longleftrightarrow> length (kf_localAddr f) = 16 \<and> length (kf_remoteAddr f) = 16
     \<and> length (kf_payload f) = 2 \<and> length (kf_truncated f) = 2
     \<and> (\<forall>p \<in> set (kf_payload f). length p \<le> cap)"

definition index_wf :: "'t knd_model \<Rightarrow> bool" where
  "index_wf mdl \<longleftrightarrow> (\<forall>fid i. flow_index mdl fid = Some i
     \<longleftrightarrow> i < length (flows mdl) \<and> kf_flowId (flows mdl ! i) = fid)"

definition log_wf :: "'t knd_model \<Rightarrow> bool" where
  "log_wf mdl \<longleftrightarrow> length (packets mdl) \<le> packetCap mdl
     \<and> map pk_no (packets mdl) = map (\<lambda>k. packetNo mdl - of_nat k) (rev [0..<length (packets mdl)])"

definition stats_wf :: "knd_model_stats \<Rightarrow> bool" where
  "stats_wf st \<longleftrightarrow> length (ms_sizeHist st) = 6 \<and> sum_list (ms_sizeHist st) = ms_dataRecords st
     \<and> ms_inBytes st + ms_outBytes st = ms_payloadBytes st"

definition model_wf :: "'t knd_model \<Rightarrow> bool" where
  "model_wf mdl \<longleftrightarrow> index_wf mdl \<and> (\<forall>f \<in> set (flows mdl). flow_wf (payloadCap mdl) f)
     \<and> log_wf mdl \<and> stats_wf (stats mdl)"

lemma model_wfD:
  assumes "model_wf mdl"
  shows "index_wf mdl" "\<And>i. i < length (flows mdl) \<Longrightarrow> flow_wf (payloadCap mdl) (flows mdl ! i)"
    "log_wf mdl" "stats_wf (stats mdl)"
  using assms by (simp_all add: model_wf_def)

lemma flow_wf_new: "flow_wf cap (new_flow fid now)"
  by (simp add: flow_wf_def new_flow_def)

lemma stats_wf_zero: "stats_wf zero_stats"
  by (simp add: stats_wf_def zero_stats_def)

lemma model_wf_new: "model_wf new_model"
  by (simp add: model_wf_def new_model_def index_wf_def log_wf_def stats_wf_zero)

lemma model_wf_clear: "model_wf (clear mdl)"
  by (simp add: model_wf_def clear_def index_wf_def log_wf_def stats_wf_zero)

text \<open>The flow for an id, found or made: what it is and what stays.\<close>

lemma getOrCreate_spec:
  assumes "model_wf mdl" "getOrCreate fid now mdl = (i, m1)"
  shows "model_wf m1" "i < length (flows m1)" "kf_flowId (flows m1 ! i) = fid" "flow_index m1 fid = Some i"
    "flows m1 ! i = (case find_flow fid mdl of Some f \<Rightarrow> f | None \<Rightarrow> new_flow fid now)"
    "\<And>g. g \<noteq> fid \<Longrightarrow> find_flow g m1 = find_flow g mdl"
    "payloadCap m1 = payloadCap mdl" "stats m1 = stats mdl"
proof -
  note ix = model_wfD(1) [OF assms(1), unfolded index_wf_def]
  have all: "model_wf m1 \<and> i < length (flows m1) \<and> kf_flowId (flows m1 ! i) = fid \<and> flow_index m1 fid = Some i
    \<and> flows m1 ! i = (case find_flow fid mdl of Some f \<Rightarrow> f | None \<Rightarrow> new_flow fid now)
    \<and> (\<forall>g. g \<noteq> fid \<longrightarrow> find_flow g m1 = find_flow g mdl) \<and> payloadCap m1 = payloadCap mdl \<and> stats m1 = stats mdl"
  proof (cases "flow_index mdl fid")
    case (Some j)
    then have "j < length (flows mdl)" "kf_flowId (flows mdl ! j) = fid" using ix by simp_all
    moreover have "m1 = mdl" "i = j" using Some assms(2) by (simp_all add: getOrCreate_def)
    ultimately show ?thesis using Some assms(1) by (simp add: find_flow_def)
  next
    case None
    then have m1: "m1 = mdl\<lparr>flows := flows mdl @ [new_flow fid now],
        flow_index := (flow_index mdl)(fid \<mapsto> length (flows mdl))\<rparr>" "i = length (flows mdl)"
      using assms(2) by (auto simp: getOrCreate_def)
    have no: "kf_flowId (flows mdl ! j) \<noteq> fid" if "j < length (flows mdl)" for j
      using None ix that by (metis option.distinct(1))
    have lt: "flow_index mdl g = Some j \<Longrightarrow> j < length (flows mdl)" for g j using ix by simp
    have new: "kf_flowId (new_flow fid now) = fid" by (simp add: new_flow_def)
    have "index_wf m1"
      unfolding index_wf_def m1 using ix no new by (auto simp: nth_append less_Suc_eq)
    moreover have "log_wf m1" using model_wfD(3) [OF assms(1)] by (simp add: log_wf_def m1)
    moreover have "\<forall>f \<in> set (flows m1). flow_wf (payloadCap m1) f"
      using assms(1) by (simp add: m1 model_wf_def flow_wf_new)
    moreover have "find_flow g m1 = find_flow g mdl" if "g \<noteq> fid" for g
      using that lt [of g] by (cases "flow_index mdl g") (auto simp: find_flow_def m1 nth_append)
    ultimately show ?thesis
      using assms(1) None new by (simp add: model_wf_def m1 find_flow_def)
  qed
  then show "model_wf m1" "i < length (flows m1)" "kf_flowId (flows m1 ! i) = fid" "flow_index m1 fid = Some i"
    "flows m1 ! i = (case find_flow fid mdl of Some f \<Rightarrow> f | None \<Rightarrow> new_flow fid now)"
    "\<And>g. g \<noteq> fid \<Longrightarrow> find_flow g m1 = find_flow g mdl"
    "payloadCap m1 = payloadCap mdl" "stats m1 = stats mdl"
    by blast+
qed

lemma set_flow_spec:
  assumes "model_wf mdl" "i < length (flows mdl)" "flow_wf (payloadCap mdl) f" "kf_flowId f = kf_flowId (flows mdl ! i)"
  shows "model_wf (set_flow i f mdl)"
    "find_flow g (set_flow i f mdl) = (if g = kf_flowId f then Some f else find_flow g mdl)"
proof -
  note ix = model_wfD(1) [OF assms(1), unfolded index_wf_def]
  have "index_wf (set_flow i f mdl)"
    unfolding index_wf_def using ix assms(2,4) by (auto simp: set_flow_def nth_list_update)
  moreover have "\<forall>g \<in> set ((flows mdl)[i := f]). flow_wf (payloadCap mdl) g"
    using assms set_update_subset_insert [of "flows mdl" i f] by (auto simp: model_wf_def)
  ultimately show "model_wf (set_flow i f mdl)"
    using assms(1) by (simp add: model_wf_def set_flow_def log_wf_def)
  have "flow_index mdl g = Some j \<Longrightarrow> j = i \<longleftrightarrow> g = kf_flowId f" for j
    using ix assms(2,4) by (metis option.inject)
  moreover have "flow_index mdl (kf_flowId f) = Some i" using ix assms(2,4) by simp
  ultimately show "find_flow g (set_flow i f mdl) = (if g = kf_flowId f then Some f else find_flow g mdl)"
    using assms(2) by (cases "flow_index mdl g") (auto simp: find_flow_def set_flow_def nth_list_update)
qed

lemma map_pred_shift: "map (\<lambda>k. n - of_nat k) (rev [0..<m]) = map (\<lambda>k. n + 1 - of_nat k) (rev [Suc 0..<Suc m])"
  for n :: "'a :: len word"
  by (simp add: map_Suc_upt [symmetric] rev_map comp_def del: upt_Suc)

lemma push_log:
  assumes "log_wf mdl" "pushPacket rec f dir len data mdl = Some m2"
  shows "log_wf m2"
proof -
  obtain p where p: "m2 = mdl\<lparr>packetNo := packetNo mdl + 1,
       packets := (if packetCap mdl < length (packets mdl @ [p]) then tl (packets mdl @ [p]) else packets mdl @ [p])\<rparr>"
     "pk_no p = packetNo mdl + 1"
    using assms(2) by (auto simp: pushPacket_def Let_def)
  let ?n = "length (packets mdl)"
  have "map pk_no (packets mdl @ [p]) = map (\<lambda>k. packetNo mdl + 1 - of_nat k) (rev [Suc 0..<Suc ?n] @ [0])"
    using assms(1) p(2) by (simp add: log_wf_def map_pred_shift del: upt_Suc)
  also have "rev [Suc 0..<Suc ?n] @ [0] = rev [0..<Suc ?n]"
    by (simp add: upt_conv_Cons del: upt_Suc)
  finally have nos: "map pk_no (packets mdl @ [p]) = map (\<lambda>k. packetNo mdl + 1 - of_nat k) (rev [0..<Suc ?n])" .
  then have "map pk_no (tl (packets mdl @ [p])) = map (\<lambda>k. packetNo mdl + 1 - of_nat k) (rev [0..<?n])"
    by (simp add: map_tl)
  with nos assms(1) show ?thesis by (auto simp: log_wf_def p(1))
qed

lemma push_spec:
  assumes "pushPacket rec f dir len data mdl = Some m2"
  shows "flows m2 = flows mdl" "flow_index m2 = flow_index mdl" "stats m2 = stats mdl"
    "payloadCap m2 = payloadCap mdl" "find_flow g m2 = find_flow g mdl" "model_wf mdl \<Longrightarrow> model_wf m2"
proof -
  show same: "flows m2 = flows mdl" "flow_index m2 = flow_index mdl" "stats m2 = stats mdl"
    "payloadCap m2 = payloadCap mdl"
    using assms by (auto simp: pushPacket_def Let_def)
  then show "find_flow g m2 = find_flow g mdl" by (simp add: find_flow_def)
  show "model_wf mdl \<Longrightarrow> model_wf m2"
    using push_log [OF _ assms] same by (simp add: model_wf_def index_wf_def)
qed

lemma model_wf_stats: "model_wf mdl \<Longrightarrow> stats_wf st \<Longrightarrow> model_wf (mdl\<lparr>stats := st\<rparr>)"
  by (simp add: model_wf_def index_wf_def log_wf_def)

lemma find_flow_stats [simp]: "find_flow g (mdl\<lparr>stats := st\<rparr>) = find_flow g mdl"
  by (simp add: find_flow_def)

lemma size_bucket_lt: "size_bucket L < 6"
  by (simp add: size_bucket_def)

lemma sum_list_bump: "i < length xs \<Longrightarrow> sum_list (xs[i := xs ! i + 1]) = sum_list xs + (1 :: u64)"
  by (induction xs arbitrary: i) (auto simp: algebra_simps split: nat.split)

lemma count_data_wf: "stats_wf st \<Longrightarrow> stats_wf (count_data dir L st)"
  by (simp add: stats_wf_def count_data_def Let_def sum_list_bump size_bucket_lt add.assoc add.left_commute)

section \<open>Ingesting a record\<close>

definition flow_keeps :: "'t knd_flow \<Rightarrow> 't knd_flow \<Rightarrow> bool" where
  "flow_keeps f f' \<longleftrightarrow> kf_flowId f' = kf_flowId f \<and> kf_payload f' = kf_payload f \<and> kf_truncated f' = kf_truncated f"

lemma open_flow_spec:
  assumes "length (cp_localAddr p) = 16" "length (cp_remoteAddr p) = 16" "flow_wf cap f"
  shows "flow_wf cap (open_flow utf8 rec p path f)" "flow_keeps f (open_flow utf8 rec p path f)"
  using assms by (simp_all add: open_flow_def Let_def flow_wf_def flow_keeps_def)

lemma close_flow_spec:
  assumes "flow_wf cap f"
  shows "flow_wf cap (close_flow rec p f)" "flow_keeps f (close_flow rec p f)"
  using assms by (simp_all add: close_flow_def flow_wf_def flow_keeps_def)

text \<open>
  The abstract view of one direction of a flow: everything sent so far, of which the buffer keeps
  the first \<open>cap\<close> bytes; the mark is set when something was left out, and never while there
  is room.
\<close>

definition holds_stream :: "nat \<Rightarrow> 't knd_flow \<Rightarrow> nat \<Rightarrow> bytes \<Rightarrow> bool" where
  "holds_stream cap f dir S \<longleftrightarrow> kf_payload f ! dir = take cap S
     \<and> (cap < length S \<longrightarrow> kf_truncated f ! dir) \<and> (kf_truncated f ! dir \<longrightarrow> cap \<le> length S)"

lemma take_append_room:
  "take cap (take cap S @ D) = take cap (S @ D)"
  by (cases "cap \<le> length S") simp_all

lemma append_payload_wf:
  assumes "append_payload cap dir len data f = Some f'" "flow_wf cap f" "dir < 2"
  shows "flow_wf cap f'" "kf_flowId f' = kf_flowId f"
  using assms set_update_subset_insert [of "kf_payload f" dir]
  by (fastforce simp: append_payload_def Let_def flow_wf_def split: if_splits)+

lemma append_payload_stream:
  assumes "append_payload cap dir len data f = Some f'" "flow_wf cap f" "dir < 2" "d < 2"
    and "holds_stream cap f d S"
  shows "holds_stream cap f' d (S @ (if d = dir then take len data else []))"
proof -
  have len: "length (kf_payload f) = 2" "length (kf_truncated f) = 2" using assms(2) by (simp_all add: flow_wf_def)
  have cap: "length (kf_payload f ! dir) \<le> cap" using assms(2,3) by (simp add: flow_wf_def)
  let ?room = "cap - length (kf_payload f ! dir)"
  show "holds_stream cap f' d (S @ (if d = dir then take len data else []))"
  proof (cases "d = dir")
    case False
    then show ?thesis
      using assms(1,5) by (auto simp: append_payload_def Let_def holds_stream_def split: if_splits)
  next
    case True
    have P: "kf_payload f ! dir = take cap S" using assms(5) True by (simp add: holds_stream_def)
    show ?thesis
    proof (cases "length (kf_payload f ! dir) < cap")
      case room: True
      then have S: "length S < cap" "kf_payload f ! dir = S" using P by auto
      have "min len ?room \<le> length data" "f' = f\<lparr>kf_payload := (kf_payload f)[dir := S @ take (min len ?room) data],
          kf_truncated := (if min len ?room < len then (kf_truncated f)[dir := True] else kf_truncated f)\<rparr>"
        using assms(1) room S(2) by (auto simp: append_payload_def Let_def min_def split: if_splits)
      moreover have "\<not> kf_truncated f ! dir" using assms(5) True S by (auto simp: holds_stream_def)
      ultimately show ?thesis using True S assms(3) len by (auto simp: holds_stream_def min_def)
    next
      case full: False
      then have "cap \<le> length S" using P cap by (simp add: min_def split: if_splits)
      moreover have "f' = f\<lparr>kf_truncated := (kf_truncated f)[dir := True]\<rparr>"
        using assms(1) full by (simp add: append_payload_def Let_def)
      ultimately show ?thesis using True P assms(3) len by (simp add: holds_stream_def)
    qed
  qed
qed

lemma data_flow_append:
  assumes "data_flow cap rec now dp data f = Some f'"
  obtains f1 where "append_payload cap (flow_dir (dp_direction dp)) (unat (dp_dataLength dp)) data f1 = Some f'"
    "flow_keeps f f1" "flow_wf cap f1 = flow_wf cap f"
proof
  let ?f1 = "f\<lparr>kf_bytesIn := (if flow_dir (dp_direction dp) = 1 then kf_bytesIn f + ucast (dp_dataLength dp) else kf_bytesIn f),
           kf_bytesOut := (if flow_dir (dp_direction dp) = 1 then kf_bytesOut f else kf_bytesOut f + ucast (dp_dataLength dp)),
           kf_records := kf_records f + 1, kf_lastTs := rec_timestamp rec, kf_uiActivity := now\<rparr>"
  show "append_payload cap (flow_dir (dp_direction dp)) (unat (dp_dataLength dp)) data ?f1 = Some f'"
    using assms by (simp add: data_flow_def Let_def)
  show "flow_keeps f ?f1" "flow_wf cap ?f1 = flow_wf cap f" by (simp_all add: flow_keeps_def flow_wf_def)
qed

lemma flow_dir_lt: "flow_dir d < 2"
  by (simp add: flow_dir_def)

lemma data_flow_wf:
  assumes "data_flow cap rec now dp data f = Some f'" "flow_wf cap f"
  shows "flow_wf cap f'" "kf_flowId f' = kf_flowId f"
proof -
  obtain f1 where "append_payload cap (flow_dir (dp_direction dp)) (unat (dp_dataLength dp)) data f1 = Some f'"
    "flow_keeps f f1" "flow_wf cap f1 = flow_wf cap f" using data_flow_append [OF assms(1)] .
  then show "flow_wf cap f'" "kf_flowId f' = kf_flowId f"
    using append_payload_wf [of cap _ _ data f1 f'] assms(2) flow_dir_lt by (auto simp: flow_keeps_def)
qed

lemma data_flow_stream:
  assumes "data_flow cap rec now dp data f = Some f'" "flow_wf cap f" "d < 2" "holds_stream cap f d S"
  shows "holds_stream cap f' d (S @ (if d = flow_dir (dp_direction dp) then take (unat (dp_dataLength dp)) data else []))"
proof -
  obtain f1 where f1: "append_payload cap (flow_dir (dp_direction dp)) (unat (dp_dataLength dp)) data f1 = Some f'"
    "flow_keeps f f1" "flow_wf cap f1 = flow_wf cap f" using data_flow_append [OF assms(1)] .
  have "holds_stream cap f1 d S" using f1(2) assms(4) by (simp add: flow_keeps_def holds_stream_def)
  with append_payload_stream [OF f1(1) _ flow_dir_lt assms(3)] f1(3) assms(2) show ?thesis by simp
qed

definition data_part :: "u64 \<Rightarrow> nat \<Rightarrow> bytes \<Rightarrow> bytes" where
  "data_part fid dir r = (let dp = dec_data (drop sizeof_RECORD r) in
     if rec_type (dec_record r) = KND_REC_DATA \<and> dp_flowId dp = fid \<and> flow_dir (dp_direction dp) = dir
     then take (unat (dp_dataLength dp)) (drop sizeof_DATA_PAYLOAD (drop sizeof_RECORD r)) else [])"

definition model_stream :: "'t knd_model \<Rightarrow> u64 \<Rightarrow> nat \<Rightarrow> bytes \<Rightarrow> bool" where
  "model_stream mdl fid dir S \<longleftrightarrow> (case find_flow fid mdl of
     None \<Rightarrow> S = [] | Some f \<Rightarrow> holds_stream (payloadCap mdl) f dir S)"

lemma model_stream_stats [simp]: "model_stream (mdl\<lparr>stats := st\<rparr>) fid d S = model_stream mdl fid d S"
  by (simp add: model_stream_def split: option.split)

text \<open>The common shape of the three cases: update the flow, log the packet, count.\<close>

lemma update_push:
  assumes "model_wf mdl" "getOrCreate fid now mdl = (i, m1)" "flow_wf (payloadCap mdl) f" "kf_flowId f = fid"
    and "pushPacket rec f dir len data (set_flow i f m1) = Some m2"
  shows "model_wf m2" "find_flow g m2 = (if g = fid then Some f else find_flow g mdl)"
    "payloadCap m2 = payloadCap mdl" "stats m2 = stats mdl"
proof -
  note g = getOrCreate_spec [OF assms(1,2)]
  have f: "flow_wf (payloadCap m1) f" "kf_flowId f = kf_flowId (flows m1 ! i)" using assms(3,4) g(3,7) by simp_all
  note s = set_flow_spec [OF g(1,2) f]
  note p = push_spec [OF assms(5)]
  show "model_wf m2" by (rule p(6) [OF s(1)])
  show "find_flow g m2 = (if g = fid then Some f else find_flow g mdl)"
    using p(5) s(2) g(6) assms(4) by simp
  show "payloadCap m2 = payloadCap mdl" "stats m2 = stats mdl"
    using p(3,4) g(7,8) by (simp_all add: set_flow_def)
qed

lemma getOrCreate_flow:
  assumes "model_wf mdl" "getOrCreate fid now mdl = (i, m1)"
  shows "flow_wf (payloadCap mdl) (flows m1 ! i)" "kf_flowId (flows m1 ! i) = fid"
    "model_stream mdl fid d S \<Longrightarrow> d < 2 \<Longrightarrow> holds_stream (payloadCap mdl) (flows m1 ! i) d S"
proof -
  note g = getOrCreate_spec [OF assms]
  show "flow_wf (payloadCap mdl) (flows m1 ! i)" using model_wfD(2) [OF g(1,2)] g(7) by simp
  show "kf_flowId (flows m1 ! i) = fid" by (rule g(3))
  show "holds_stream (payloadCap mdl) (flows m1 ! i) d S" if "model_stream mdl fid d S" "d < 2"
    using that g(5) by (auto simp: model_stream_def holds_stream_def new_flow_def less_2_cases_iff split: option.splits)
qed

definition step_ok :: "'t knd_model \<Rightarrow> (u64 \<Rightarrow> nat \<Rightarrow> bytes) \<Rightarrow> 't knd_model \<Rightarrow> bool" where
  "step_ok mdl part m' \<longleftrightarrow> model_wf m' \<and> payloadCap m' = payloadCap mdl
     \<and> (\<forall>fid d S. d < 2 \<and> model_stream mdl fid d S \<longrightarrow> model_stream m' fid d (S @ part fid d))"

lemma update_push_ok:
  assumes "model_wf mdl" "getOrCreate fid now mdl = (i, m1)" "flow_wf (payloadCap mdl) f" "kf_flowId f = fid"
    and "pushPacket rec f dir len data (set_flow i f m1) = Some m2" "stats_wf (upd (stats mdl))"
    and "\<And>d S. d < 2 \<Longrightarrow> holds_stream (payloadCap mdl) (flows m1 ! i) d S \<Longrightarrow> holds_stream (payloadCap mdl) f d (S @ part fid d)"
    and "\<And>g d. g \<noteq> fid \<Longrightarrow> part g d = []"
  shows "step_ok mdl part (m2\<lparr>stats := upd (stats m2)\<rparr>)"
proof -
  note u = update_push [OF assms(1-5)]
  have "model_stream m2 g d (S @ part g d)" if "d < 2" "model_stream mdl g d S" for g d S
  proof (cases "g = fid")
    case True
    with that assms(7) [OF that(1)] getOrCreate_flow(3) [OF assms(1,2)] u(2,3) show ?thesis
      by (simp add: model_stream_def)
  next
    case False
    with that assms(8) u(2,3) show ?thesis by (simp add: model_stream_def split: option.splits)
  qed
  then show ?thesis using u assms(6) by (simp add: step_ok_def model_wf_stats)
qed

lemma ingest_open_ok:
  assumes "model_wf mdl" "ingest_open utf8 rec body now mdl = Some m'"
  shows "step_ok mdl (\<lambda>_ _. []) m'"
proof -
  let ?p = "dec_conn body"
  obtain i m1 where g: "getOrCreate (cp_flowId ?p) now mdl = (i, m1)" by fastforce
  let ?f = "open_flow utf8 rec ?p (get_wchars body 80 (unat (cp_processPathChars ?p))) (flows m1 ! i)"
  obtain m2 where m2: "80 \<le> length body" "pushPacket rec ?f (kf_direction ?f) 0 None (set_flow i ?f m1) = Some m2"
    "m' = m2\<lparr>stats := (stats m2)\<lparr>ms_connOpens := ms_connOpens (stats m2) + 1\<rparr>\<rparr>"
    using assms(2) g by (auto simp: ingest_open_def Let_def split: if_splits)
  have len: "length (cp_localAddr ?p) = 16" "length (cp_remoteAddr ?p) = 16"
    using m2(1) by (simp_all add: dec_conn_def)
  note f = getOrCreate_flow [OF assms(1) g] open_flow_spec [OF len getOrCreate_flow(1) [OF assms(1) g]]
  show ?thesis
    unfolding m2(3)
    using f(2) f(5) [of utf8 rec "get_wchars body 80 (unat (cp_processPathChars ?p))"] model_wfD(4) [OF assms(1)]
    by (intro update_push_ok [OF assms(1) g f(4) _ m2(2), where upd = "\<lambda>st. st\<lparr>ms_connOpens := ms_connOpens st + 1\<rparr>"])
      (auto simp: flow_keeps_def stats_wf_def holds_stream_def)
qed

lemma ingest_close_ok:
  assumes "model_wf mdl" "ingest_close rec body now mdl = Some m'"
  shows "step_ok mdl (\<lambda>_ _. []) m'"
proof -
  let ?p = "dec_conn body"
  obtain i m1 where g: "getOrCreate (cp_flowId ?p) now mdl = (i, m1)" by fastforce
  let ?f = "close_flow rec ?p (flows m1 ! i)"
  obtain m2 where m2: "pushPacket rec ?f 0 0 None (set_flow i ?f m1) = Some m2"
    "m' = m2\<lparr>stats := (stats m2)\<lparr>ms_connCloses := ms_connCloses (stats m2) + 1\<rparr>\<rparr>"
    using assms(2) g by (auto simp: ingest_close_def Let_def split: if_splits)
  note f = getOrCreate_flow [OF assms(1) g] close_flow_spec [OF getOrCreate_flow(1) [OF assms(1) g]]
  show ?thesis
    unfolding m2(2) using f(2) f(5) [of rec ?p] model_wfD(4) [OF assms(1)]
    by (intro update_push_ok [OF assms(1) g f(4) _ m2(1), where upd = "\<lambda>st. st\<lparr>ms_connCloses := ms_connCloses st + 1\<rparr>"])
      (auto simp: flow_keeps_def stats_wf_def holds_stream_def)
qed

lemma ingest_data_ok:
  assumes "model_wf mdl" "ingest_data rec body now mdl = Some m'"
  shows "step_ok mdl (\<lambda>fid d. if fid = dp_flowId (dec_data body) then
     (if d = flow_dir (dp_direction (dec_data body))
      then take (unat (dp_dataLength (dec_data body))) (drop sizeof_DATA_PAYLOAD body) else []) else []) m'"
proof -
  let ?dp = "dec_data body" and ?data = "drop sizeof_DATA_PAYLOAD body"
  obtain i m1 where g: "getOrCreate (dp_flowId ?dp) now mdl = (i, m1)" by fastforce
  obtain f m2 where m2: "data_flow (payloadCap mdl) rec now ?dp ?data (flows m1 ! i) = Some f"
    "pushPacket rec f (dp_direction ?dp) (dp_dataLength ?dp) (Some ?data) (set_flow i f m1) = Some m2"
    "m' = m2\<lparr>stats := count_data (flow_dir (dp_direction ?dp)) (dp_dataLength ?dp) (stats m2)\<rparr>"
    using assms(2) g getOrCreate_spec(7) [OF assms(1) g]
    by (auto simp: ingest_data_def Let_def split: if_splits option.splits)
  note w = getOrCreate_flow [OF assms(1) g]
  note d = data_flow_stream [OF m2(1) w(1)]
  have wf: "flow_wf (payloadCap mdl) f" "kf_flowId f = dp_flowId ?dp"
    using data_flow_wf [OF m2(1) w(1)] w(2) by simp_all
  show ?thesis
    unfolding m2(3) using d model_wfD(4) [OF assms(1)]
    by (intro update_push_ok [OF assms(1) g wf m2(2),
          where upd = "count_data (flow_dir (dp_direction ?dp)) (dp_dataLength ?dp)"])
      (simp_all add: count_data_wf)
qed

lemma ingest_ok:
  assumes "model_wf mdl" "ingest utf8 r now mdl = Some m'"
  shows "step_ok mdl (\<lambda>fid d. data_part fid d r) m'"
proof -
  let ?m0 = "mdl\<lparr>stats := (stats mdl)\<lparr>ms_totalRecords := ms_totalRecords (stats mdl) + 1\<rparr>\<rparr>"
  let ?rec = "dec_record r" and ?body = "drop sizeof_RECORD r"
  have wf: "model_wf ?m0"
    using assms(1) by (intro model_wf_stats) (simp_all add: model_wf_def stats_wf_def)
  have step: "step_ok ?m0 part m' \<Longrightarrow> step_ok mdl part m'" for part by (simp add: step_ok_def)
  consider (connect) "rec_type ?rec = KND_REC_CONN_OPEN" | (disconnect) "rec_type ?rec = KND_REC_CONN_CLOSE"
    | (data) "rec_type ?rec = KND_REC_DATA"
    | (other) "rec_type ?rec \<notin> {KND_REC_CONN_OPEN, KND_REC_CONN_CLOSE, KND_REC_DATA}" by blast
  then show ?thesis
  proof cases
    case connect
    with assms(2) have "ingest_open utf8 ?rec ?body now ?m0 = Some m'"
      by (simp add: ingest_def Let_def split: if_splits)
    from step [OF ingest_open_ok [OF wf this]] connect show ?thesis by (simp add: data_part_def const_defs)
  next
    case disconnect
    with assms(2) have "ingest_close ?rec ?body now ?m0 = Some m'"
      by (simp add: ingest_def Let_def const_defs split: if_splits)
    from step [OF ingest_close_ok [OF wf this]] disconnect show ?thesis by (simp add: data_part_def const_defs)
  next
    case data
    with assms(2) have "ingest_data ?rec ?body now ?m0 = Some m'"
      by (simp add: ingest_def Let_def const_defs split: if_splits)
    note ok = step [OF ingest_data_ok [OF wf this]]
    have "(\<lambda>fid d. data_part fid d r) = (\<lambda>fid d. if fid = dp_flowId (dec_data ?body) then
       (if d = flow_dir (dp_direction (dec_data ?body))
        then take (unat (dp_dataLength (dec_data ?body))) (drop sizeof_DATA_PAYLOAD ?body) else []) else [])"
      using data by (auto simp: data_part_def Let_def fun_eq_iff)
    with ok show ?thesis by simp
  next
    case other
    with assms(2) have "m' = ?m0" by (simp add: ingest_def Let_def split: if_splits)
    with wf other show ?thesis by (simp add: step_ok_def data_part_def)
  qed
qed

text \<open>The consumer's loop: the records of one poll, one after the other.\<close>

fun ingest_all :: "(u16 list \<Rightarrow> string) \<Rightarrow> bytes list \<Rightarrow> 't \<Rightarrow> 't knd_model \<Rightarrow> 't knd_model option" where
  "ingest_all utf8 [] now mdl = Some mdl"
| "ingest_all utf8 (r # rs) now mdl = Option.bind (ingest utf8 r now mdl) (ingest_all utf8 rs now)"

definition stream_of :: "u64 \<Rightarrow> nat \<Rightarrow> bytes list \<Rightarrow> bytes" where
  "stream_of fid d rs = concat (map (data_part fid d) rs)"

lemma ingest_all_ok:
  assumes "model_wf mdl" "ingest_all utf8 rs now mdl = Some m'"
  shows "step_ok mdl (\<lambda>fid d. stream_of fid d rs) m'"
  using assms
proof (induction rs arbitrary: mdl)
  case Nil
  then show ?case by (simp add: step_ok_def stream_of_def)
next
  case (Cons r rs)
  then obtain m1 where m1: "ingest utf8 r now mdl = Some m1" "ingest_all utf8 rs now m1 = Some m'"
    by (auto simp: bind_eq_Some_conv)
  note s1 = ingest_ok [OF Cons.prems(1) m1(1)]
  then have "model_wf m1" by (simp add: step_ok_def)
  note s2 = Cons.IH [OF this m1(2)]
  show ?case using s1 s2 by (simp add: step_ok_def stream_of_def flip: append_assoc)
qed

subsection \<open>Records of the driver\<close>

definition driver_record :: "bytes \<Rightarrow> bool" where
  "driver_record r \<longleftrightarrow>
     (\<exists>ty fl p. is_record ty fl (enc_conn p) r \<and> wf_conn p \<and> unat (cp_processPathChars p) \<le> KND_PROCPATH_CHARS
        \<and> (ty = KND_REC_CONN_OPEN \<or> ty = KND_REC_CONN_CLOSE))
   \<or> (\<exists>fl fid d ch. is_record KND_REC_DATA fl (chunk_body fid d ch) r \<and> length ch \<le> KND_MAX_DATA_CHUNK)"

lemma packet_info_conn: "ty = KND_REC_CONN_OPEN \<or> ty = KND_REC_CONN_CLOSE \<Longrightarrow> \<exists>x. packet_info ty f dir len data = Some x"
  by (auto simp: packet_info_def Let_def)

lemma push_conn:
  "rec_type rec = KND_REC_CONN_OPEN \<or> rec_type rec = KND_REC_CONN_CLOSE \<Longrightarrow> \<exists>m2. pushPacket rec f dir len data mdl = Some m2"
  using packet_info_conn [of "rec_type rec" f dir len data] by (auto simp: pushPacket_def)

lemma push_data: "unat len \<le> length bs \<Longrightarrow> \<exists>m2. pushPacket rec f dir len (Some bs) mdl = Some m2"
  by (auto simp: pushPacket_def packet_info_def Let_def)

lemma append_payload_total: "len \<le> length data \<Longrightarrow> \<exists>f'. append_payload cap dir len data f = Some f'"
  by (auto simp: append_payload_def Let_def)

lemma chunk_data:
  assumes "is_record KND_REC_DATA fl (chunk_body fid d ch) r" "length ch \<le> KND_MAX_DATA_CHUNK"
  shows "dec_data (drop sizeof_RECORD r) = \<lparr>dp_flowId = fid, dp_direction = d,
     dp_dataKind = KND_DATA_CIPHERTEXT, dp_reserved0 = 0, dp_dataLength = word_of_nat (length ch)\<rparr>"
    "unat (word_of_nat (length ch) :: u32) = length ch"
    "take (length ch) (drop sizeof_DATA_PAYLOAD (drop sizeof_RECORD r)) = ch"
proof -
  have r: "take (length (chunk_body fid d ch)) (drop sizeof_RECORD r) = chunk_body fid d ch"
    using assms(1) by (simp add: is_record_def)
  then have split: "drop sizeof_RECORD r = chunk_body fid d ch @ drop (length (chunk_body fid d ch)) (drop sizeof_RECORD r)"
    by (metis append_take_drop_id)
  show "dec_data (drop sizeof_RECORD r) = \<lparr>dp_flowId = fid, dp_direction = d,
     dp_dataKind = KND_DATA_CIPHERTEXT, dp_reserved0 = 0, dp_dataLength = word_of_nat (length ch)\<rparr>"
    by (subst split) (simp add: chunk_body_def data_wire.dec_enc)
  show "unat (word_of_nat (length ch) :: u32) = length ch"
    using assms(2) by (simp add: unat_of_nat const_defs)
  show "take (length ch) (drop sizeof_DATA_PAYLOAD (drop sizeof_RECORD r)) = ch"
    by (subst split) (simp add: chunk_body_def sizeof_DATA_PAYLOAD_def)
qed

lemma data_part_chunk:
  assumes "is_record KND_REC_DATA fl (chunk_body fid d ch) r" "length ch \<le> KND_MAX_DATA_CHUNK"
  shows "data_part g e r = (if g = fid \<and> e = flow_dir d then ch else [])"
proof -
  have "rec_type (dec_record r) = KND_REC_DATA" using assms(1) by (simp add: is_record_def)
  then show ?thesis using chunk_data [OF assms] by (simp add: data_part_def Let_def)
qed

lemma ingest_data_total:
  fixes now :: 't
  assumes "\<And>cap rec f. \<exists>f'. data_flow cap rec now (dec_data body) (drop sizeof_DATA_PAYLOAD body) f = Some f'"
    and "\<And>rec f dir (m :: 't knd_model). \<exists>m2. pushPacket rec f dir len (Some (drop sizeof_DATA_PAYLOAD body)) m = Some m2"
    and "dec_data body = dp" "dp_dataLength dp = len" "\<not> length body < sizeof_DATA_PAYLOAD"
  shows "\<exists>m'. ingest_data rec body now m = Some m'"
proof -
  obtain i m1 where g: "getOrCreate (dp_flowId (dec_data body)) now m = (i, m1)" by fastforce
  obtain f where f: "data_flow (payloadCap m1) rec now (dec_data body) (drop sizeof_DATA_PAYLOAD body) (flows m1 ! i) = Some f"
    using assms(1) by blast
  obtain m2 where "pushPacket rec f (dp_direction (dec_data body)) len (Some (drop sizeof_DATA_PAYLOAD body)) (set_flow i f m1) = Some m2"
    using assms(2) by blast
  then show ?thesis using g f assms(3-5) by (simp add: ingest_data_def Let_def)
qed

lemma ingest_total:
  assumes "driver_record r"
  shows "\<exists>m'. ingest utf8 r now mdl = Some m'"
proof -
  let ?body = "drop sizeof_RECORD r"
  from assms consider (conn) ty fl p where "is_record ty fl (enc_conn p) r" "wf_conn p"
      "unat (cp_processPathChars p) \<le> KND_PROCPATH_CHARS" "ty = KND_REC_CONN_OPEN \<or> ty = KND_REC_CONN_CLOSE"
    | (data) fl fid d ch where "is_record KND_REC_DATA fl (chunk_body fid d ch) r" "length ch \<le> KND_MAX_DATA_CHUNK"
    by (auto simp: driver_record_def)
  then show ?thesis
  proof cases
    case conn
    have p: "dec_conn ?body = p" by (rule is_record_conn [OF conn(2,1)])
    have len: "sizeof_RECORD \<le> length r" "600 \<le> length ?body"
      using conn(1) conn_wire.enc_length [OF conn(2)] by (auto simp: is_record_def layout_defs)
    have ty: "rec_type (dec_record r) = ty" using conn(1) by (simp add: is_record_def)
    have "\<exists>m'. ingest_open utf8 (dec_record r) ?body now m = Some m'" if "ty = KND_REC_CONN_OPEN" for m :: "'a knd_model"
      using push_conn [of "dec_record r"] ty that len conn(3)
      by (auto simp: ingest_open_def Let_def p const_defs split: prod.split)
    moreover have "\<exists>m'. ingest_close (dec_record r) ?body now m = Some m'" if "ty = KND_REC_CONN_CLOSE" for m :: "'a knd_model"
      using push_conn [of "dec_record r"] ty that len
      by (auto simp: ingest_close_def Let_def split: prod.split)
    ultimately show ?thesis using conn(4) len ty by (auto simp: ingest_def Let_def)
  next
    case data
    note d = chunk_data [OF data]
    have len: "sizeof_RECORD \<le> length r" "16 + length ch \<le> length ?body"
      using data(1) by (auto simp: is_record_def chunk_body_def layout_defs)
    have ty: "rec_type (dec_record r) = KND_REC_DATA" using data(1) by (simp add: is_record_def)
    have "\<exists>f'. data_flow cap rec now (dec_data ?body) (drop sizeof_DATA_PAYLOAD ?body) f = Some f'"
      for cap rec and f :: "'a knd_flow"
      unfolding data_flow_def Let_def d(1) using len d(2)
      by (intro append_payload_total) (simp add: sizeof_DATA_PAYLOAD_def)
    moreover have "\<exists>m2. pushPacket rec f dir (word_of_nat (length ch)) (Some (drop sizeof_DATA_PAYLOAD ?body)) m = Some m2"
      for rec f dir and m :: "'a knd_model"
      using len d(2) by (intro push_data) (simp add: sizeof_DATA_PAYLOAD_def)
    moreover have "\<not> length ?body < sizeof_DATA_PAYLOAD" using len by (simp add: sizeof_DATA_PAYLOAD_def)
    ultimately have "\<exists>m'. ingest_data (dec_record r) ?body now m = Some m'" for m :: "'a knd_model"
      by (intro ingest_data_total [OF _ _ d(1)]) simp_all
    then show ?thesis using len ty by (simp add: ingest_def Let_def const_defs)
  qed
qed

lemma ingest_all_total: "\<forall>r \<in> set rs. driver_record r \<Longrightarrow> \<exists>m'. ingest_all utf8 rs now mdl = Some m'"
proof (induction rs arbitrary: mdl)
  case (Cons r rs)
  then show ?case using ingest_total [of r utf8 now mdl] by auto
qed simp

lemma chunk_records_stream:
  assumes "list_all2 (is_record KND_REC_DATA fl) (map (chunk_body fid d) kept) new"
    and "\<And>ch. ch \<in> set kept \<Longrightarrow> length ch \<le> KND_MAX_DATA_CHUNK"
  shows "stream_of g e new = (if g = fid \<and> e = flow_dir d then concat kept else [])"
    "\<forall>r \<in> set new. driver_record r"
proof -
  have "stream_of g e new = (if g = fid \<and> e = flow_dir d then concat kept else []) \<and> (\<forall>r \<in> set new. driver_record r)"
    using assms
  proof (induction kept arbitrary: new)
    case (Cons ch kept)
    then obtain r rest where n: "new = r # rest" "is_record KND_REC_DATA fl (chunk_body fid d ch) r"
      "list_all2 (is_record KND_REC_DATA fl) (map (chunk_body fid d) kept) rest"
      by (auto simp: list_all2_Cons1)
    have ch: "length ch \<le> KND_MAX_DATA_CHUNK" using Cons.prems(2) by simp
    have "driver_record r" unfolding driver_record_def using n(2) ch by blast
    moreover note data_part_chunk [OF n(2) ch] Cons.IH [OF n(3) Cons.prems(2)]
    ultimately show ?case by (auto simp: n(1) stream_of_def)
  qed (simp add: stream_of_def)
  then show "stream_of g e new = (if g = fid \<and> e = flow_dir d then concat kept else [])"
    "\<forall>r \<in> set new. driver_record r" by blast+
qed

section \<open>Properties\<close>

text \<open>
  C37. The model keeps its invariant for every record, well formed or not: the index finds exactly
  the flows by their ids, no two flows share an id, each direction's payload stays within its
  cap, the packet log stays within its capacity and is numbered consecutively up to the last
  packet number, the size histogram adds up to the number of data records, and inbound and
  outbound bytes add up to the payload bytes.
\<close>

theorem ingest_invariant:
  assumes "model_wf mdl" "ingest utf8 r now mdl = Some m'"
  shows "model_wf m' \<and> distinct (map kf_flowId (flows m'))
    \<and> (\<forall>f \<in> set (flows m'). find_flow (kf_flowId f) m' = Some f)"
proof -
  have wf: "model_wf m'" using ingest_ok [OF assms] by (simp add: step_ok_def)
  note ix = model_wfD(1) [OF wf, unfolded index_wf_def]
  have "distinct (map kf_flowId (flows m'))"
    unfolding distinct_conv_nth length_map using ix by (metis nth_map option.inject)
  moreover have "find_flow (kf_flowId f) m' = Some f" if "f \<in> set (flows m')" for f
    using that ix by (metis find_flow_def in_set_conv_nth option.map(2))
  ultimately show ?thesis using wf by blast
qed

definition sample_chunk :: bytes where
  "sample_chunk = rec_bytes 48 KND_REC_DATA 0 1 5 (chunk_body 77 KND_DIR_INBOUND [72, 105])"

lemma sample_chunk_record: "is_record KND_REC_DATA 0 (chunk_body 77 KND_DIR_INBOUND [72, 105]) sample_chunk"
  unfolding sample_chunk_def by (rule is_record_rec_bytes) (simp add: chunk_body_def layout_defs)

lemma sample_chunk_driver: "driver_record sample_chunk"
  unfolding driver_record_def using sample_chunk_record
  by (intro disjI2 exI [of _ 0] exI [of _ 77] exI [of _ KND_DIR_INBOUND] exI [of _ "[72, 105]"]) (simp add: KND_MAX_DATA_CHUNK_def)

theorem ingest_invariant_witness:
  "\<exists>m'. ingest (\<lambda>_. []) sample_chunk (0 :: nat) new_model = Some m' \<and> model_wf m'
     \<and> distinct (map kf_flowId (flows m'))"
  using ingest_total [OF sample_chunk_driver, of "\<lambda>_. []" 0 new_model]
    ingest_invariant [OF model_wf_new, of "\<lambda>_. []" sample_chunk 0] by blast

text \<open>
  C3. Ingesting a capture never reads outside a record, and rebuilds each stream. For any
  sequence of records as the driver makes them, every record is ingested in bounds; afterwards
  each direction of each flow holds exactly the first bytes, up to the cap, of the data
  records of that flow and direction in order, it is marked truncated when bytes were left
  out, and it is never marked while there is room.
\<close>

theorem ingest_all_refines:
  fixes now :: 't
  assumes "\<forall>r \<in> set rs. driver_record r" "model_wf (mdl :: 't knd_model)"
  shows "\<exists>m'. ingest_all utf8 rs now mdl = Some m' \<and> model_wf m' \<and> payloadCap m' = payloadCap mdl
    \<and> (\<forall>fid d S. d < 2 \<and> model_stream mdl fid d S \<longrightarrow> model_stream m' fid d (S @ stream_of fid d rs))"
proof -
  obtain m' where m': "ingest_all utf8 rs now mdl = Some m'" using ingest_all_total [OF assms(1), of utf8 now mdl] by (elim exE)
  with ingest_all_ok [OF assms(2) m'] show ?thesis by (auto simp: step_ok_def)
qed

theorem ingest_all_refines_witness:
  "\<exists>m'. ingest_all (\<lambda>_. []) [sample_chunk, sample_chunk] (0 :: nat) new_model = Some m' \<and> model_wf m'
     \<and> model_stream m' 77 1 [72, 105, 72, 105]"
proof -
  have s: "stream_of 77 1 [sample_chunk, sample_chunk] = [72, 105, 72, 105]"
    using data_part_chunk [OF sample_chunk_record] by (simp add: stream_of_def const_defs flow_dir_def)
  have "\<exists>m'. ingest_all (\<lambda>_. []) [sample_chunk, sample_chunk] (0 :: nat) new_model = Some m' \<and> model_wf m'
      \<and> payloadCap m' = payloadCap (new_model :: nat knd_model)
      \<and> (\<forall>fid d S. d < 2 \<and> model_stream (new_model :: nat knd_model) fid d S
            \<longrightarrow> model_stream m' fid d (S @ stream_of fid d [sample_chunk, sample_chunk]))"
    using sample_chunk_driver by (intro ingest_all_refines model_wf_new) simp
  moreover have "model_stream (new_model :: nat knd_model) 77 1 []"
    by (simp add: model_stream_def find_flow_def new_model_def)
  ultimately show ?thesis by (metis s append_Nil one_less_numeral_iff semiring_norm(76))
qed

text \<open>
  A formatted address can be read back. The buffer never cuts it, and splitting it at its
  separators and reading the fields gives the eight words of an IPv6 address, or the four bytes
  of any other.
\<close>

theorem KndFormatAddr_round_trip:
  "if ver = KND_IPV6
   then map (digits_val 16) (split_at (CHR '':'') (KndFormatAddr addr ver)) = map (addr_word addr) [0, 1, 2, 3, 4, 5, 6, 7]
   else map (digits_val 10) (split_at (CHR ''.'') (KndFormatAddr addr ver)) = map (\<lambda>i. unat (addr ! i)) [0, 1, 2, 3]"
  using split_addr by simp

text \<open>
  A formatted size is the nearest tenth of its unit. Below 2 to the 53, the unit is the
  largest of B, KB, MB, GB and TB that is not above the size, a size under one KB is printed
  exactly, and otherwise the tenths that are printed are within half a tenth of the size; the
  buffer never cuts the text.
\<close>

theorem KndFormatBytes_close:
  assumes "unat n < 2 ^ 53"
  shows "\<exists>u. u \<le> 4 \<and> (u = 0 \<or> 1024 ^ u \<le> unat n) \<and> (u = 4 \<or> unat n < 1024 * 1024 ^ u)
    \<and> (if u = 0 then KndFormatBytes n = dec_text (unat n) @ '' B''
       else (\<exists>t. KndFormatBytes n = dec_text (t div 10) @ ''.'' @ dec_text (t mod 10) @ '' '' @ [''B'', ''KB'', ''MB'', ''GB'', ''TB''] ! u
          \<and> 2 * (t * 1024 ^ u) \<le> 2 * (10 * unat n) + 1024 ^ u \<and> 2 * (10 * unat n) \<le> 2 * (t * 1024 ^ u) + 1024 ^ u))"
proof -
  define u where "u = unit_loop (unat n) 0"
  define t where "t = div_round (10 * unat n) (1024 ^ u)"
  have u: "u \<le> 4" "u = 0 \<or> 1024 ^ u \<le> unat n" "u = 4 \<or> unat n < 1024 * 1024 ^ u"
    using unit_loop_spec [of 0 "unat n"] by (simp_all add: u_def)
  have close: "2 * (t * 1024 ^ u) \<le> 2 * (10 * unat n) + 1024 ^ u" "2 * (10 * unat n) \<le> 2 * (t * 1024 ^ u) + 1024 ^ u"
    using div_round_close [of "1024 ^ u" "10 * unat n"] by (simp_all add: t_def)
  have "t \<le> t * 1024 ^ u" "1024 ^ u \<le> unat n + 1" using u(2) by auto
  then have "2 * t \<le> 21 * unat n + 1" using close(1) by linarith
  then have "t div 10 < 10 ^ 17" using assms by simp
  then have "length (dec_text (t div 10)) \<le> 17" by (intro length_numeral_text) auto
  moreover have "length (dec_text (t mod 10)) \<le> 1" by (intro length_numeral_text) auto
  moreover define us where "us = [''B'', ''KB'', ''MB'', ''GB'', ''TB'']"
  moreover have "length (us ! u) \<le> 2"
    using u(1) by (auto simp: us_def le_Suc_eq numeral_eq_Suc)
  moreover have "length (dec_text (unat n)) \<le> 20"
    using less_trans [OF assms, of "10 ^ 20"] by (intro length_numeral_text) auto
  ultimately have "KndFormatBytes n = (if u = 0 then dec_text (unat n) @ '' B''
      else dec_text (t div 10) @ ''.'' @ dec_text (t mod 10) @ '' '' @ us ! u)"
    using to_double_exact [OF assms] by (simp add: KndFormatBytes_def Let_def flip: u_def t_def us_def)
  with u close show ?thesis
    by (intro exI [of _ u] conjI) (auto simp del: append.simps simp flip: us_def)
qed

theorem KndFormatBytes_close_witness:
  "\<exists>u t. u = (1 :: nat) \<and> KndFormatBytes 1536 = dec_text (t div 10) @ ''.'' @ dec_text (t mod 10) @ '' KB''
     \<and> 2 * (t * 1024) \<le> 2 * 15360 + (1024 :: nat)"
proof -
  have n: "unat (1536 :: u64) = 1536" by simp
  obtain u where u: "u \<le> 4" "u = 0 \<or> 1024 ^ u \<le> (1536 :: nat)" "u = 4 \<or> 1536 < 1024 * (1024 ^ u :: nat)"
    "if u = 0 then KndFormatBytes 1536 = dec_text 1536 @ '' B''
       else (\<exists>t. KndFormatBytes 1536 = dec_text (t div 10) @ ''.'' @ dec_text (t mod 10) @ '' '' @ [''B'', ''KB'', ''MB'', ''GB'', ''TB''] ! u
          \<and> 2 * (t * 1024 ^ u) \<le> 2 * (10 * 1536) + 1024 ^ u \<and> 2 * (10 * 1536) \<le> 2 * (t * 1024 ^ u) + 1024 ^ u)"
    using KndFormatBytes_close [of 1536, unfolded n] by auto
  have "u \<noteq> 0" by (rule notI) (use u(3) in simp)
  moreover have "u < 2"
  proof (rule ccontr)
    assume "\<not> u < 2"
    then have "(1024 :: nat) ^ 2 \<le> 1024 ^ u" by (intro power_increasing) auto
    with u(2) show False by auto
  qed
  ultimately have "u = 1" by simp
  with u(4) show ?thesis by auto
qed

end
