(* ===== verification/Knd_Http.thy ===== *)
theory Knd_Http
  imports Knd_Text
begin

text \<open>
  The HTTP/1.x parser of the inspector (\<^verbatim>\<open>src/app/src/http_parse.h\<close>,
  \<^verbatim>\<open>src/app/src/http_parse.cpp\<close>): the messages of one direction of a captured stream, with
  Content-Length and chunked bodies. The buffer is read as characters. A read outside the
  buffer is the outcome \<open>Fault\<close>; a message that the parser declines is \<open>Decline\<close>.
\<close>

section \<open>Data\<close>

record http_header =
  hh_name :: string
  hh_value :: string

record http_message =
  hm_isRequest :: bool
  hm_valid :: bool
  hm_method :: string
  hm_target :: string
  hm_version :: string
  hm_statusCode :: int
  hm_statusReason :: string
  hm_headers :: "http_header list"
  hm_body :: string
  hm_chunked :: bool
  hm_bodyTruncated :: bool
  hm_bodyBytes :: nat
  hm_contentType :: string
  hm_contentEncoding :: string
  hm_consumed :: nat

definition new_message :: http_message where
  "new_message = \<lparr>hm_isRequest = False, hm_valid = False, hm_method = [], hm_target = [], hm_version = [],
     hm_statusCode = 0, hm_statusReason = [], hm_headers = [], hm_body = [], hm_chunked = False,
     hm_bodyTruncated = False, hm_bodyBytes = 0, hm_contentType = [], hm_contentEncoding = [], hm_consumed = 0\<rparr>"

datatype 'a outcome = Fault | Decline | Done 'a

definition kMaxMessages :: nat where "kMaxMessages = 64"
definition kMaxBody :: nat where "kMaxBody = 1048576"

abbreviation CR :: char where "CR \<equiv> CHR 0x0D"
abbreviation LF :: char where "LF \<equiv> CHR 0x0A"

section \<open>Helpers\<close>

definition Lower :: "string \<Rightarrow> string" where
  "Lower s = map tolower s"

definition blank :: "char \<Rightarrow> bool" where
  "blank c \<longleftrightarrow> (of_char c :: nat) \<le> 32"

definition Trim :: "string \<Rightarrow> string" where
  "Trim s = rev (dropWhile blank (rev (dropWhile blank s)))"

definition FindCRLF :: "string \<Rightarrow> nat \<Rightarrow> nat option" where
  "FindCRLF d from = List.find (\<lambda>i. d ! i = CR \<and> d ! (i + 1) = LF) [from..<length d - 1]"

definition FindDoubleCRLF :: "string \<Rightarrow> nat \<Rightarrow> nat option" where
  "FindDoubleCRLF d from = List.find (\<lambda>i. d ! i = CR \<and> d ! (i + 1) = LF \<and> d ! (i + 2) = CR \<and> d ! (i + 3) = LF)
     [from..<length d - 3]"

definition LooksLikeStartLine :: "string \<Rightarrow> nat \<Rightarrow> bool \<Rightarrow> bool" where
  "LooksLikeStartLine d off asResponse \<longleftrightarrow> off < length d
     \<and> (if asResponse then off + 5 \<le> length d \<and> take 5 (drop off d) = ''HTTP/'' else is_alpha (d ! off))"

text \<open>Appending a part of the buffer to a body, up to the cap.\<close>

definition read_part :: "string \<Rightarrow> nat \<Rightarrow> nat \<Rightarrow> string option" where
  "read_part d p len = (if p + len \<le> length d then Some (take len (drop p d)) else None)"

definition AppendCapped :: "string \<Rightarrow> bool \<Rightarrow> string \<Rightarrow> string \<times> bool" where
  "AppendCapped body truncated part =
     (if kMaxBody \<le> length body then (body, True)
      else (let n = min (length part) (kMaxBody - length body) in
        (body @ take n part, truncated \<or> n < length part)))"

definition append_body :: "string \<Rightarrow> nat \<Rightarrow> nat \<Rightarrow> http_message \<Rightarrow> http_message option" where
  "append_body d p len m = map_option (\<lambda>part.
     let (b, t) = AppendCapped (hm_body m) (hm_bodyTruncated m) part in m\<lparr>hm_body := b, hm_bodyTruncated := t\<rparr>)
     (read_part d p len)"

definition HttpFindHeader :: "http_message \<Rightarrow> string \<Rightarrow> http_header option" where
  "HttpFindHeader m name = List.find (\<lambda>h. Lower (hh_name h) = Lower name) (hm_headers m)"

definition HttpIsTextual :: "string \<Rightarrow> bool" where
  "HttpIsTextual ct \<longleftrightarrow> ct \<noteq> [] \<and> (\<exists>t \<in> set [''text/'', ''application/json'', ''application/xml'',
     ''application/javascript'', ''application/x-www-form-urlencoded'', ''application/xhtml'', ''+json'',
     ''+xml'', ''application/graphql'']. has_text t ct)"

section \<open>One message\<close>

text \<open>The start line; \<open>None\<close> when it is not one.\<close>

definition parse_status :: "string \<Rightarrow> http_message \<Rightarrow> http_message option" where
  "parse_status line m =
     (case find_text '' '' line 0 of None \<Rightarrow> None
      | Some s1 \<Rightarrow>
          (let s2 = find_text '' '' line (s1 + 1);
               code = substr (s1 + 1) ((case s2 of None \<Rightarrow> length line | Some i \<Rightarrow> i) - s1 - 1) line;
               m1 = m\<lparr>hm_version := take s1 line, hm_statusCode := atoi (c_str code),
                      hm_statusReason := (case s2 of None \<Rightarrow> hm_statusReason m | Some i \<Rightarrow> drop (i + 1) line)\<rparr> in
           if hm_statusCode m1 < 100 \<or> 599 < hm_statusCode m1 then None else Some m1))"

definition parse_request :: "string \<Rightarrow> http_message \<Rightarrow> http_message option" where
  "parse_request line m =
     (case find_text '' '' line 0 of None \<Rightarrow> None
      | Some s1 \<Rightarrow> (case find_text '' '' line (s1 + 1) of None \<Rightarrow> None
         | Some s2 \<Rightarrow>
            (let m1 = m\<lparr>hm_method := take s1 line, hm_target := substr (s1 + 1) (s2 - s1 - 1) line,
                        hm_version := drop (s2 + 1) line\<rparr> in
             if take 5 (hm_version m1) = ''HTTP/'' then Some m1 else None)))"

definition header_of :: "string \<Rightarrow> nat \<Rightarrow> http_header" where
  "header_of line colon = \<lparr>hh_name = Trim (take colon line), hh_value = Trim (drop (colon + 1) line)\<rparr>"

definition add_header :: "http_header \<Rightarrow> http_message \<Rightarrow> http_message" where
  "add_header h m =
     (let ln = Lower (hh_name h);
          m1 = (if ln = ''content-type'' then m\<lparr>hm_contentType := Lower (hh_value h)\<rparr>
                else if ln = ''content-encoding'' then m\<lparr>hm_contentEncoding := Lower (hh_value h)\<rparr>
                else if ln = ''transfer-encoding'' \<and> has_text ''chunked'' (Lower (hh_value h)) then m\<lparr>hm_chunked := True\<rparr>
                else m) in
      m1\<lparr>hm_headers := hm_headers m1 @ [h]\<rparr>)"

lemma FindCRLF_Some:
  "FindCRLF d from = Some i \<longleftrightarrow> from \<le> i \<and> i + 2 \<le> length d \<and> d ! i = CR \<and> d ! (i + 1) = LF
     \<and> (\<forall>j. from \<le> j \<and> j < i \<longrightarrow> \<not> (d ! j = CR \<and> d ! (j + 1) = LF))"
  unfolding FindCRLF_def find_upt_Some by auto

function parse_headers :: "string \<Rightarrow> nat \<Rightarrow> http_message \<Rightarrow> http_message" where
  "parse_headers head pos m =
     (if pos < length head
      then (let le = FindCRLF head pos;
                line = substr pos ((case le of None \<Rightarrow> length head | Some i \<Rightarrow> i) - pos) head;
                pos' = (case le of None \<Rightarrow> length head | Some i \<Rightarrow> i + 2) in
        if line = [] then m
        else (case find_text '':'' line 0 of
            None \<Rightarrow> parse_headers head pos' m
          | Some colon \<Rightarrow> parse_headers head pos' (add_header (header_of line colon) m)))
      else m)"
  by pat_completeness auto
termination
  by (relation "measure (\<lambda>(head, pos, m). length head - pos)") (auto simp: FindCRLF_Some split: option.splits)

declare parse_headers.simps [simp del]

text \<open>The chunked body: the outcome is the position behind it and the message.\<close>

definition chunk_size :: "string \<Rightarrow> nat" where
  "chunk_size sizeLine =
     (let s = (case find_text '';'' sizeLine 0 of None \<Rightarrow> sizeLine | Some semi \<Rightarrow> take semi sizeLine) in
      unat (strtoul 16 (c_str (Trim s))))"

function parse_chunks :: "string \<Rightarrow> nat \<Rightarrow> http_message \<Rightarrow> (nat \<times> http_message) option" where
  "parse_chunks d p m =
     (case FindCRLF d p of
        None \<Rightarrow> Some (length d, m\<lparr>hm_bodyTruncated := True\<rparr>)
      | Some le \<Rightarrow>
          (let chunk = chunk_size (substr p (le - p) d); q = le + 2 in
           if chunk = 0 then Some (case FindCRLF d q of None \<Rightarrow> length d | Some e \<Rightarrow> e + 2, m)
           else if length d < q + chunk
           then map_option (\<lambda>m'. (length d, m')) (append_body d q (length d - q) m)
           else (case append_body d q chunk m of None \<Rightarrow> None
              | Some m' \<Rightarrow>
                 (let r = q + chunk in
                  parse_chunks d (if r + 2 \<le> length d \<and> d ! r = CR \<and> d ! (r + 1) = LF then r + 2 else r) m'))))"
  by pat_completeness auto
termination
  by (relation "measure (\<lambda>(d, p, m). length d - p)") (auto simp: FindCRLF_Some)

declare parse_chunks.simps [simp del]

definition parse_body :: "string \<Rightarrow> nat \<Rightarrow> bool \<Rightarrow> http_message \<Rightarrow> (nat \<times> http_message) option" where
  "parse_body d bodyStart asResponse m =
     (if hm_chunked m
      then map_option (\<lambda>(p, m'). (p, m'\<lparr>hm_bodyBytes := length (hm_body m')\<rparr>)) (parse_chunks d bodyStart m)
      else (case HttpFindHeader m ''Content-Length'' of
        Some cl \<Rightarrow>
          (let len = unat (strtoul 10 (c_str (hh_value cl))); avail = length d - bodyStart;
               n = (if len < avail then len else avail) in
           map_option (\<lambda>m'. (bodyStart + n,
               m'\<lparr>hm_bodyTruncated := (hm_bodyTruncated m' \<or> n < len), hm_bodyBytes := n\<rparr>))
             (append_body d bodyStart n m))
      | None \<Rightarrow>
          if asResponse
          then map_option (\<lambda>m'. (length d, m'\<lparr>hm_bodyBytes := length d - bodyStart\<rparr>))
                 (append_body d bodyStart (length d - bodyStart) m)
          else Some (bodyStart, m\<lparr>hm_bodyBytes := 0\<rparr>)))"

definition ParseOne :: "string \<Rightarrow> nat \<Rightarrow> bool \<Rightarrow> (nat \<times> http_message) outcome" where
  "ParseOne d off asResponse =
     (if \<not> LooksLikeStartLine d off asResponse then Decline
      else (case FindDoubleCRLF d off of
        None \<Rightarrow> Decline
      | Some hdrEnd \<Rightarrow>
          (case read_part d off (hdrEnd - off) of None \<Rightarrow> Fault
           | Some head \<Rightarrow>
              (let lineEnd = FindCRLF head 0;
                   startLine = (case lineEnd of None \<Rightarrow> head | Some i \<Rightarrow> take i head);
                   m0 = new_message\<lparr>hm_isRequest := \<not> asResponse\<rparr> in
               case (if asResponse then parse_status startLine m0 else parse_request startLine m0) of
                 None \<Rightarrow> Decline
               | Some m1 \<Rightarrow>
                   (let m2 = parse_headers head (case lineEnd of None \<Rightarrow> length head | Some i \<Rightarrow> i + 2) m1 in
                    case parse_body d (hdrEnd + 4) asResponse m2 of
                      None \<Rightarrow> Fault
                    | Some (off', m3) \<Rightarrow> Done (off', m3\<lparr>hm_valid := True, hm_consumed := off'\<rparr>))))))"

section \<open>All messages\<close>

definition skip_blank :: "string \<Rightarrow> nat \<Rightarrow> nat" where
  "skip_blank d off = off + length (takeWhile (\<lambda>c. c = CR \<or> c = LF) (drop off d))"

function parse_all :: "string \<Rightarrow> bool \<Rightarrow> nat \<Rightarrow> http_message list \<Rightarrow> http_message list option" where
  "parse_all d asResponse off out =
     (if off < length d \<and> length out < kMaxMessages
      then (let start = skip_blank d off in
        if length d \<le> start then Some out
        else (case ParseOne d start asResponse of
            Fault \<Rightarrow> None
          | Decline \<Rightarrow> Some out
          | Done (off', m) \<Rightarrow>
              if off' \<le> start then Some (out @ [m]) else parse_all d asResponse off' (out @ [m])))
      else Some out)"
  by pat_completeness auto
termination
  by (relation "measure (\<lambda>(d, r, off, out). kMaxMessages - length out)") auto

declare parse_all.simps [simp del]

definition HttpParse :: "bytes \<Rightarrow> bool \<Rightarrow> http_message list option" where
  "HttpParse buf asResponse = (if buf = [] then Some [] else parse_all (text_of buf) asResponse 0 [])"

section \<open>Bounds, progress and termination\<close>

lemma FindDoubleCRLF_Some:
  "FindDoubleCRLF d from = Some i \<longleftrightarrow> from \<le> i \<and> i + 4 \<le> length d
     \<and> d ! i = CR \<and> d ! (i + 1) = LF \<and> d ! (i + 2) = CR \<and> d ! (i + 3) = LF
     \<and> (\<forall>j. from \<le> j \<and> j < i \<longrightarrow> \<not> (d ! j = CR \<and> d ! (j + 1) = LF \<and> d ! (j + 2) = CR \<and> d ! (j + 3) = LF))"
  unfolding FindDoubleCRLF_def find_upt_Some by auto

definition capped :: "http_message \<Rightarrow> bool" where
  "capped m \<longleftrightarrow> length (hm_body m) \<le> kMaxBody"

lemma AppendCapped_take:
  "length body \<le> kMaxBody \<Longrightarrow> AppendCapped body t part
     = (take kMaxBody (body @ part), t \<or> kMaxBody < length body + length part \<or> kMaxBody = length body)"
  by (auto simp: AppendCapped_def Let_def min_def)

lemma append_body_total:
  assumes "p + len \<le> length d" "capped m"
  shows "\<exists>m'. append_body d p len m = Some m' \<and> capped m'"
  using assms by (auto simp: append_body_def read_part_def capped_def AppendCapped_take)

lemma parse_chunks_total:
  assumes "p \<le> length d" "capped m"
  shows "\<exists>p' m'. parse_chunks d p m = Some (p', m') \<and> p \<le> p' \<and> p' \<le> length d \<and> capped m'"
  using assms
proof (induction d p m rule: parse_chunks.induct)
  case (1 d p m)
  show ?case
  proof (cases "FindCRLF d p")
    case None
    then show ?thesis using 1(2,3) by (auto simp: parse_chunks.simps [of d p m] capped_def)
  next
    case (Some le)
    then have le: "p \<le> le" "le + 2 \<le> length d" by (auto simp: FindCRLF_Some)
    define chunk where "chunk = chunk_size (substr p (le - p) d)"
    show ?thesis
    proof (cases "chunk = 0 \<or> length d < le + 2 + chunk")
      case True
      have "\<exists>e. (case FindCRLF d (le + 2) of None \<Rightarrow> length d | Some e \<Rightarrow> e + 2) = e \<and> p \<le> e \<and> e \<le> length d"
        using le by (auto simp: FindCRLF_Some split: option.split)
      with True Some le 1(3) append_body_total [of "le + 2" "length d - (le + 2)" d m] show ?thesis
        by (auto simp: parse_chunks.simps [of d p m] Let_def simp flip: chunk_def)
    next
      case False
      define r where "r = le + 2 + chunk"
      define r' where "r' = (if r + 2 \<le> length d \<and> d ! r = CR \<and> d ! (r + 1) = LF then r + 2 else r)"
      have r: "p \<le> r'" "r' \<le> length d" using False le by (auto simp: r_def r'_def)
      obtain m1 where m1: "append_body d (le + 2) chunk m = Some m1" "capped m1"
        using append_body_total [of "le + 2" chunk d m] False 1(3) by auto
      have step: "parse_chunks d p m = parse_chunks d r' m1"
        using Some False m1 by (simp add: parse_chunks.simps [of d p m] Let_def r'_def r_def flip: chunk_def)
      have "\<exists>p' m'. parse_chunks d r' m1 = Some (p', m') \<and> r' \<le> p' \<and> p' \<le> length d \<and> capped m'"
        using 1(1) [OF Some chunk_def refl] False m1 r by (simp add: r'_def r_def)
      with step r show ?thesis by auto
    qed
  qed
qed

lemma parse_body_total:
  assumes "p \<le> length d" "capped m"
  shows "\<exists>p' m'. parse_body d p resp m = Some (p', m') \<and> p \<le> p' \<and> p' \<le> length d \<and> capped m'"
proof (cases "hm_chunked m")
  case True
  with parse_chunks_total [OF assms] show ?thesis by (auto simp: parse_body_def capped_def)
next
  case False
  show ?thesis
  proof (cases "HttpFindHeader m ''Content-Length''")
    case None
    then show ?thesis using False assms append_body_total [of p "length d - p" d m]
      by (cases resp) (auto simp: parse_body_def capped_def)
  next
    case (Some cl)
    define len where "len = unat (strtoul 10 (c_str (hh_value cl)))"
    define k where "k = (if len < length d - p then len else length d - p)"
    have "p + k \<le> length d" using assms(1) by (auto simp: k_def)
    then obtain m1 where "append_body d p k m = Some m1" "capped m1" using append_body_total assms(2) by blast
    with False Some \<open>p + k \<le> length d\<close> show ?thesis
      by (simp add: parse_body_def Let_def capped_def flip: len_def k_def)
  qed
qed

lemma add_header_body [simp]: "hm_body (add_header h m) = hm_body m"
  by (simp add: add_header_def Let_def)

lemma parse_headers_body [simp]: "hm_body (parse_headers head pos m) = hm_body m"
proof (induction head pos m rule: parse_headers.induct)
  case (1 head pos m)
  then show ?case
    by (subst parse_headers.simps) (simp add: Let_def split: option.split)
qed

lemma parse_status_body: "parse_status line m = Some m' \<Longrightarrow> hm_body m' = hm_body m"
  by (auto simp: parse_status_def Let_def split: option.splits if_splits)

lemma parse_request_body: "parse_request line m = Some m' \<Longrightarrow> hm_body m' = hm_body m"
  by (auto simp: parse_request_def Let_def split: option.splits if_splits)

lemma ParseOne_total:
  "ParseOne d off resp = Decline
   \<or> (\<exists>off' m. ParseOne d off resp = Done (off', m) \<and> off < off' \<and> off' \<le> length d \<and> capped m
        \<and> hm_valid m \<and> hm_consumed m = off')"
proof (cases "LooksLikeStartLine d off resp \<and> FindDoubleCRLF d off \<noteq> None")
  case False
  then show ?thesis by (auto simp: ParseOne_def)
next
  case True
  then obtain h where h: "FindDoubleCRLF d off = Some h" by auto
  then have b: "off \<le> h" "h + 4 \<le> length d" by (auto simp: FindDoubleCRLF_Some)
  define head where "head = take (h - off) (drop off d)"
  have rd: "read_part d off (h - off) = Some head" using b by (simp add: read_part_def head_def)
  define st where "st = (if resp then parse_status else parse_request)
     (case FindCRLF head 0 of None \<Rightarrow> head | Some i \<Rightarrow> take i head) (new_message\<lparr>hm_isRequest := \<not> resp\<rparr>)"
  show ?thesis
  proof (cases st)
    case None
    then show ?thesis using True h rd by (auto simp: ParseOne_def Let_def st_def split: if_splits)
  next
    case (Some m1)
    then have "hm_body m1 = []"
      by (auto simp: st_def new_message_def dest: parse_status_body parse_request_body split: if_splits)
    then have "capped (parse_headers head (case FindCRLF head 0 of None \<Rightarrow> length head | Some i \<Rightarrow> i + 2) m1)"
      by (simp add: capped_def)
    from parse_body_total [OF b(2) this, of resp] True h rd Some b(1) show ?thesis
      by (auto simp: ParseOne_def Let_def st_def capped_def split: if_splits)
  qed
qed

lemma parse_all_total:
  assumes "length out \<le> kMaxMessages"
    and "\<forall>m \<in> set out. hm_valid m \<and> capped m \<and> hm_consumed m \<le> off" "sorted_wrt (<) (map hm_consumed out)" "off \<le> length d"
  shows "\<exists>ms. parse_all d resp off out = Some ms \<and> length ms \<le> kMaxMessages
     \<and> (\<forall>m \<in> set ms. hm_valid m \<and> capped m \<and> hm_consumed m \<le> length d) \<and> sorted_wrt (<) (map hm_consumed ms)"
  using assms
proof (induction d resp off out rule: parse_all.induct)
  case (1 d resp off out)
  have out: "\<forall>m \<in> set out. hm_valid m \<and> capped m \<and> hm_consumed m \<le> length d"
    using 1(3,5) by (meson order_trans)
  show ?case
  proof (cases "off < length d \<and> length out < kMaxMessages \<and> skip_blank d off < length d")
    case False
    then have "parse_all d resp off out = Some out" by (subst parse_all.simps) (auto simp: Let_def)
    with out 1(2,4) show ?thesis by simp
  next
    case True
    let ?s = "skip_blank d off"
    have s: "off \<le> ?s" by (simp add: skip_blank_def)
    from ParseOne_total [of d ?s resp] show ?thesis
    proof (elim disjE exE conjE)
      assume "ParseOne d ?s resp = Decline"
      then have "parse_all d resp off out = Some out" using True by (subst parse_all.simps) (simp add: Let_def)
      with out 1(2,4) show ?thesis by simp
    next
      fix off' m
      assume m: "ParseOne d ?s resp = Done (off', m)" "?s < off'" "off' \<le> length d" "capped m" "hm_valid m" "hm_consumed m = off'"
      have step: "parse_all d resp off out = parse_all d resp off' (out @ [m])"
        using True m by (subst parse_all.simps) (simp add: Let_def)
      have "\<forall>x \<in> set out. hm_consumed x < off'" using 1(3) s m(2) by fastforce
      then have "sorted_wrt (<) (map hm_consumed (out @ [m]))"
        "\<forall>x \<in> set (out @ [m]). hm_valid x \<and> capped x \<and> hm_consumed x \<le> off'"
        using 1(3,4) m by (auto simp: sorted_wrt_append)
      then show ?thesis
        unfolding step using True m by (intro 1(1) [OF _ refl _ m(1) refl]) auto
    qed
  qed
qed

section \<open>Reading back what was written\<close>

abbreviation CRLF :: string where "CRLF \<equiv> [CR, LF]"

text \<open>A line of a message head: not empty, without a carriage return.\<close>

definition plain_line :: "string \<Rightarrow> bool" where
  "plain_line s \<longleftrightarrow> s \<noteq> [] \<and> CR \<notin> set s"

definition double_at :: "string \<Rightarrow> nat \<Rightarrow> bool" where
  "double_at s j \<longleftrightarrow> s ! j = CR \<and> s ! (j + 1) = LF \<and> s ! (j + 2) = CR \<and> s ! (j + 3) = LF"

lemma double_at_shift: "double_at (pre @ s) (length pre + k) = double_at s k"
  unfolding double_at_def add.assoc nth_append_length_plus ..

lemma nth_mid: "length pre \<le> j \<Longrightarrow> j < length pre + length x \<Longrightarrow> (pre @ x @ r) ! j \<in> set x"
proof -
  assume a: "length pre \<le> j" "j < length pre + length x"
  then obtain k where k: "j = length pre + k" using le_Suc_ex by blast
  then have "k < length x" using a by simp
  then show ?thesis by (simp add: k nth_append)
qed

lemma no_double_in_head:
  assumes "\<forall>l \<in> set ls. plain_line l" "j < length (join CRLF ls)"
  shows "\<not> double_at (join CRLF ls @ CRLF @ CRLF @ rest) j"
  using assms
proof (induction CRLF ls arbitrary: j rule: join.induct)
  case (2 x)
  then have "x ! j \<noteq> CR" by (metis join.simps(2) list.set_intros(1) nth_mem plain_line_def)
  with 2 show ?case by (simp add: double_at_def nth_append)
next
  case (3 x y ys)
  have x: "CR \<notin> set x" and y: "y \<noteq> []" "CR \<notin> set y" using 3(2) by (simp_all add: plain_line_def)
  let ?t = "join CRLF (y # ys) @ CRLF @ CRLF @ rest"
  have s: "join CRLF (x # y # ys) @ CRLF @ CRLF @ rest = x @ CR # LF # ?t" by simp
  consider "j < length x" | "j = length x" | "j = length x + 1" | "length x + 2 \<le> j" by linarith
  then show ?case
  proof cases
    case 1
    then have "x ! j \<noteq> CR" using x nth_mem by metis
    then show ?thesis unfolding s double_at_def using 1 by (simp add: nth_append)
  next
    case 2
    obtain c cs where "y = c # cs" using y by (cases y) auto
    then have "?t ! 0 \<noteq> CR" using y by (cases ys) auto
    then show ?thesis unfolding s double_at_def using 2 by (simp add: nth_append)
  next
    case 3
    then show ?thesis unfolding s double_at_def by (simp add: nth_append)
  next
    case 4
    then obtain k where k: "j = length x + 2 + k" using le_Suc_ex by blast
    have "k < length (join CRLF (y # ys))" using 3(3) k by simp
    then have "\<not> double_at ?t k" using 3(1) 3(2) by simp
    moreover have "double_at ((x @ CRLF) @ ?t) (length (x @ CRLF) + k) = double_at ?t k"
      by (rule double_at_shift)
    then have "double_at (x @ CR # LF # ?t) (length x + 2 + k) = double_at ?t k" by (simp del: join.simps)
    ultimately show ?thesis unfolding s k by simp
  qed
qed simp

lemma find_double_head:
  assumes "\<forall>l \<in> set ls. plain_line l"
  shows "FindDoubleCRLF (pre @ join CRLF ls @ CRLF @ CRLF @ rest) (length pre) = Some (length pre + length (join CRLF ls))"
proof -
  let ?h = "join CRLF ls" let ?s = "?h @ CRLF @ CRLF @ rest"
  have "double_at ?s (length ?h)" by (simp add: double_at_def nth_append)
  moreover have "\<not> double_at ?s j" if "j < length ?h" for j using no_double_in_head [OF assms that] .
  ultimately have at: "double_at (pre @ ?s) (length pre + length ?h)"
    "\<And>k. k < length ?h \<Longrightarrow> \<not> double_at (pre @ ?s) (length pre + k)"
    unfolding double_at_shift by blast+
  have "\<not> double_at (pre @ ?s) j" if j: "length pre \<le> j" "j < length pre + length ?h" for j
  proof -
    obtain k where "j = length pre + k" using le_Suc_ex [OF j(1)] by blast
    with j at(2) show ?thesis by simp
  qed
  with at(1) show ?thesis unfolding FindDoubleCRLF_Some double_at_def by simp
qed

lemma FindCRLF_line:
  assumes "CR \<notin> set x" "length pre = n"
  shows "FindCRLF (pre @ x @ CR # LF # rest) n = Some (n + length x)"
proof -
  have "(pre @ x @ CR # LF # rest) ! j \<noteq> CR" if "n \<le> j" "j < n + length x" for j
    using nth_mid [of pre j x "CR # LF # rest"] that assms by auto
  then show ?thesis using assms(2) by (auto simp: FindCRLF_Some nth_append)
qed

lemma FindCRLF_last: "CR \<notin> set x \<Longrightarrow> length pre = n \<Longrightarrow> FindCRLF (pre @ x) n = None"
proof -
  assume a: "CR \<notin> set x" "length pre = n"
  have "(pre @ x) ! j \<noteq> CR" if "n \<le> j" "j < length (pre @ x)" for j
    using nth_mid [of pre j x "[]"] that a by auto
  then show ?thesis unfolding FindCRLF_def find_upt_None by auto
qed

subsection \<open>Headers\<close>

definition plain_header :: "http_header \<Rightarrow> bool" where
  "plain_header h \<longleftrightarrow> CR \<notin> set (hh_name h) \<and> CR \<notin> set (hh_value h) \<and> CHR '':'' \<notin> set (hh_name h)
     \<and> Trim (hh_name h) = hh_name h \<and> Trim (hh_value h) = hh_value h"

definition header_line :: "http_header \<Rightarrow> string" where
  "header_line h = hh_name h @ '': '' @ hh_value h"

lemma header_of_line:
  assumes "plain_header h"
  shows "find_text '':'' (header_line h) 0 = Some (length (hh_name h))"
    "header_of (header_line h) (length (hh_name h)) = h" "plain_line (header_line h)"
proof -
  show "find_text '':'' (header_line h) 0 = Some (length (hh_name h))"
    using assms find_char_split [of "CHR '':''" "hh_name h" "[]" 0 "CHR '' '' # hh_value h"]
    by (simp add: plain_header_def header_line_def)
  have "Trim (CHR '' '' # hh_value h) = Trim (hh_value h)" by (simp add: Trim_def blank_def)
  then show "header_of (header_line h) (length (hh_name h)) = h"
    using assms by (simp add: header_of_def header_line_def plain_header_def)
  show "plain_line (header_line h)" using assms by (simp add: plain_line_def header_line_def plain_header_def)
qed

lemma parse_headers_lines:
  assumes "\<forall>h \<in> set hs. plain_header h"
  shows "parse_headers (pre @ join CRLF (map header_line hs)) (length pre) m = fold add_header hs m"
  using assms
proof (induction hs arbitrary: pre m)
  case Nil
  then show ?case by (simp add: parse_headers.simps)
next
  case (Cons h hs)
  note h = header_of_line [of h]
  let ?x = "header_line h"
  have x: "CR \<notin> set ?x" "?x \<noteq> []" using h(3) Cons.prems by (simp_all add: plain_line_def)
  show ?case
  proof (cases hs)
    case Nil
    then show ?thesis
      using Cons.prems h x FindCRLF_last [OF x(1) refl, of pre]
      by (subst parse_headers.simps) (simp add: Let_def substr_def parse_headers.simps [of _ "length pre + length ?x"])
  next
    case (Cons h' hs')
    let ?rest = "join CRLF (map header_line hs)"
    have j: "pre @ join CRLF (map header_line (h # hs)) = pre @ ?x @ CR # LF # ?rest" by (simp add: Cons)
    have f: "FindCRLF (pre @ ?x @ CR # LF # ?rest) (length pre) = Some (length pre + length ?x)"
      by (rule FindCRLF_line [OF x(1) refl])
    have "parse_headers (pre @ ?x @ CR # LF # ?rest) (length pre) m
        = parse_headers (pre @ ?x @ CR # LF # ?rest) (length pre + length ?x + 2) (add_header h m)"
      using Cons.prems h x f by (subst parse_headers.simps) (simp add: Let_def substr_def)
    also have "\<dots> = parse_headers ((pre @ ?x @ [CR, LF]) @ ?rest) (length (pre @ ?x @ [CR, LF])) (add_header h m)"
      by simp
    also have "\<dots> = fold add_header hs (add_header h m)" using Cons.prems by (intro Cons.IH) simp
    finally show ?thesis by (simp only: j fold_Cons comp_def)
  qed
qed

subsection \<open>Requests with a length\<close>

record http_request =
  rq_method :: string
  rq_target :: string
  rq_version :: string
  rq_headers :: "http_header list"
  rq_body :: string

definition asks_chunked :: "http_header \<Rightarrow> bool" where
  "asks_chunked h \<longleftrightarrow> Lower (hh_name h) = ''transfer-encoding'' \<and> has_text ''chunked'' (Lower (hh_value h))"

definition plain_request :: "http_request \<Rightarrow> bool" where
  "plain_request r \<longleftrightarrow>
     rq_method r \<noteq> [] \<and> is_alpha (hd (rq_method r)) \<and> CHR '' '' \<notin> set (rq_method r) \<and> CR \<notin> set (rq_method r)
     \<and> CHR '' '' \<notin> set (rq_target r) \<and> CR \<notin> set (rq_target r)
     \<and> take 5 (rq_version r) = ''HTTP/'' \<and> CR \<notin> set (rq_version r)
     \<and> list_all plain_header (rq_headers r) \<and> \<not> list_ex asks_chunked (rq_headers r)
     \<and> (case List.find (\<lambda>h. Lower (hh_name h) = ''content-length'') (rq_headers r) of
          None \<Rightarrow> rq_body r = []
        | Some h \<Rightarrow> hh_value h = dec_text (length (rq_body r)))
     \<and> length (rq_body r) < 2 ^ 32"

definition start_line :: "http_request \<Rightarrow> string" where
  "start_line r = rq_method r @ '' '' @ rq_target r @ '' '' @ rq_version r"

definition render :: "http_request \<Rightarrow> string" where
  "render r = join CRLF (start_line r # map header_line (rq_headers r)) @ CRLF @ CRLF @ rq_body r"

text \<open>What the parser is to report for a request.\<close>

definition reports :: "http_request \<Rightarrow> http_message \<Rightarrow> bool" where
  "reports r m \<longleftrightarrow> hm_isRequest m \<and> hm_valid m \<and> hm_method m = rq_method r \<and> hm_target m = rq_target r
     \<and> hm_version m = rq_version r \<and> hm_headers m = rq_headers r \<and> hm_body m = take kMaxBody (rq_body r)
     \<and> hm_bodyBytes m = length (rq_body r) \<and> (hm_bodyTruncated m \<longleftrightarrow> kMaxBody < length (rq_body r))"

lemma fold_add_header:
  "hm_headers (fold add_header hs m) = hm_headers m @ hs"
  "hm_chunked (fold add_header hs m) = (hm_chunked m \<or> list_ex asks_chunked hs)"
  "hm_body (fold add_header hs m) = hm_body m" "hm_bodyTruncated (fold add_header hs m) = hm_bodyTruncated m"
  "hm_method (fold add_header hs m) = hm_method m" "hm_target (fold add_header hs m) = hm_target m"
  "hm_version (fold add_header hs m) = hm_version m" "hm_isRequest (fold add_header hs m) = hm_isRequest m"
  by (induction hs arbitrary: m) (auto simp: add_header_def Let_def asks_chunked_def)

lemma parse_request_line:
  assumes "plain_request r"
  shows "parse_request (start_line r) m
    = Some (m\<lparr>hm_method := rq_method r, hm_target := rq_target r, hm_version := rq_version r\<rparr>)"
proof -
  have s1: "find_text '' '' (start_line r) 0 = Some (length (rq_method r))"
    using assms find_char_split [of "CHR '' ''" "rq_method r" "[]" 0 "rq_target r @ '' '' @ rq_version r"]
    by (simp add: plain_request_def start_line_def)
  have s2: "find_text '' '' (start_line r) (Suc (length (rq_method r)))
      = Some (Suc (length (rq_method r)) + length (rq_target r))"
    using assms find_char_split [of "CHR '' ''" "rq_target r" "rq_method r @ '' ''" "Suc (length (rq_method r))" "rq_version r"]
    by (simp add: plain_request_def start_line_def)
  show ?thesis
    using assms by (simp add: parse_request_def s1 s2 Let_def substr_def) (simp add: start_line_def plain_request_def)
qed

lemma head_lines:
  assumes "CR \<notin> set sl" "\<forall>h \<in> set hs. plain_header h"
  defines "head \<equiv> join CRLF (sl # map header_line hs)"
  shows "(case FindCRLF head 0 of None \<Rightarrow> head | Some i \<Rightarrow> take i head) = sl"
    "parse_headers head (case FindCRLF head 0 of None \<Rightarrow> length head | Some i \<Rightarrow> i + 2) m = fold add_header hs m"
proof -
  have "(case FindCRLF head 0 of None \<Rightarrow> head | Some i \<Rightarrow> take i head) = sl
    \<and> parse_headers head (case FindCRLF head 0 of None \<Rightarrow> length head | Some i \<Rightarrow> i + 2) m = fold add_header hs m"
  proof (cases hs)
    case Nil
    then show ?thesis
      using FindCRLF_last [OF assms(1), of "[]" 0] by (simp add: head_def parse_headers.simps)
  next
    case (Cons h t)
    let ?rest = "join CRLF (map header_line hs)"
    have head: "head = sl @ CR # LF # ?rest" by (simp add: head_def Cons)
    have f: "FindCRLF head 0 = Some (length sl)" using FindCRLF_line [OF assms(1), of "[]" 0 ?rest] by (simp add: head)
    have "parse_headers ((sl @ CRLF) @ ?rest) (length (sl @ CRLF)) m = fold add_header hs m"
      by (rule parse_headers_lines [OF assms(2)])
    with f show ?thesis by (simp add: head)
  qed
  then show "(case FindCRLF head 0 of None \<Rightarrow> head | Some i \<Rightarrow> take i head) = sl"
    "parse_headers head (case FindCRLF head 0 of None \<Rightarrow> length head | Some i \<Rightarrow> i + 2) m = fold add_header hs m"
    by blast+
qed

lemma dec_text_c_str: "c_str (dec_text n) = dec_text n"
proof -
  have "x \<noteq> CHR 0x00" if x: "x \<in> set (dec_text n)" for x
  proof -
    obtain d where d: "d < 10" "x = digit d" using numeral_text_digits [of 10 x n] x by auto
    have "(of_char (digit d) :: nat) = 48 + d" using d of_char_digit [of d] by simp
    then show ?thesis using d by auto
  qed
  then show ?thesis unfolding c_str_def by (intro iffD2 [OF takeWhile_eq_all_conv]) blast
qed

lemma parse_body_length:
  assumes "\<not> hm_chunked m" "hm_body m = []" "\<not> hm_bodyTruncated m" "length body < 2 ^ 32" "length pre = n"
    and "case List.find (\<lambda>h. Lower (hh_name h) = ''content-length'') (hm_headers m) of
          None \<Rightarrow> body = [] | Some h \<Rightarrow> hh_value h = dec_text (length body)"
  shows "\<exists>m'. parse_body (pre @ body @ post) n False m = Some (n + length body, m')
     \<and> m' = m\<lparr>hm_body := take kMaxBody body, hm_bodyBytes := length body, hm_bodyTruncated := (kMaxBody < length body)\<rparr>"
proof -
  have low: "Lower ''Content-Length'' = ''content-length''" by code_simp
  show ?thesis
  proof (cases "List.find (\<lambda>h. Lower (hh_name h) = ''content-length'') (hm_headers m)")
    case None
    then show ?thesis using assms by (simp add: parse_body_def HttpFindHeader_def low)
  next
    case (Some h)
    then have v: "unat (strtoul 10 (c_str (hh_value h))) = length body"
      using assms(4,6) by (simp add: dec_text_c_str strtoul_numeral unat_of_nat)
    have "kMaxBody \<noteq> 0" by (simp add: kMaxBody_def)
    then have "append_body (pre @ body @ post) n (length body) m
        = Some (m\<lparr>hm_body := take kMaxBody body, hm_bodyTruncated := kMaxBody < length body\<rparr>)"
      using assms(2,3,5) by (simp add: append_body_def read_part_def AppendCapped_take)
    with Some v assms(1) show ?thesis
      by (auto simp: parse_body_def HttpFindHeader_def low Let_def assms(5) [symmetric])
  qed
qed

lemma ParseOne_render:
  assumes r: "plain_request r"
  shows "\<exists>m. ParseOne (pre @ render r @ post) (length pre) False = Done (length pre + length (render r), m) \<and> reports r m"
proof -
  define head where "head = join CRLF (start_line r # map header_line (rq_headers r))"
  let ?d = "pre @ render r @ post"
  have d: "?d = pre @ head @ CRLF @ CRLF @ rq_body r @ post" by (simp add: render_def head_def)
  have len: "length (render r) = length head + 4 + length (rq_body r)" by (simp add: render_def head_def)
  have hs: "\<forall>h \<in> set (rq_headers r). plain_header h" using r by (simp add: plain_request_def list_all_iff)
  have sl: "CR \<notin> set (start_line r)" "start_line r \<noteq> []" using r by (auto simp: plain_request_def start_line_def)
  then have "\<forall>l \<in> set (start_line r # map header_line (rq_headers r)). plain_line l"
    using hs header_of_line(3) by (auto simp: plain_line_def)
  then have fd: "FindDoubleCRLF ?d (length pre) = Some (length pre + length head)"
    unfolding d head_def by (rule find_double_head)
  have first: "?d ! length pre = hd (rq_method r)" "length pre < length ?d"
    using r sl unfolding d head_def
    by (cases "rq_method r"; cases "rq_headers r"; simp add: start_line_def plain_request_def nth_append)+
  then have lk: "LooksLikeStartLine ?d (length pre) False" using r by (simp add: LooksLikeStartLine_def plain_request_def)
  have rd: "read_part ?d (length pre) (length pre + length head - length pre) = Some head"
    by (simp add: d read_part_def)
  define m1 where "m1 = new_message\<lparr>hm_isRequest := True, hm_method := rq_method r, hm_target := rq_target r, hm_version := rq_version r\<rparr>"
  define m2 where "m2 = fold add_header (rq_headers r) m1"
  have m2: "hm_headers m2 = rq_headers r" "\<not> hm_chunked m2" "hm_body m2 = []" "\<not> hm_bodyTruncated m2"
    "hm_method m2 = rq_method r" "hm_target m2 = rq_target r" "hm_version m2 = rq_version r" "hm_isRequest m2"
    using r by (simp_all add: m2_def fold_add_header m1_def new_message_def plain_request_def)
  have "\<exists>m'. parse_body ((pre @ head @ CRLF @ CRLF) @ rq_body r @ post) (length pre + length head + 4) False m2
      = Some (length pre + length head + 4 + length (rq_body r), m')
     \<and> m' = m2\<lparr>hm_body := take kMaxBody (rq_body r), hm_bodyBytes := length (rq_body r), hm_bodyTruncated := (kMaxBody < length (rq_body r))\<rparr>"
    using r m2 by (intro parse_body_length) (auto simp: plain_request_def)
  moreover have "parse_request (start_line r) (new_message\<lparr>hm_isRequest := \<not> False\<rparr>) = Some m1"
    using parse_request_line [OF r] by (simp add: m1_def)
  ultimately show ?thesis
    using lk fd rd m2 head_lines [OF sl(1) hs, folded head_def] len unfolding ParseOne_def
    by (auto simp: Let_def d reports_def simp flip: m2_def)
qed

lemma parse_all_render:
  assumes "\<forall>r \<in> set rs. plain_request r" "length out + length rs \<le> kMaxMessages"
  shows "\<exists>ms. parse_all (pre @ concat (map render rs)) False (length pre) out = Some (out @ ms) \<and> list_all2 reports rs ms"
  using assms
proof (induction rs arbitrary: pre out)
  case Nil
  then show ?case by (simp add: parse_all.simps)
next
  case (Cons r rs)
  let ?post = "concat (map render rs)" let ?d = "pre @ render r @ ?post"
  have r: "plain_request r" using Cons.prems(1) by simp
  obtain m where m: "ParseOne ?d (length pre) False = Done (length pre + length (render r), m)" "reports r m"
    using ParseOne_render [OF r] by blast
  obtain c cs where c: "render r = c # cs" "is_alpha c"
    using r by (cases "rq_method r"; cases "rq_headers r"; auto simp: render_def start_line_def plain_request_def)
  have "\<not> (c = CR \<or> c = LF)" using c(2) by (auto simp: is_alpha_def)
  then have sk: "skip_blank ?d (length pre) = length pre" by (simp add: skip_blank_def c)
  have "parse_all ?d False (length pre) out = parse_all ?d False (length pre + length (render r)) (out @ [m])"
    using Cons.prems(2) m(1) sk c(1) by (subst parse_all.simps) (simp add: Let_def)
  also have "\<dots> = parse_all ((pre @ render r) @ ?post) False (length (pre @ render r)) (out @ [m])" by simp
  finally have step: "parse_all ?d False (length pre) out = \<dots>" .
  obtain ms where "parse_all ((pre @ render r) @ ?post) False (length (pre @ render r)) (out @ [m]) = Some ((out @ [m]) @ ms)"
    "list_all2 reports rs ms"
    using Cons.IH [of "out @ [m]" "pre @ render r"] Cons.prems by auto
  with step m(2) show ?case by (intro exI [of _ "m # ms"]) simp
qed

subsection \<open>Chunked bodies\<close>

definition chunk_text :: "string \<Rightarrow> string" where
  "chunk_text c = hex_text (length c) @ CRLF @ c @ CRLF"

definition chunked_text :: "string list \<Rightarrow> string" where
  "chunked_text cs = concat (map chunk_text cs) @ ''0'' @ CRLF @ CRLF"

definition plain_chunk :: "string \<Rightarrow> bool" where
  "plain_chunk c \<longleftrightarrow> c \<noteq> [] \<and> length c < 2 ^ 32"

lemma digit_plain: "d < 16 \<Longrightarrow> \<not> blank (digit d) \<and> digit d \<noteq> CHR '';'' \<and> digit d \<noteq> CR \<and> digit d \<noteq> CHR 0x00"
  using of_char_digit [of d] by (auto simp: blank_def split: if_splits)

lemma hex_text_plain: "x \<in> set (hex_text n) \<Longrightarrow> \<not> blank x \<and> x \<noteq> CHR '';'' \<and> x \<noteq> CR \<and> x \<noteq> CHR 0x00"
  using numeral_text_digits [of 16 x n] digit_plain by auto

lemma Trim_plain: "(\<And>x. x \<in> set s \<Longrightarrow> \<not> blank x) \<Longrightarrow> Trim s = s"
proof -
  assume "\<And>x. x \<in> set s \<Longrightarrow> \<not> blank x"
  then have "dropWhile blank s = s" "dropWhile blank (rev s) = rev s"
    using hd_in_set [of s] hd_in_set [of "rev s"] by (auto simp: dropWhile_eq_self_iff)
  then show ?thesis by (simp add: Trim_def)
qed

lemma chunk_size_hex: "n < 2 ^ 32 \<Longrightarrow> chunk_size (hex_text n) = n"
proof -
  assume n: "n < 2 ^ 32"
  have "find_text '';'' (hex_text n) 0 = None"
    using find_char_none [of "CHR '';''" "hex_text n" "[]" 0] hex_text_plain by auto
  moreover have "Trim (hex_text n) = hex_text n" using hex_text_plain by (intro Trim_plain) blast
  moreover have "c_str (hex_text n) = hex_text n"
    unfolding c_str_def using hex_text_plain by (intro iffD2 [OF takeWhile_eq_all_conv]) blast
  ultimately show ?thesis using n by (simp add: chunk_size_def strtoul_numeral unat_of_nat)
qed

lemma append_body_part:
  assumes "length pre = n" "length (hm_body m) + length part \<le> kMaxBody" "part \<noteq> []"
  shows "append_body (pre @ part @ post) n (length part) m = Some (m\<lparr>hm_body := hm_body m @ part\<rparr>)"
proof -
  have "length (hm_body m) < kMaxBody" using assms(2,3) by (cases part) auto
  then show ?thesis using assms by (simp add: append_body_def read_part_def AppendCapped_take)
qed

lemma parse_chunks_text:
  assumes "\<forall>c \<in> set cs. plain_chunk c" "length (hm_body m) + length (concat cs) \<le> kMaxBody"
  shows "parse_chunks (pre @ chunked_text cs @ post) (length pre) m
    = Some (length pre + length (chunked_text cs), m\<lparr>hm_body := hm_body m @ concat cs\<rparr>)"
  using assms
proof (induction cs arbitrary: pre m)
  case Nil
  have "FindCRLF (pre @ ''0'' @ CR # LF # CRLF @ post) (length pre) = Some (length pre + 1)"
    using FindCRLF_line [of "''0''" pre "length pre"] by simp
  moreover have "FindCRLF ((pre @ ''0'' @ CRLF) @ [] @ CR # LF # post) (Suc (Suc (Suc (length pre)))) = Some (length pre + 3 + 0)"
    using FindCRLF_line [of "[]" "pre @ ''0'' @ CRLF" "Suc (Suc (Suc (length pre)))" post] by simp
  moreover have "digit 0 = CHR ''0''" by code_simp
  then have "chunk_size ''0'' = 0" using chunk_size_hex [of 0] by (simp add: numeral_text.simps)
  ultimately show ?case by (subst parse_chunks.simps) (simp add: chunked_text_def Let_def substr_def)
next
  case (Cons c cs)
  let ?h = "hex_text (length c)" and ?post = "chunked_text cs @ post"
  let ?d = "pre @ ?h @ CR # LF # c @ CR # LF # ?post"
  have c: "c \<noteq> []" "length c < 2 ^ 32" using Cons.prems(1) by (simp_all add: plain_chunk_def)
  have whole: "pre @ chunked_text (c # cs) @ post = ?d" by (simp add: chunked_text_def chunk_text_def)
  have f: "FindCRLF ?d (length pre) = Some (length pre + length ?h)"
    using hex_text_plain by (intro FindCRLF_line) auto
  have size: "chunk_size (substr (length pre) (length ?h) ?d) = length c"
    using chunk_size_hex [OF c(2)] by (simp add: substr_def)
  have app: "append_body ?d (length pre + length ?h + 2) (length c) m = Some (m\<lparr>hm_body := hm_body m @ c\<rparr>)"
    using append_body_part [of "pre @ ?h @ CRLF" "length pre + length ?h + 2" m c "CR # LF # ?post"] Cons.prems(2) c(1) by simp
  let ?r = "length pre + length ?h + 2 + length c"
  have crlf: "?d ! ?r = CR" "?d ! (?r + 1) = LF"
    using nth_append_length_plus [of "pre @ ?h @ CRLF @ c" "CR # LF # ?post" 0]
      nth_append_length_plus [of "pre @ ?h @ CRLF @ c" "CR # LF # ?post" 1] by (simp_all add: add.assoc)
  have "parse_chunks ?d (length pre) m = parse_chunks ?d (?r + 2) (m\<lparr>hm_body := hm_body m @ c\<rparr>)"
    using f size app crlf c(1) by (subst parse_chunks.simps) (simp add: Let_def)
  also have "\<dots> = parse_chunks ((pre @ chunk_text c) @ chunked_text cs @ post) (length (pre @ chunk_text c))
      (m\<lparr>hm_body := hm_body m @ c\<rparr>)"
    by (simp add: chunk_text_def add.assoc)
  also have "\<dots> = Some (length (pre @ chunk_text c) + length (chunked_text cs), m\<lparr>hm_body := (hm_body m @ c) @ concat cs\<rparr>)"
    using Cons.IH [of "m\<lparr>hm_body := hm_body m @ c\<rparr>" "pre @ chunk_text c"] Cons.prems by simp
  finally show ?case unfolding whole by (simp add: chunked_text_def)
qed

section \<open>Properties\<close>

text \<open>
  C28. The HTTP parser is total and stays in bounds. For any captured bytes and either grammar it
  returns, never reading outside the buffer, at most 64 messages; each is marked valid, its
  body is at most one MiB, and the positions up to which messages were consumed
  strictly increase and end within the buffer.
\<close>

theorem HttpParse_total:
  "\<exists>ms. HttpParse buf asResponse = Some ms \<and> length ms \<le> 64
     \<and> (\<forall>m \<in> set ms. hm_valid m \<and> length (hm_body m) \<le> 1048576 \<and> hm_consumed m \<le> length buf)
     \<and> sorted_wrt (<) (map hm_consumed ms)"
  using parse_all_total [of "[]" 0 "text_of buf" asResponse]
  by (auto simp: HttpParse_def capped_def kMaxBody_def kMaxMessages_def)

definition sample_request :: http_request where
  "sample_request = \<lparr>rq_method = ''POST'', rq_target = ''/a'', rq_version = ''HTTP/1.1'',
     rq_headers = [\<lparr>hh_name = ''Content-Length'', hh_value = ''2''\<rparr>], rq_body = ''hi''\<rparr>"

lemma sample_request_plain: "plain_request sample_request"
proof -
  have "digit (Suc (Suc 0)) = CHR ''2''" "Lower ''Content-Length'' = ''content-length''" by code_simp+
  then show ?thesis
    by (simp add: plain_request_def sample_request_def plain_header_def asks_chunked_def is_alpha_def Trim_def
        blank_def numeral_text.simps)
qed

theorem HttpParse_total_witness:
  "\<exists>ms. HttpParse (bytes_of_text (render sample_request)) False = Some ms \<and> length ms \<le> 64
     \<and> sorted_wrt (<) (map hm_consumed ms)"
  using HttpParse_total [of "bytes_of_text (render sample_request)" False] by blast

text \<open>
  C26. Pipelined requests are read back exactly. The parse of up to 64 requests written one behind
  the other, each with a start line, headers without surrounding blanks, and a body announced by
  its Content-Length (or none), reports as many requests in order, each with the method,
  target, version, headers and body that were written; a body beyond one MiB is cut
  there, marked truncated, and still counted in full and skipped in full.
\<close>

theorem HttpParse_requests:
  assumes "\<forall>r \<in> set rs. plain_request r" "length rs \<le> 64"
  shows "\<exists>ms. HttpParse (bytes_of_text (concat (map render rs))) False = Some ms \<and> list_all2 reports rs ms"
proof (cases "concat (map render rs) = []")
  case True
  then have "rs = []" by (cases rs) (auto simp: render_def)
  then show ?thesis by (simp add: HttpParse_def bytes_of_text_def)
next
  case False
  then have "bytes_of_text (concat (map render rs)) \<noteq> []" by (simp add: bytes_of_text_def)
  then show ?thesis
    using parse_all_render [OF assms(1), of "[]" "[]"] assms(2) by (simp add: HttpParse_def kMaxMessages_def)
qed

theorem HttpParse_requests_witness:
  "\<exists>ms. HttpParse (bytes_of_text (concat (map render [sample_request, sample_request]))) False = Some ms
     \<and> list_all2 reports [sample_request, sample_request] ms"
  using HttpParse_requests [of "[sample_request, sample_request]"] sample_request_plain by simp

text \<open>
  C29. A chunked body is decoded to its data. For any chunks that are not empty, whose sum is at most
  one MiB, written with hexadecimal lengths and the closing empty chunk, the body is their
  concatenation, nothing is marked truncated, and parsing goes on right behind the encoding.
\<close>

theorem chunked_round_trip:
  assumes "hm_chunked m" "hm_body m = []" "\<forall>c \<in> set cs. plain_chunk c" "length (concat cs) \<le> 1048576"
  shows "parse_body (pre @ chunked_text cs @ post) (length pre) asResponse m
    = Some (length pre + length (chunked_text cs),
        m\<lparr>hm_body := concat cs, hm_bodyBytes := length (concat cs)\<rparr>)"
  using parse_chunks_text [OF assms(3), of m pre post] assms by (simp add: parse_body_def kMaxBody_def)

theorem chunked_round_trip_witness:
  "parse_body (''x'' @ chunked_text [''abc'', ''d''] @ ''y'') 1 True (new_message\<lparr>hm_chunked := True\<rparr>)
    = Some (1 + length (chunked_text [''abc'', ''d'']),
        new_message\<lparr>hm_chunked := True, hm_body := ''abcd'', hm_bodyBytes := 4\<rparr>)"
  using chunked_round_trip [of "new_message\<lparr>hm_chunked := True\<rparr>" "[''abc'', ''d'']" "''x''" "''y''" True]
  by (simp add: new_message_def plain_chunk_def)

end
