(* ===== verification/Knd_Feed.thy ===== *)
theory Knd_Feed
  imports Knd_Model Knd_Http
begin

text \<open>
  Records that the application makes itself and feeds to its own model: what a record has to
  hold so that it is ingested in bounds, the contract of a source of such records as a locale, and
  the demonstration source (\<^verbatim>\<open>src/app/src/mock.cpp\<close>). The conversion to UTF-16, the clock, the
  random numbers and the comparisons of the user interface's clock are parameters.
\<close>

section \<open>Sources of records\<close>

definition ingestible :: "bytes \<Rightarrow> bool" where
  "ingestible r \<longleftrightarrow> sizeof_RECORD \<le> length r \<and>
     (let ty = rec_type (dec_record r); body = drop sizeof_RECORD r in
      if ty = KND_REC_CONN_OPEN then 80 + 2 * unat (cp_processPathChars (dec_conn body)) \<le> length body
      else if ty = KND_REC_CONN_CLOSE then 72 \<le> length body
      else if ty = KND_REC_DATA then sizeof_DATA_PAYLOAD + unat (dp_dataLength (dec_data body)) \<le> length body
      else True)"

lemma ingestible_total:
  fixes mdl :: "'t knd_model"
  assumes "ingestible r"
  shows "\<exists>m'. ingest utf8 r now mdl = Some m'"
proof -
  let ?body = "drop sizeof_RECORD r" and ?rec = "dec_record r"
  have len: "sizeof_RECORD \<le> length r" using assms by (simp add: ingestible_def)
  consider (connect) "rec_type ?rec = KND_REC_CONN_OPEN" | (disconnect) "rec_type ?rec = KND_REC_CONN_CLOSE"
    | (data) "rec_type ?rec = KND_REC_DATA"
    | (other) "rec_type ?rec \<notin> {KND_REC_CONN_OPEN, KND_REC_CONN_CLOSE, KND_REC_DATA}" by blast
  then show ?thesis
  proof cases
    case connect
    with assms have "80 + 2 * unat (cp_processPathChars (dec_conn ?body)) \<le> length ?body"
      by (simp add: ingestible_def Let_def)
    then have "\<exists>m'. ingest_open utf8 ?rec ?body now m = Some m'" for m :: "'t knd_model"
      using push_conn [of ?rec] connect by (auto simp: ingest_open_def Let_def split: prod.split)
    with connect len show ?thesis by (simp add: ingest_def Let_def)
  next
    case disconnect
    with assms have "72 \<le> length ?body" by (simp add: ingestible_def Let_def const_defs)
    then have "\<exists>m'. ingest_close ?rec ?body now m = Some m'" for m :: "'t knd_model"
      using push_conn [of ?rec] disconnect by (auto simp: ingest_close_def Let_def split: prod.split)
    with disconnect len show ?thesis by (simp add: ingest_def Let_def const_defs)
  next
    case data
    let ?n = "dp_dataLength (dec_data ?body)"
    have b: "sizeof_DATA_PAYLOAD + unat ?n \<le> length ?body"
      using assms data by (simp add: ingestible_def Let_def const_defs)
    then have n: "unat ?n \<le> length (drop sizeof_DATA_PAYLOAD ?body)" by simp
    have "\<exists>f'. data_flow cap rec now (dec_data ?body) (drop sizeof_DATA_PAYLOAD ?body) f = Some f'"
      for cap rec and f :: "'t knd_flow"
      unfolding data_flow_def Let_def by (rule append_payload_total [OF n])
    then have "\<exists>m'. ingest_data ?rec ?body now m = Some m'" for m :: "'t knd_model"
      using b by (intro ingest_data_total [OF _ push_data [OF n] refl refl]) simp_all
    with data len show ?thesis by (simp add: ingest_def Let_def const_defs)
  next
    case other
    with len show ?thesis by (simp add: ingest_def Let_def)
  qed
qed

text \<open>
  A source turns messages into records: each is ingested in bounds, and contributes known
  bytes to each direction of each flow.
\<close>

locale record_source =
  fixes make :: "'a \<Rightarrow> bytes"
    and valid :: "'a \<Rightarrow> bool"
    and part :: "'a \<Rightarrow> u64 \<Rightarrow> nat \<Rightarrow> bytes"
  assumes make_ingestible: "valid a \<Longrightarrow> ingestible (make a)"
    and make_part: "valid a \<Longrightarrow> data_part fid d (make a) = part a fid d"
begin

lemma source_stream: "\<forall>a \<in> set as. valid a \<Longrightarrow> stream_of fid d (map make as) = concat (map (\<lambda>a. part a fid d) as)"
  by (induction as) (simp_all add: stream_of_def make_part)

lemma source_total:
  fixes mdl :: "'t knd_model"
  shows "\<forall>a \<in> set as. valid a \<Longrightarrow> \<exists>m'. ingest_all utf8 (map make as) now mdl = Some m'"
proof (induction as arbitrary: mdl)
  case (Cons a as)
  then show ?case using ingestible_total [OF make_ingestible, of a utf8 now mdl] by auto
qed simp

theorem source_ingested:
  fixes mdl :: "'t knd_model"
  assumes "\<forall>a \<in> set as. valid a" "model_wf mdl"
  shows "\<exists>m'. ingest_all utf8 (map make as) now mdl = Some m' \<and> model_wf m'
    \<and> (\<forall>fid d S. d < 2 \<and> model_stream mdl fid d S \<longrightarrow>
         model_stream m' fid d (S @ concat (map (\<lambda>a. part a fid d) as)))"
proof -
  obtain m' where m': "ingest_all utf8 (map make as) now mdl = Some m'" using source_total [OF assms(1), of utf8 now mdl] by (elim exE)
  with ingest_all_ok [OF assms(2) m'] show ?thesis by (auto simp: step_ok_def source_stream [OF assms(1)])
qed

end

text \<open>The records that the application makes have a prefix and a payload of the shared layout.\<close>

lemma ingestible_conn:
  assumes "rec_type r = KND_REC_CONN_OPEN \<or> rec_type r = KND_REC_CONN_CLOSE" "wf_conn p"
    "unat (cp_processPathChars p) \<le> KND_PROCPATH_CHARS"
  shows "ingestible (enc_record r @ enc_conn p)" "data_part fid d (enc_record r @ enc_conn p) = []"
proof -
  have l: "length (enc_record r) = 24" "length (enc_conn p) = 600"
    using record_wire.enc_length [of r] conn_wire.enc_length [OF assms(2)] by (simp_all add: layout_defs)
  have d: "dec_record (enc_record r @ enc_conn p) = r" "dec_conn (enc_conn p) = p"
    by (simp_all add: record_wire.dec_enc conn_wire.dec_enc_exact [OF assms(2)])
  show "ingestible (enc_record r @ enc_conn p)"
    using assms(1,3) l by (auto simp: ingestible_def d sizeof_RECORD_def const_defs)
  show "data_part fid d (enc_record r @ enc_conn p) = []"
    using assms(1) by (auto simp: data_part_def Let_def d const_defs)
qed

lemma ingestible_data:
  assumes "rec_type r = KND_REC_DATA" "unat (dp_dataLength p) = length bs"
  shows "ingestible (enc_record r @ enc_data p @ bs)"
    "data_part fid d (enc_record r @ enc_data p @ bs) =
       (if fid = dp_flowId p \<and> d = flow_dir (dp_direction p) then bs else [])"
proof -
  have l: "length (enc_record r) = 24" "length (enc_data p) = 16"
    using record_wire.enc_length [of r] data_wire.enc_length [of p] by (simp_all add: layout_defs)
  have d: "dec_record (enc_record r @ enc_data p @ bs) = r" "dec_data (enc_data p @ bs) = p"
    by (simp_all add: record_wire.dec_enc data_wire.dec_enc)
  show "ingestible (enc_record r @ enc_data p @ bs)"
    using assms l by (simp add: ingestible_def d layout_defs const_defs)
  show "data_part fid d (enc_record r @ enc_data p @ bs) =
       (if fid = dp_flowId p \<and> d = flow_dir (dp_direction p) then bs else [])"
    using assms l by (auto simp: data_part_def Let_def d layout_defs)
qed

text \<open>The conversion to UTF-16: the count it returns, with the terminator, and what it leaves in the buffer.\<close>

type_synonym widen_fun = "string \<Rightarrow> nat \<times> u16 list"

definition widen_ok :: "widen_fun \<Rightarrow> bool" where
  "widen_ok widen \<longleftrightarrow> (\<forall>s. fst (widen s) \<le> KND_PROCPATH_CHARS \<and> length (snd (widen s)) = KND_PROCPATH_CHARS)"

datatype app_msg = MConn knd_record knd_conn_payload | MData knd_record knd_data_payload bytes

fun app_make :: "app_msg \<Rightarrow> bytes" where
  "app_make (MConn r p) = enc_record r @ enc_conn p"
| "app_make (MData r p bs) = enc_record r @ enc_data p @ bs"

fun app_valid :: "app_msg \<Rightarrow> bool" where
  "app_valid (MConn r p) \<longleftrightarrow> (rec_type r = KND_REC_CONN_OPEN \<or> rec_type r = KND_REC_CONN_CLOSE) \<and> wf_conn p
     \<and> unat (cp_processPathChars p) \<le> KND_PROCPATH_CHARS"
| "app_valid (MData r p bs) \<longleftrightarrow> rec_type r = KND_REC_DATA \<and> unat (dp_dataLength p) = length bs"

fun app_part :: "app_msg \<Rightarrow> u64 \<Rightarrow> nat \<Rightarrow> bytes" where
  "app_part (MConn r p) fid d = []"
| "app_part (MData r p bs) fid d = (if fid = dp_flowId p \<and> d = flow_dir (dp_direction p) then bs else [])"

interpretation app_source: record_source app_make app_valid app_part
proof
  fix a fid d
  assume "app_valid a"
  then show "ingestible (app_make a)" by (cases a) (auto intro: ingestible_conn(1) ingestible_data(1))
next
  fix a fid d
  assume "app_valid a"
  then show "data_part fid d (app_make a) = app_part a fid d"
    by (cases a) (auto simp: ingestible_conn(2) ingestible_data(2))
qed

lemma app_ingest:
  fixes mdl :: "'t knd_model"
  assumes "app_valid a" "model_wf mdl"
  shows "\<exists>m'. ingest utf8 (app_make a) now mdl = Some m' \<and> model_wf m' \<and> payloadCap m' = payloadCap mdl
    \<and> (\<forall>fid d S. d < 2 \<and> model_stream mdl fid d S \<longrightarrow> model_stream m' fid d (S @ app_part a fid d))"
proof -
  obtain m' where m': "ingest utf8 (app_make a) now mdl = Some m'"
    using ingestible_total [OF app_source.make_ingestible [OF assms(1)], of utf8 now mdl] by (elim exE)
  with ingest_ok [OF assms(2) m'] show ?thesis by (auto simp: step_ok_def app_source.make_part [OF assms(1)])
qed

text \<open>The system's file time, in two halves, as one 64-bit count.\<close>

definition NowTicks :: "u32 \<times> u32 \<Rightarrow> u64" where
  "NowTicks ft = (case ft of (high, low) \<Rightarrow> push_bit 32 (ucast high) OR ucast low)"

section \<open>The demonstration source\<close>

text \<open>The draws of the random generator come as a function of their number, the
  clock's values as a function of the number of the record that asks; the two comparisons are
  \<open>now - last > 0.8\<close> and \<open>now - last > 0.12\<close> of the user interface's clock.\<close>

record 't mock_state =
  s_lastConn :: 't
  s_lastData :: 't
  s_seq :: u64
  s_nextFlow :: u64
  s_flows :: "u64 list"
  s_drawn :: nat

definition mock_record :: "u16 \<Rightarrow> u64 \<Rightarrow> u64 \<Rightarrow> nat \<Rightarrow> knd_record" where
  "mock_record ty sq ts len = \<lparr>rec_length = word_of_nat len, rec_type = ty, rec_flags = 0,
     rec_sequence = sq, rec_timestamp = ts\<rparr>"

definition mock_conn :: "widen_fun \<Rightarrow> u64 \<Rightarrow> string \<Rightarrow> bytes \<Rightarrow> u16 \<Rightarrow> knd_conn_payload" where
  "mock_conn widen flow proc rip rport =
     (let p = zero_conn\<lparr>cp_flowId := flow, cp_processId := 4000 + flow mod 1000, cp_protocol := KND_PROTO_TCP,
                cp_ipVersion := KND_IPV4, cp_direction := KND_DIR_OUTBOUND,
                cp_localPort := ucast (50000 + flow mod 10000), cp_remotePort := rport,
                cp_localAddr := [192, 168, 1, 50] @ replicate 12 0,
                cp_remoteAddr := take 4 rip @ replicate 12 0\<rparr>;
          (n, wpath) = widen (c_str proc) in
      if 0 < n
      then p\<lparr>cp_processPath := take (n - 1) wpath @ drop (n - 1) (cp_processPath p),
              cp_processPathChars := word_of_nat (n - 1)\<rparr>
      else p)"

definition EmitConnOpen ::
  "widen_fun \<Rightarrow> (u16 list \<Rightarrow> string) \<Rightarrow> (u64 \<Rightarrow> u32 \<times> u32) \<Rightarrow> 't \<Rightarrow> u64 \<Rightarrow> string \<Rightarrow> bytes \<Rightarrow> u16
     \<Rightarrow> 't mock_state \<times> 't knd_model \<Rightarrow> ('t mock_state \<times> 't knd_model) option" where
  "EmitConnOpen widen utf8 clock now flow proc rip rport sm = (case sm of (s, mdl) \<Rightarrow>
     (let r = mock_record KND_REC_CONN_OPEN (s_seq s) (NowTicks (clock (s_seq s))) (sizeof_RECORD + sizeof_CONN_PAYLOAD) in
      map_option (Pair (s\<lparr>s_seq := s_seq s + 1\<rparr>))
        (ingest utf8 (enc_record r @ enc_conn (mock_conn widen flow proc rip rport)) now mdl)))"

definition mock_data :: "u64 \<Rightarrow> u8 \<Rightarrow> bytes \<Rightarrow> knd_data_payload" where
  "mock_data flow dir bs = \<lparr>dp_flowId = flow, dp_direction = dir, dp_dataKind = KND_DATA_CIPHERTEXT,
     dp_reserved0 = 0, dp_dataLength = word_of_nat (length bs)\<rparr>"

definition EmitData ::
  "(u16 list \<Rightarrow> string) \<Rightarrow> (u64 \<Rightarrow> u32 \<times> u32) \<Rightarrow> 't \<Rightarrow> u64 \<Rightarrow> u8 \<Rightarrow> bytes
     \<Rightarrow> 't mock_state \<times> 't knd_model \<Rightarrow> ('t mock_state \<times> 't knd_model) option" where
  "EmitData utf8 clock now flow dir bs sm = (case sm of (s, mdl) \<Rightarrow>
     (let r = mock_record KND_REC_DATA (s_seq s) (NowTicks (clock (s_seq s))) (sizeof_RECORD + sizeof_DATA_PAYLOAD + length bs) in
      map_option (Pair (s\<lparr>s_seq := s_seq s + 1\<rparr>)) (ingest utf8 (enc_record r @ enc_data (mock_data flow dir bs) @ bs) now mdl)))"

definition path :: "string list \<Rightarrow> string" where
  "path = join [CHR 0x5C]"

definition mock_procs :: "string list" where
  "mock_procs = map path
     [[''C:'', ''Windows'', ''System32'', ''svchost.exe''],
      [''C:'', ''Program Files'', ''Google'', ''Chrome'', ''chrome.exe''],
      [''C:'', ''samples'', ''malware_sample.exe''],
      [''C:'', ''Windows'', ''System32'', ''WindowsPowerShell'', ''v1.0'', ''powershell.exe''],
      [''C:'', ''Users'', ''analyst'', ''AppData'', ''Local'', ''Discord'', ''Discord.exe''],
      [''C:'', ''Windows'', ''System32'', ''curl.exe'']]"

definition mock_request :: string where
  "mock_request = join [CHR 0x0D, CHR 0x0A]
     [''GET /api/v1/telemetry?id=42 HTTP/1.1'', ''Host: cdn.example.net'',
      ''User-Agent: Mozilla/5.0 (Windows NT 10.0; Win64; x64)'', ''Accept: */*'', [], []]"

definition mock_response :: string where
  "mock_response = join [CHR 0x0D, CHR 0x0A]
     [''HTTP/1.1 200 OK'', ''Content-Type: application/json'', ''Content-Length: 27'', [],
      [CHR ''{'', CHR 0x22] @ ''ok'' @ [CHR 0x22] @ '':true,'' @ [CHR 0x22] @ ''value'' @ [CHR 0x22] @ '':1234567}'', []]"

definition mock_ip :: "(nat \<Rightarrow> nat) \<Rightarrow> nat \<Rightarrow> bytes" where
  "mock_ip rnd k = [word_of_nat (20 + rnd k mod 200), word_of_nat (rnd (k + 1) mod 255),
     word_of_nat (rnd (k + 2) mod 255), word_of_nat (1 + rnd (k + 3) mod 254)]"

definition mock_connect ::
  "('t \<Rightarrow> 't \<Rightarrow> bool) \<Rightarrow> (nat \<Rightarrow> nat) \<Rightarrow> widen_fun \<Rightarrow> (u16 list \<Rightarrow> string) \<Rightarrow> (u64 \<Rightarrow> u32 \<times> u32) \<Rightarrow> 't
     \<Rightarrow> 't mock_state \<times> 't knd_model \<Rightarrow> ('t mock_state \<times> 't knd_model) option" where
  "mock_connect due_conn rnd widen utf8 clock now sm = (case sm of (s, mdl) \<Rightarrow>
     if due_conn now (s_lastConn s) \<and> length (s_flows s) < 14
     then (let k = s_drawn s; flow = s_nextFlow s in
       map_option (\<lambda>(s2, m2). (s2\<lparr>s_flows := s_flows s2 @ [flow]\<rparr>, m2))
         (EmitConnOpen widen utf8 clock now flow (mock_procs ! (rnd k mod 6)) (mock_ip rnd (k + 1))
            (if rnd (k + 5) mod 2 \<noteq> 0 then 443 else 80)
            (s\<lparr>s_lastConn := now, s_nextFlow := flow + 1, s_drawn := k + 6\<rparr>, mdl)))
     else Some (s, mdl))"

definition mock_transfer ::
  "('t \<Rightarrow> 't \<Rightarrow> bool) \<Rightarrow> (nat \<Rightarrow> nat) \<Rightarrow> (u16 list \<Rightarrow> string) \<Rightarrow> (u64 \<Rightarrow> u32 \<times> u32) \<Rightarrow> 't
     \<Rightarrow> 't mock_state \<times> 't knd_model \<Rightarrow> ('t mock_state \<times> 't knd_model) option" where
  "mock_transfer due_data rnd utf8 clock now sm = (case sm of (s, mdl) \<Rightarrow>
     if s_flows s \<noteq> [] \<and> due_data now (s_lastData s)
     then (let k = s_drawn s; flow = s_flows s ! (rnd k mod length (s_flows s));
               s1 = s\<lparr>s_lastData := now, s_drawn := k + 2\<rparr> in
       if rnd (k + 1) mod 2 \<noteq> 0
       then EmitData utf8 clock now flow KND_DIR_OUTBOUND (bytes_of_text mock_request) (s1, mdl)
       else EmitData utf8 clock now flow KND_DIR_INBOUND (bytes_of_text mock_response) (s1, mdl))
     else Some (s, mdl))"

definition Mock_Pump ::
  "('t \<Rightarrow> 't \<Rightarrow> bool) \<Rightarrow> ('t \<Rightarrow> 't \<Rightarrow> bool) \<Rightarrow> (nat \<Rightarrow> nat) \<Rightarrow> widen_fun \<Rightarrow> (u16 list \<Rightarrow> string) \<Rightarrow> (u64 \<Rightarrow> u32 \<times> u32) \<Rightarrow> 't
     \<Rightarrow> 't mock_state \<times> 't knd_model \<Rightarrow> ('t mock_state \<times> 't knd_model) option" where
  "Mock_Pump due_conn due_data rnd widen utf8 clock now sm =
     Option.bind (mock_connect due_conn rnd widen utf8 clock now sm) (mock_transfer due_data rnd utf8 clock now)"

definition new_mock :: "'t \<Rightarrow> 't mock_state" where
  "new_mock t0 = \<lparr>s_lastConn = t0, s_lastData = t0, s_seq = 1, s_nextFlow = 1000, s_flows = [], s_drawn = 0\<rparr>"

definition mock_inv :: "'t mock_state \<Rightarrow> bool" where
  "mock_inv s \<longleftrightarrow> (\<exists>n \<le> 14. s_flows s = map (\<lambda>i. 1000 + of_nat i) [0..<n] \<and> s_nextFlow s = 1000 + of_nat n)"

lemma mock_conn_valid: "widen_ok widen \<Longrightarrow> app_valid (MConn (mock_record KND_REC_CONN_OPEN sq ts len) (mock_conn widen flow proc (mock_ip rnd k) rport))"
proof -
  assume "widen_ok widen"
  moreover obtain n wpath where w: "widen (c_str proc) = (n, wpath)" by fastforce
  ultimately have "n \<le> 260" "length wpath = 260" unfolding widen_ok_def const_defs by (metis fst_conv snd_conv)+
  then show ?thesis
    by (auto simp: mock_conn_def w Let_def wf_conn_def zero_conn_def mock_record_def const_defs mock_ip_def unat_of_nat
        simp del: of_nat_diff)
qed

lemma mock_data_valid: "length bs < 2 ^ 32 \<Longrightarrow> app_valid (MData (mock_record KND_REC_DATA sq ts len) (mock_data flow dir bs) bs)"
  by (simp add: mock_data_def mock_record_def unat_of_nat)

lemma mock_lengths: "length mock_request < 2 ^ 32" "length mock_response < 2 ^ 32"
  by (simp_all add: mock_request_def mock_response_def)

definition model_step :: "'t knd_model \<Rightarrow> (u64 \<Rightarrow> nat \<Rightarrow> bytes) \<Rightarrow> 't knd_model \<Rightarrow> bool" where
  "model_step mdl part m' \<longleftrightarrow> model_wf m' \<and> (\<forall>fid d S. d < 2 \<and> model_stream mdl fid d S \<longrightarrow> model_stream m' fid d (S @ part fid d))"

lemma mock_connect_ok:
  fixes mdl :: "'t knd_model"
  assumes "widen_ok widen" "mock_inv s" "model_wf mdl"
  shows "\<exists>s' m'. mock_connect due rnd widen utf8 clock now (s, mdl) = Some (s', m') \<and> mock_inv s' \<and> model_step mdl (\<lambda>_ _. []) m'"
proof (cases "due now (s_lastConn s) \<and> length (s_flows s) < 14")
  case True
  let ?a = "MConn (mock_record KND_REC_CONN_OPEN (s_seq s) (NowTicks (clock (s_seq s))) (sizeof_RECORD + sizeof_CONN_PAYLOAD))
      (mock_conn widen (s_nextFlow s) (mock_procs ! (rnd (s_drawn s) mod 6)) (mock_ip rnd (s_drawn s + 1))
         (if rnd (s_drawn s + 5) mod 2 \<noteq> 0 then 443 else 80))"
  have v: "app_valid ?a" by (rule mock_conn_valid [OF assms(1)])
  obtain m' where m': "ingest utf8 (app_make ?a) now mdl = Some m'" "model_step mdl (app_part ?a) m'"
    using app_ingest [OF v assms(3), of utf8 now]
    unfolding model_step_def by blast
  obtain n where n: "n \<le> 14" "s_flows s = map (\<lambda>i. 1000 + of_nat i) [0..<n]" "s_nextFlow s = 1000 + of_nat n"
    using assms(2) by (auto simp: mock_inv_def)
  have "mock_inv (s\<lparr>s_lastConn := now, s_nextFlow := s_nextFlow s + 1, s_drawn := s_drawn s + 6, s_seq := s_seq s + 1,
      s_flows := s_flows s @ [s_nextFlow s]\<rparr>)"
    unfolding mock_inv_def using n True by (intro exI [of _ "Suc n"]) simp
  moreover have "app_part ?a = (\<lambda>_ _. [])" by (simp add: fun_eq_iff)
  ultimately show ?thesis
    using True m' by (simp add: mock_connect_def EmitConnOpen_def Let_def)
next
  case False
  then show ?thesis using assms by (auto simp: mock_connect_def model_step_def)
qed

definition mock_part :: "u64 list \<Rightarrow> (u64 \<Rightarrow> nat \<Rightarrow> bytes) \<Rightarrow> bool" where
  "mock_part fs part \<longleftrightarrow> (\<forall>fid d. part fid d \<noteq> [] \<longrightarrow> fid \<in> set fs \<and>
     (d = 0 \<and> part fid d = bytes_of_text mock_request \<or> d = 1 \<and> part fid d = bytes_of_text mock_response))"

lemma mock_emit:
  fixes mdl :: "'t knd_model"
  assumes "model_wf mdl" "length bs < 2 ^ 32" "mock_inv s"
  shows "\<exists>s' m'. EmitData utf8 clock now flow dir bs (s, mdl) = Some (s', m') \<and> mock_inv s'
     \<and> model_step mdl (\<lambda>fid d. if fid = flow \<and> d = flow_dir dir then bs else []) m'"
proof -
  let ?a = "MData (mock_record KND_REC_DATA (s_seq s) (NowTicks (clock (s_seq s)))
      (sizeof_RECORD + sizeof_DATA_PAYLOAD + length bs)) (mock_data flow dir bs) bs"
  have v: "app_valid ?a" by (rule mock_data_valid [OF assms(2)])
  obtain m' where "ingest utf8 (app_make ?a) now mdl = Some m'" "model_step mdl (app_part ?a) m'"
    using app_ingest [OF v assms(1), of utf8 now]
    unfolding model_step_def by blast
  moreover have "app_part ?a = (\<lambda>fid d. if fid = flow \<and> d = flow_dir dir then bs else [])"
    by (simp add: fun_eq_iff mock_data_def)
  ultimately show ?thesis using assms(3) by (simp add: EmitData_def Let_def mock_inv_def)
qed

lemma mock_transfer_ok:
  fixes mdl :: "'t knd_model"
  assumes "mock_inv s" "model_wf mdl"
  shows "\<exists>s' m' part. mock_transfer due rnd utf8 clock now (s, mdl) = Some (s', m') \<and> mock_inv s'
     \<and> mock_part (s_flows s) part \<and> model_step mdl part m'"
proof (cases "s_flows s \<noteq> [] \<and> due now (s_lastData s)")
  case True
  define s1 where "s1 = s\<lparr>s_lastData := now, s_drawn := s_drawn s + 2\<rparr>"
  define flow where "flow = s_flows s ! (rnd (s_drawn s) mod length (s_flows s))"
  have f: "flow \<in> set (s_flows s)" using True by (simp add: flow_def)
  have s1: "mock_inv s1" using assms(1) by (simp add: mock_inv_def s1_def)
  note emit = mock_emit [OF assms(2) _ s1, of _ utf8 clock now flow]
  show ?thesis
  proof (cases "rnd (s_drawn s + 1) mod 2 \<noteq> 0")
    case odd: True
    obtain s' m' where "EmitData utf8 clock now flow KND_DIR_OUTBOUND (bytes_of_text mock_request) (s1, mdl) = Some (s', m')"
      "mock_inv s'" "model_step mdl (\<lambda>fid d. if fid = flow \<and> d = flow_dir KND_DIR_OUTBOUND then bytes_of_text mock_request else []) m'"
      using emit [of "bytes_of_text mock_request" KND_DIR_OUTBOUND] mock_lengths by auto
    moreover have "mock_part (s_flows s) (\<lambda>fid d. if fid = flow \<and> d = flow_dir KND_DIR_OUTBOUND then bytes_of_text mock_request else [])"
      using f by (simp add: mock_part_def flow_dir_def const_defs)
    ultimately show ?thesis using True odd by (auto simp: mock_transfer_def Let_def s1_def flow_def)
  next
    case even: False
    obtain s' m' where "EmitData utf8 clock now flow KND_DIR_INBOUND (bytes_of_text mock_response) (s1, mdl) = Some (s', m')"
      "mock_inv s'" "model_step mdl (\<lambda>fid d. if fid = flow \<and> d = flow_dir KND_DIR_INBOUND then bytes_of_text mock_response else []) m'"
      using emit [of "bytes_of_text mock_response" KND_DIR_INBOUND] mock_lengths by auto
    moreover have "mock_part (s_flows s) (\<lambda>fid d. if fid = flow \<and> d = flow_dir KND_DIR_INBOUND then bytes_of_text mock_response else [])"
      using f by (simp add: mock_part_def flow_dir_def const_defs)
    ultimately show ?thesis using True even by (auto simp: mock_transfer_def Let_def s1_def flow_def)
  qed
next
  case False
  then show ?thesis using assms by (auto simp: mock_transfer_def model_step_def mock_part_def intro: exI [of _ "\<lambda>_ _. []"])
qed

text \<open>
  The demonstration source keeps the model in order. Each pump ingests its records in bounds; the
  source has at most 14 flows, numbered from 1000 without gaps; the model keeps its invariant; and
  a stream grows, if at all, by one whole request outbound or one whole response
  inbound, on a flow of the source.
\<close>

theorem Mock_Pump_ok:
  fixes mdl :: "'t knd_model"
  assumes "widen_ok widen" "mock_inv s" "model_wf mdl"
  shows "\<exists>s' m' part. Mock_Pump due_conn due_data rnd widen utf8 clock now (s, mdl) = Some (s', m') \<and> mock_inv s' \<and> model_wf m'
    \<and> mock_part (s_flows s') part \<and> (\<forall>fid d S. d < 2 \<and> model_stream mdl fid d S \<longrightarrow> model_stream m' fid d (S @ part fid d))"
proof -
  obtain s1 m1 where a: "mock_connect due_conn rnd widen utf8 clock now (s, mdl) = Some (s1, m1)" "mock_inv s1"
    "model_step mdl (\<lambda>_ _. []) m1"
    using mock_connect_ok [OF assms, of due_conn rnd utf8 clock now] by blast
  then have "model_wf m1" by (simp add: model_step_def)
  then obtain s' m' part where b: "mock_transfer due_data rnd utf8 clock now (s1, m1) = Some (s', m')" "mock_inv s'"
    "mock_part (s_flows s1) part" "model_step m1 part m'"
    using mock_transfer_ok [OF a(2), of m1 due_data rnd utf8 clock now] by blast
  have "s_flows s' = s_flows s1"
    using b(1) by (auto simp: mock_transfer_def EmitData_def Let_def split: if_splits)
  then show ?thesis using a b unfolding Mock_Pump_def model_step_def by auto
qed

definition plain_widen :: widen_fun where
  "plain_widen s = (min 260 (Suc (length s)), take 260 (map (\<lambda>c. ucast (byte c)) s @ replicate 260 0))"

lemma plain_widen_ok: "widen_ok plain_widen"
  by (auto simp: widen_ok_def plain_widen_def const_defs min_def)

lemma new_mock_inv: "mock_inv (new_mock t0)"
  by (simp add: mock_inv_def new_mock_def)

theorem Mock_Pump_ok_witness:
  "\<exists>s' m' part. Mock_Pump (\<lambda>_ _. True) (\<lambda>_ _. True) (\<lambda>k. 7 * k) plain_widen (\<lambda>_. []) (\<lambda>_. (0, 1)) 1 (new_mock (0 :: nat), new_model) = Some (s', m')
    \<and> mock_inv s' \<and> model_wf m' \<and> mock_part (s_flows s') part
    \<and> (\<forall>fid d S. d < 2 \<and> model_stream (new_model :: nat knd_model) fid d S \<longrightarrow> model_stream m' fid d (S @ part fid d))"
  by (rule Mock_Pump_ok [OF plain_widen_ok new_mock_inv model_wf_new])

end
