(* ===== verification/Knd_Tls.thy ===== *)
theory Knd_Tls
  imports Knd_Text
begin

text \<open>
  The offline decryptor of TLS 1.2 connections with AES-GCM
  (\<^verbatim>\<open>src/app/src/tls_decrypt.h\<close>, \<^verbatim>\<open>src/app/src/tls_decrypt.cpp\<close>): hexadecimal text, the key log, the
  pseudo-random function, the cipher suites, record and handshake parsing, record
  decryption and its self-test. The message authentication code and the authenticated cipher
  of the cryptographic library are parameters: \<open>hmac\<close> gives the code of a message under a
  digest and a key, \<open>gcm\<close> sets a key up and then opens a record.
\<close>

section \<open>Hexadecimal text\<close>

definition BytesToHex :: "bytes \<Rightarrow> string" where
  "BytesToHex bs = concat (map (\<lambda>b. [digit (unat b div 16), digit (unat b mod 16)]) bs)"

definition nib :: "char \<Rightarrow> nat option" where
  "nib c = (if digit_val c < 16 then Some (digit_val c) else None)"

fun HexToBytes :: "string \<Rightarrow> bytes" where
  "HexToBytes (a # b # s) = (case (nib a, nib b) of
     (Some hi, Some lo) \<Rightarrow> word_of_nat (16 * hi + lo) # HexToBytes s | _ \<Rightarrow> [])"
| "HexToBytes _ = []"

section \<open>Key log\<close>

type_synonym key_log = "string \<rightharpoonup> bytes"

definition hex_lower :: "char \<Rightarrow> char" where
  "hex_lower c = (let n = of_char c :: nat in if 65 \<le> n \<and> n \<le> 70 then char_of (n - 65 + 97) else c)"

definition strip_end :: "string \<Rightarrow> string" where
  "strip_end s = rev (dropWhile (\<lambda>c. c = CHR 0x0D \<or> c = CHR 0x0A \<or> c = CHR '' '') (rev s))"

definition addLine :: "string \<Rightarrow> key_log \<Rightarrow> key_log" where
  "addLine line kl =
     (if take 14 line \<noteq> ''CLIENT_RANDOM '' then kl
      else (case find_text '' '' line 14 of
        None \<Rightarrow> kl
      | Some b \<Rightarrow>
          (let cr = substr 14 (b - 14) line; ms = strip_end (drop (b + 1) line) in
           if length cr \<noteq> 64 then kl else kl(map hex_lower cr \<mapsto> HexToBytes ms))))"

text \<open>\<open>fgets\<close> with a buffer of \<open>Suc n\<close> bytes: up to \<open>n\<close> characters, through the first line feed.\<close>

fun fgets :: "nat \<Rightarrow> string \<Rightarrow> string" where
  "fgets 0 s = []"
| "fgets n [] = []"
| "fgets (Suc n) (c # s) = (if c = CHR 0x0A then [c] else c # fgets n s)"

lemma fgets_nonempty: "0 < n \<Longrightarrow> s \<noteq> [] \<Longrightarrow> fgets n s \<noteq> []"
  by (cases n; cases s) auto

function fgets_lines :: "nat \<Rightarrow> string \<Rightarrow> string list" where
  "fgets_lines n s = (if s = [] \<or> n = 0 then [] else fgets n s # fgets_lines n (drop (length (fgets n s)) s))"
  by auto
termination
  by (relation "measure (\<lambda>(n, s). length s)") (auto intro!: diff_less simp: fgets_nonempty)

declare fgets_lines.simps [simp del]

lemma fgets_line: "CHR 0x0A \<notin> set l \<Longrightarrow> length l < n \<Longrightarrow> fgets n (l @ CHR 0x0A # s) = l @ [CHR 0x0A]"
proof (induction l arbitrary: n)
  case Nil
  then show ?case by (cases n) simp_all
next
  case (Cons c l)
  then show ?case by (cases n) auto
qed

lemma fgets_lines_line:
  assumes "CHR 0x0A \<notin> set l" "length l < n"
  shows "fgets_lines n ((l @ [CHR 0x0A]) @ s) = (l @ [CHR 0x0A]) # fgets_lines n s"
proof -
  have "fgets n ((l @ [CHR 0x0A]) @ s) = l @ [CHR 0x0A]" using fgets_line [OF assms, of s] by simp
  then show ?thesis using assms(2) by (subst fgets_lines.simps) simp
qed

text \<open>The file's contents, \<open>None\<close> when it cannot be opened; each line is read up to its terminator.\<close>

definition loadFile :: "string option \<Rightarrow> key_log \<Rightarrow> key_log" where
  "loadFile file kl = (case file of None \<Rightarrow> kl
     | Some s \<Rightarrow> fold (\<lambda>l. addLine (c_str l)) (fgets_lines 1023 s) kl)"

definition masterSecret :: "key_log \<Rightarrow> bytes \<Rightarrow> bytes" where
  "masterSecret kl clientRandom = (case kl (BytesToHex clientRandom) of None \<Rightarrow> [] | Some ms \<Rightarrow> ms)"

section \<open>Pseudo-random function\<close>

datatype md_type = MBEDTLS_MD_SHA256 | MBEDTLS_MD_SHA384

type_synonym hmac_fun = "md_type \<Rightarrow> bytes \<Rightarrow> bytes \<Rightarrow> bytes"

text \<open>The loop of \<open>Phash\<close>, with the code under its secret as the argument \<open>h\<close>.\<close>

partial_function (option) phash_loop :: "(bytes \<Rightarrow> bytes) \<Rightarrow> bytes \<Rightarrow> nat \<Rightarrow> bytes \<Rightarrow> bytes \<Rightarrow> bytes option" where
  "phash_loop h seed outLen a out =
     (if length out < outLen
      then phash_loop h seed outLen (h a) (out @ h (a @ seed))
      else Some (take outLen out))"

definition Phash :: "hmac_fun \<Rightarrow> bytes \<Rightarrow> bytes \<Rightarrow> nat \<Rightarrow> md_type \<Rightarrow> bytes option" where
  "Phash hmac secret seed outLen md = phash_loop (hmac md secret) seed outLen (hmac md secret seed) []"

definition Prf12 :: "hmac_fun \<Rightarrow> bytes \<Rightarrow> string \<Rightarrow> bytes \<Rightarrow> nat \<Rightarrow> md_type \<Rightarrow> bytes option" where
  "Prf12 hmac secret label seed outLen md = Phash hmac secret (bytes_of_text label @ seed) outLen md"

section \<open>Cipher suites and keys\<close>

record suite_info =
  si_keyLen :: nat
  si_prf :: md_type
  si_gcm :: bool
  si_tls13 :: bool

definition LookupSuite :: "u16 \<Rightarrow> suite_info option" where
  "LookupSuite cs =
     (if cs = 0xC02F \<or> cs = 0xC02B \<or> cs = 0x009C
      then Some \<lparr>si_keyLen = 16, si_prf = MBEDTLS_MD_SHA256, si_gcm = True, si_tls13 = False\<rparr>
      else if cs = 0xC030 \<or> cs = 0xC02C \<or> cs = 0x009D
      then Some \<lparr>si_keyLen = 32, si_prf = MBEDTLS_MD_SHA384, si_gcm = True, si_tls13 = False\<rparr>
      else if cs = 0x1301 then Some \<lparr>si_keyLen = 16, si_prf = MBEDTLS_MD_SHA256, si_gcm = True, si_tls13 = True\<rparr>
      else if cs = 0x1302 then Some \<lparr>si_keyLen = 32, si_prf = MBEDTLS_MD_SHA384, si_gcm = True, si_tls13 = True\<rparr>
      else if cs = 0x1303 then Some \<lparr>si_keyLen = 32, si_prf = MBEDTLS_MD_SHA256, si_gcm = False, si_tls13 = True\<rparr>
      else None)"

record dir_keys =
  cKey :: bytes
  sKey :: bytes
  cIV :: bytes
  sIV :: bytes

definition split_key_block :: "nat \<Rightarrow> bytes \<Rightarrow> dir_keys" where
  "split_key_block n kb = \<lparr>cKey = take n kb, sKey = take n (drop n kb),
     cIV = take 4 (drop (2 * n) kb), sIV = take 4 (drop (2 * n + 4) kb)\<rparr>"

definition DeriveKeyBlock :: "hmac_fun \<Rightarrow> bytes \<Rightarrow> bytes \<Rightarrow> bytes \<Rightarrow> suite_info \<Rightarrow> dir_keys option" where
  "DeriveKeyBlock hmac master cr sr si =
     map_option (split_key_block (si_keyLen si))
       (Prf12 hmac master ''key expansion'' (sr @ cr) (2 * si_keyLen si + 8) (si_prf si))"

section \<open>Records and handshake messages\<close>

record tls_record =
  tr_type :: u8
  tr_ver :: u16
  tr_payload :: bytes

definition be16 :: "u8 \<Rightarrow> u8 \<Rightarrow> nat" where
  "be16 a b = unat a * 256 + unat b"

function ParseRecords :: "bytes \<Rightarrow> tls_record list" where
  "ParseRecords s =
     (if length s < 5 then []
      else (let len = be16 (s ! 3) (s ! 4); rest = drop 5 s in
        if length rest < len then []
        else \<lparr>tr_type = s ! 0, tr_ver = word_of_nat (be16 (s ! 1) (s ! 2)), tr_payload = take len rest\<rparr>
          # ParseRecords (drop len rest)))"
  by auto
termination by (relation "measure length") auto

declare ParseRecords.simps [simp del]

function find_in_record :: "u8 \<Rightarrow> bytes \<Rightarrow> bytes option" where
  "find_in_record want p =
     (if length p < 4 then None
      else (let hl = unat (p ! 1) * 65536 + unat (p ! 2) * 256 + unat (p ! 3); rest = drop 4 p in
        if length rest < hl then None
        else if p ! 0 = want then Some (take hl rest)
        else find_in_record want (drop hl rest)))"
  by auto
termination by (relation "measure (\<lambda>(w, p). length p)") auto

declare find_in_record.simps [simp del]

fun FindHandshake :: "u8 \<Rightarrow> tls_record list \<Rightarrow> bytes option" where
  "FindHandshake want [] = None"
| "FindHandshake want (r # rs) = (if tr_type r \<noteq> 22 then FindHandshake want rs
     else (case find_in_record want (tr_payload r) of None \<Rightarrow> FindHandshake want rs | Some b \<Rightarrow> Some b))"

section \<open>Decryption\<close>

text \<open>Opening a record: nonce, additional data, tag and ciphertext to the plaintext.\<close>

type_synonym gcm_open = "bytes \<Rightarrow> bytes \<Rightarrow> bytes \<Rightarrow> bytes \<Rightarrow> bytes option"

definition be_bytes :: "nat \<Rightarrow> nat \<Rightarrow> bytes" where
  "be_bytes n v = rev (le_bytes n v)"

definition record_aad :: "u64 \<Rightarrow> u8 \<Rightarrow> u16 \<Rightarrow> nat \<Rightarrow> bytes" where
  "record_aad seq type ver n = be_bytes 8 (unat seq) @ [type] @ be_bytes 2 (unat ver) @ be_bytes 2 n"

definition GcmDecryptRecord :: "gcm_open \<Rightarrow> bytes \<Rightarrow> u64 \<Rightarrow> tls_record \<Rightarrow> bytes option" where
  "GcmDecryptRecord dec iv4 seq r =
     (let p = tr_payload r; len = length p; ctLen = len - 8 - 16 in
      if len < 8 + 16 then None
      else dec (take 4 iv4 @ take 8 p) (record_aad seq (tr_type r) (tr_ver r) ctLen)
             (drop (len - 16) p) (take ctLen (drop 8 p)))"

fun decrypt_loop :: "gcm_open \<Rightarrow> bytes \<Rightarrow> bool \<Rightarrow> u64 \<Rightarrow> tls_record list \<Rightarrow> bytes \<Rightarrow> bytes" where
  "decrypt_loop dec iv4 enc seq [] out = out"
| "decrypt_loop dec iv4 enc seq (r # rs) out =
     (if \<not> enc then decrypt_loop dec iv4 (tr_type r = 20) seq rs out
      else (case GcmDecryptRecord dec iv4 seq r of
        None \<Rightarrow> out
      | Some pt \<Rightarrow> decrypt_loop dec iv4 enc (seq + 1) rs (if tr_type r = 23 then out @ pt else out)))"

definition DecryptDir :: "(bytes \<Rightarrow> gcm_open option) \<Rightarrow> tls_record list \<Rightarrow> bytes \<Rightarrow> bytes \<Rightarrow> bytes" where
  "DecryptDir gcm recs key iv4 = (case gcm key of None \<Rightarrow> [] | Some dec \<Rightarrow> decrypt_loop dec iv4 False 0 recs [])"

record tls_result =
  td_ok :: bool
  td_note :: string
  td_cipherSuite :: u16
  td_isTls13 :: bool
  td_outPlain :: bytes
  td_inPlain :: bytes

definition new_result :: tls_result where
  "new_result = \<lparr>td_ok = False, td_note = [], td_cipherSuite = 0, td_isTls13 = False, td_outPlain = [], td_inPlain = []\<rparr>"

text \<open>What the two hellos tell: both randoms and the suite, or the reason why not.\<close>

definition read_hellos :: "tls_record list \<Rightarrow> tls_record list \<Rightarrow> string + (bytes \<times> bytes \<times> u16)" where
  "read_hellos outRecs inRecs =
     (case FindHandshake 1 outRecs of
        None \<Rightarrow> Inl ''no ClientHello (client_random) in the outbound stream''
      | Some ch \<Rightarrow> if length ch < 34 then Inl ''no ClientHello (client_random) in the outbound stream''
          else (case FindHandshake 2 inRecs of
             None \<Rightarrow> Inl ''no ServerHello in the inbound stream''
           | Some sh \<Rightarrow> if length sh < 35 then Inl ''no ServerHello in the inbound stream''
               else (let off = 2 + 32 + 1 + unat (sh ! 34) in
                 if length sh < off + 2 then Inl ''malformed ServerHello''
                 else Inr (take 32 (drop 2 ch), take 32 (drop 2 sh), word_of_nat (be16 (sh ! off) (sh ! (off + 1)))))))"

definition suite_note :: "u16 \<Rightarrow> string" where
  "suite_note suite = snprintf 64 (''unsupported cipher suite 0x'' @ pad0 4 (hex_text (unat suite)))"

definition TlsDecryptFlow ::
  "hmac_fun \<Rightarrow> (bytes \<Rightarrow> gcm_open option) \<Rightarrow> bytes \<Rightarrow> bytes \<Rightarrow> key_log \<Rightarrow> tls_result option" where
  "TlsDecryptFlow hmac gcm outStream inStream keylog =
     (let outRecs = ParseRecords outStream; inRecs = ParseRecords inStream; r = new_result in
      case read_hellos outRecs inRecs of
        Inl note \<Rightarrow> Some (r\<lparr>td_note := note\<rparr>)
      | Inr (cr, sr, suite) \<Rightarrow>
          (let r1 = r\<lparr>td_cipherSuite := suite\<rparr> in
           case LookupSuite suite of
             None \<Rightarrow> Some (r1\<lparr>td_note := suite_note suite\<rparr>)
           | Some si \<Rightarrow>
               if si_tls13 si
               then Some (r1\<lparr>td_isTls13 := True, td_note := ''TLS 1.3 capture (decryptor handles TLS 1.2 GCM so far)''\<rparr>)
               else if \<not> si_gcm si then Some (r1\<lparr>td_note := ''non-GCM cipher not supported yet''\<rparr>)
               else (let master = masterSecret keylog cr in
                 if length master \<noteq> 48
                 then Some (r1\<lparr>td_note := ''no master secret for this client_random in the keylog''\<rparr>)
                 else map_option (\<lambda>k. r1\<lparr>td_outPlain := DecryptDir gcm outRecs (cKey k) (cIV k),
                        td_inPlain := DecryptDir gcm inRecs (sKey k) (sIV k), td_ok := True\<rparr>)
                        (DeriveKeyBlock hmac master cr sr si))))"

section \<open>Self-test\<close>

definition PutRec :: "bytes \<Rightarrow> u8 \<Rightarrow> bytes \<Rightarrow> bytes" where
  "PutRec s type p = s @ [type, 3, 3] @ be_bytes 2 (length p) @ p"

definition test_master :: bytes where
  "test_master = map (\<lambda>i. word_of_nat (i + 1)) [0..<48]"

definition test_cr :: bytes where
  "test_cr = map (\<lambda>i. word_of_nat (0x40 + i)) [0..<32]"

definition test_sr :: bytes where
  "test_sr = map (\<lambda>i. word_of_nat (0x80 + i)) [0..<32]"

definition test_message :: string where
  "test_message = ''GET / HTTP/1.1'' @ [CHR 0x0D, CHR 0x0A] @ ''Host: example.com'' @ [CHR 0x0D, CHR 0x0A, CHR 0x0D, CHR 0x0A]"

text \<open>\<open>seal\<close> encrypts under a key, a nonce and additional data to ciphertext and tag.\<close>

definition TlsDecryptSelfTest ::
  "hmac_fun \<Rightarrow> (bytes \<Rightarrow> gcm_open option) \<Rightarrow> (bytes \<Rightarrow> bytes \<Rightarrow> bytes \<Rightarrow> bytes \<Rightarrow> bytes \<times> bytes)
     \<Rightarrow> (bool \<times> string) option" where
  "TlsDecryptSelfTest hmac gcm seal =
     Option.bind (DeriveKeyBlock hmac test_master test_cr test_sr
         \<lparr>si_keyLen = 16, si_prf = MBEDTLS_MD_SHA256, si_gcm = True, si_tls13 = False\<rparr>) (\<lambda>k.
       let suite = 0xC02F :: u16; plen = length test_message;
           explicitN = [0, 0, 0, 0, 0, 0, 0, 1];
           nonce = take 4 (cIV k) @ explicitN;
           aad = [0, 0, 0, 0, 0, 0, 0, 0, 23, 3, 3] @ be_bytes 2 plen;
           (ct, tag) = seal (cKey k) nonce aad (bytes_of_text test_message);
           appRec = explicitN @ ct @ tag;
           ch = [1, 0, 0, 0x29, 3, 3] @ test_cr @ [0, 0, 2, 0xC0, 0x2F, 1, 0];
           sh = [2, 0, 0, 0x26, 3, 3] @ test_sr @ [0] @ be_bytes 2 (unat suite) @ [0];
           outStream = PutRec (PutRec (PutRec [] 22 ch) 20 [1]) 23 appRec;
           inStream = PutRec (PutRec [] 22 sh) 20 [1];
           keylog = addLine (''CLIENT_RANDOM '' @ BytesToHex test_cr @ '' '' @ BytesToHex test_master) Map.empty in
       map_option (\<lambda>r.
         if \<not> td_ok r then (False, ''decrypt failed: '' @ td_note r)
         else if text_of (td_outPlain r) \<noteq> test_message
         then (False, ''plaintext mismatch: '' @ [CHR 0x27] @ text_of (td_outPlain r) @ [CHR 0x27])
         else (True, ''round-trip OK ('' @ dec_text plen @ '' bytes via AES-128-GCM)''))
         (TlsDecryptFlow hmac gcm outStream inStream keylog))"

text \<open>The console program around the self-test (\<^verbatim>\<open>src/app/src/tls_test.cpp\<close>): its exit code and its output.\<close>

definition tls_test_main ::
  "hmac_fun \<Rightarrow> (bytes \<Rightarrow> gcm_open option) \<Rightarrow> (bytes \<Rightarrow> bytes \<Rightarrow> bytes \<Rightarrow> bytes \<Rightarrow> bytes \<times> bytes)
     \<Rightarrow> (int \<times> string) option" where
  "tls_test_main hmac gcm seal =
     map_option (\<lambda>(ok, detail). (if ok then 0 else 1, (if ok then ''PASS'' else ''FAIL'') @ '': '' @ c_str detail @ [CHR 0x0A]))
       (TlsDecryptSelfTest hmac gcm seal)"

section \<open>Hexadecimal text and the key log\<close>

lemma HexToBytes_BytesToHex [simp]: "HexToBytes (BytesToHex bs) = bs"
proof (induction bs)
  case (Cons b bs)
  have "unat b div 16 < 16" using unat_u8_lt [of b] by (simp add: div_less_iff_less_mult)
  then show ?case using Cons by (simp add: BytesToHex_def nib_def)
qed (simp add: BytesToHex_def)

lemma length_BytesToHex [simp]: "length (BytesToHex bs) = 2 * length bs"
  by (induction bs) (simp_all add: BytesToHex_def)

lemma BytesToHex_digits: "x \<in> set (BytesToHex bs) \<Longrightarrow> \<exists>d < 16. x = digit d"
proof (induction bs)
  case (Cons b bs)
  have "unat b div 16 < 16" "unat b mod 16 < 16" using unat_u8_lt [of b] by (simp_all add: div_less_iff_less_mult)
  moreover have "x = digit (unat b div 16) \<or> x = digit (unat b mod 16) \<or> x \<in> set (BytesToHex bs)"
    using Cons.prems by (auto simp: BytesToHex_def)
  ultimately show ?case using Cons.IH by blast
qed (simp add: BytesToHex_def)

lemma BytesToHex_inj: "BytesToHex a = BytesToHex b \<Longrightarrow> a = b"
  by (metis HexToBytes_BytesToHex)

lemma digit_text: "d < 16 \<Longrightarrow> hex_lower (digit d) = digit d \<and> digit d \<notin> {CHR 0x0D, CHR 0x0A, CHR '' ''}"
  using of_char_digit [of d] by (auto simp: hex_lower_def Let_def split: if_splits)

lemma hex_char:
  assumes "x \<in> set (BytesToHex bs)"
  shows "hex_lower x = x" "x \<noteq> CHR 0x0D" "x \<noteq> CHR 0x0A" "x \<noteq> CHR '' ''"
proof -
  obtain d where "d < 16" "x = digit d" using BytesToHex_digits [OF assms] by auto
  then show "hex_lower x = x" "x \<noteq> CHR 0x0D" "x \<noteq> CHR 0x0A" "x \<noteq> CHR '' ''"
    using digit_text [of d] by auto
qed

lemma hex_lower_hex: "map hex_lower (BytesToHex bs) = BytesToHex bs"
  using hex_char(1) by (simp add: map_idI)

definition line_end :: "string \<Rightarrow> bool" where
  "line_end s \<longleftrightarrow> set s \<subseteq> {CHR 0x0D, CHR 0x0A, CHR '' ''}"

lemma strip_end_hex:
  assumes "line_end eol"
  shows "strip_end (BytesToHex bs @ eol) = BytesToHex bs"
proof -
  let ?P = "\<lambda>c. c = CHR 0x0D \<or> c = CHR 0x0A \<or> c = CHR '' ''"
  have "\<forall>c \<in> set (rev eol). ?P c" using assms by (auto simp: line_end_def)
  then have "dropWhile ?P (rev eol @ rev (BytesToHex bs)) = dropWhile ?P (rev (BytesToHex bs))"
    by (intro dropWhile_append2) blast
  moreover have "\<not> ?P x" if "x \<in> set (BytesToHex bs)" for x
    using hex_char(2,3,4) [OF that] by simp
  then have "dropWhile ?P (rev (BytesToHex bs)) = rev (BytesToHex bs)"
    using hd_in_set [of "rev (BytesToHex bs)"] by (cases "rev (BytesToHex bs)") auto
  ultimately show ?thesis by (simp add: strip_end_def)
qed

lemma addLine_client_random:
  assumes "length cr = 32" "line_end eol"
  shows "addLine (''CLIENT_RANDOM '' @ BytesToHex cr @ '' '' @ BytesToHex ms @ eol) kl = kl(BytesToHex cr \<mapsto> ms)"
proof -
  let ?l = "''CLIENT_RANDOM '' @ BytesToHex cr @ CHR '' '' # BytesToHex ms @ eol"
  have "CHR '' '' \<notin> set (BytesToHex cr)" using hex_char(4) by auto
  then have f: "find_text '' '' ?l 14 = Some (14 + 64)"
    using find_char_split [of "CHR '' ''" "BytesToHex cr" "''CLIENT_RANDOM ''" 14] assms(1) by simp
  show ?thesis
    using assms f by (simp add: addLine_def Let_def substr_def hex_lower_hex strip_end_hex)
qed

section \<open>The pseudo-random function\<close>

text \<open>The reference: RFC 5246, section 5, with the sequence \<open>A\<close> and the blocks it yields.\<close>

fun A_seq :: "(bytes \<Rightarrow> bytes) \<Rightarrow> bytes \<Rightarrow> nat \<Rightarrow> bytes" where
  "A_seq h seed 0 = seed"
| "A_seq h seed (Suc i) = h (A_seq h seed i)"

definition P_hash :: "(bytes \<Rightarrow> bytes) \<Rightarrow> bytes \<Rightarrow> nat \<Rightarrow> bytes" where
  "P_hash h seed n = concat (map (\<lambda>i. h (A_seq h seed (Suc i) @ seed)) [0..<n])"

lemma P_hash_simps [simp]: "P_hash h seed 0 = []" "P_hash h seed (Suc n) = P_hash h seed n @ h (A_seq h seed (Suc n) @ seed)"
  by (simp_all add: P_hash_def)

lemma length_P_hash: "(\<And>x. length (h x) = L) \<Longrightarrow> length (P_hash h seed n) = n * L"
  by (induction n) (simp_all add: algebra_simps)

lemma P_hash_prefix: "k \<le> n \<Longrightarrow> take (length (P_hash h seed k)) (P_hash h seed n) = P_hash h seed k"
proof (induction n)
  case (Suc n)
  show ?case
  proof (cases "k = Suc n")
    case False
    with Suc have ih: "take (length (P_hash h seed k)) (P_hash h seed n) = P_hash h seed k" by simp
    then have "length (P_hash h seed k) \<le> length (P_hash h seed n)" by (metis length_take min.bounded_iff order_refl)
    with ih show ?thesis by simp
  qed simp
qed simp

lemma phash_loop_spec:
  assumes L: "\<And>x. length (h x) = L" and "outLen \<le> n * L" "k \<le> n"
  shows "phash_loop h seed outLen (A_seq h seed (Suc k)) (P_hash h seed k) = Some (take outLen (P_hash h seed n))"
  using assms(3)
proof (induction "n - k" arbitrary: k)
  case 0
  then have "k = n" by simp
  then show ?case using assms(2) by (subst phash_loop.simps) (simp add: length_P_hash [OF L])
next
  case (Suc d)
  show ?case
  proof (cases "length (P_hash h seed k) < outLen")
    case True
    have "phash_loop h seed outLen (A_seq h seed (Suc k)) (P_hash h seed k)
        = phash_loop h seed outLen (A_seq h seed (Suc (Suc k))) (P_hash h seed (Suc k))"
      using True by (subst phash_loop.simps) simp
    also have "\<dots> = Some (take outLen (P_hash h seed n))" using Suc.hyps(2) by (intro Suc.hyps(1)) simp_all
    finally show ?thesis .
  next
    case False
    have "take outLen (P_hash h seed k) = take outLen (take (length (P_hash h seed k)) (P_hash h seed n))"
      by (simp add: P_hash_prefix [OF Suc.prems])
    also have "\<dots> = take outLen (P_hash h seed n)" using False by (simp add: min_def)
    finally show ?thesis using False by (subst phash_loop.simps) simp
  qed
qed

definition md_size :: "md_type \<Rightarrow> nat" where
  "md_size md = (case md of MBEDTLS_MD_SHA256 \<Rightarrow> 32 | MBEDTLS_MD_SHA384 \<Rightarrow> 48)"

definition hmac_sized :: "hmac_fun \<Rightarrow> bool" where
  "hmac_sized hmac \<longleftrightarrow> (\<forall>md k x. length (hmac md k x) = md_size md)"

lemma Phash_spec:
  assumes "hmac_sized hmac" "outLen \<le> n * md_size md"
  shows "Phash hmac secret seed outLen md = Some (take outLen (P_hash (hmac md secret) seed n))"
  using phash_loop_spec [of "hmac md secret" "md_size md" outLen n 0 seed] assms
  by (simp add: Phash_def hmac_sized_def)

lemma DeriveKeyBlock_returns:
  assumes "hmac_sized hmac"
  shows "\<exists>k. DeriveKeyBlock hmac master cr sr si = Some k \<and> length (cKey k) = si_keyLen si
     \<and> length (sKey k) = si_keyLen si \<and> length (cIV k) = 4 \<and> length (sIV k) = 4"
proof -
  let ?n = "2 * si_keyLen si + 8" and ?h = "hmac (si_prf si) master"
  have n: "?n \<le> ?n * md_size (si_prf si)" by (simp add: md_size_def split: md_type.split)
  have "length (P_hash ?h (bytes_of_text ''key expansion'' @ sr @ cr) ?n) = ?n * md_size (si_prf si)"
    using assms by (intro length_P_hash) (simp add: hmac_sized_def)
  then have "length (take ?n (P_hash ?h (bytes_of_text ''key expansion'' @ sr @ cr) ?n)) = ?n"
    using n by simp
  then show ?thesis
    using Phash_spec [OF assms n, of master] by (simp add: DeriveKeyBlock_def Prf12_def split_key_block_def)
qed

section \<open>Records\<close>

definition enc_tls :: "tls_record \<Rightarrow> bytes" where
  "enc_tls r = [tr_type r] @ be_bytes 2 (unat (tr_ver r)) @ be_bytes 2 (length (tr_payload r)) @ tr_payload r"

lemma be_bytes_2: "be_bytes 2 v = [word_of_nat (v div 256), word_of_nat v]"
  by (simp add: be_bytes_def le_bytes_2)

lemma be16_bytes: "v < 65536 \<Longrightarrow> be16 (word_of_nat (v div 256)) (word_of_nat v) = v"
  by (simp add: be16_def unat_of_nat)

lemma be16_word: "be16 (word_of_nat (unat w div 256)) (ucast w) = unat (w :: u16)"
  using be16_bytes [of "unat w"] by simp

lemma ParseRecords_enc:
  assumes "length (tr_payload r) < 65536"
  shows "ParseRecords (enc_tls r @ s) = r # ParseRecords s"
  using assms by (subst ParseRecords.simps) (simp add: enc_tls_def be_bytes_2 be16_bytes be16_word Let_def)

lemma ParseRecords_concat:
  "\<forall>r \<in> set rs. length (tr_payload r) < 65536 \<Longrightarrow> ParseRecords (concat (map enc_tls rs) @ s) = rs @ ParseRecords s"
  by (induction rs) (simp_all add: ParseRecords_enc)

lemma FindHandshake_append: "FindHandshake w rs = Some b \<Longrightarrow> FindHandshake w (rs @ rs') = Some b"
  by (induction rs) (auto split: if_splits option.splits)

lemma read_hellos_append:
  "read_hellos o1 i1 = Inr x \<Longrightarrow> read_hellos (o1 @ o2) (i1 @ i2) = Inr x"
  by (auto simp: read_hellos_def FindHandshake_append split: option.splits if_splits)

section \<open>Opening what was sealed\<close>

type_synonym gcm_seal = "bytes \<Rightarrow> bytes \<Rightarrow> bytes \<Rightarrow> bytes \<Rightarrow> bytes \<times> bytes"

text \<open>What is relied on of the cipher: for keys of 16 or 32 bytes and nonces of 12, a sealed
  text has a tag of 16 bytes and the length of the plaintext, and opens to the plaintext.\<close>

definition opens :: "gcm_seal \<Rightarrow> bytes \<Rightarrow> gcm_open \<Rightarrow> bool" where
  "opens seal key dec \<longleftrightarrow> (\<forall>nonce aad pt. length nonce = 12 \<longrightarrow>
     (case seal key nonce aad pt of (ct, tag) \<Rightarrow> length ct = length pt \<and> length tag = 16 \<and> dec nonce aad tag ct = Some pt))"

lemma opensD:
  assumes "opens seal key dec" "length nonce = 12"
  shows "case seal key nonce aad pt of (ct, tag) \<Rightarrow> length ct = length pt \<and> length tag = 16 \<and> dec nonce aad tag ct = Some pt"
  using assms by (simp add: opens_def)

definition aead :: "(bytes \<Rightarrow> gcm_open option) \<Rightarrow> gcm_seal \<Rightarrow> bool" where
  "aead gcm seal \<longleftrightarrow> (\<forall>key. length key = 16 \<or> length key = 32 \<longrightarrow> (\<exists>dec. gcm key = Some dec \<and> opens seal key dec))"

text \<open>The sender's side: a record type, an explicit nonce and a plaintext under a sequence number.\<close>

type_synonym sent = "u8 \<times> bytes \<times> bytes"

definition seal_record :: "gcm_seal \<Rightarrow> bytes \<Rightarrow> bytes \<Rightarrow> u64 \<Rightarrow> sent \<Rightarrow> tls_record" where
  "seal_record seal key iv seq x = (case x of (ty, n8, pt) \<Rightarrow>
     (case seal key (iv @ n8) (record_aad seq ty 0x0303 (length pt)) pt of (ct, tag) \<Rightarrow>
        \<lparr>tr_type = ty, tr_ver = 0x0303, tr_payload = n8 @ ct @ tag\<rparr>))"

fun seal_all :: "gcm_seal \<Rightarrow> bytes \<Rightarrow> bytes \<Rightarrow> u64 \<Rightarrow> sent list \<Rightarrow> tls_record list" where
  "seal_all seal key iv seq [] = []"
| "seal_all seal key iv seq (x # xs) = seal_record seal key iv seq x # seal_all seal key iv (seq + 1) xs"

definition sent_ok :: "sent \<Rightarrow> bool" where
  "sent_ok x \<longleftrightarrow> (case x of (ty, n8, pt) \<Rightarrow> length n8 = 8 \<and> length pt \<le> 16384)"

definition app_data :: "sent list \<Rightarrow> bytes" where
  "app_data xs = concat (map (\<lambda>(ty, n8, pt). if ty = 23 then pt else []) xs)"

lemma open_sealed:
  assumes "opens seal key dec" "length iv = 4" "sent_ok (ty, n8, pt)"
  shows "GcmDecryptRecord dec iv seq (seal_record seal key iv seq (ty, n8, pt)) = Some pt"
    "tr_type (seal_record seal key iv seq (ty, n8, pt)) = ty"
    "length (tr_payload (seal_record seal key iv seq (ty, n8, pt))) = 24 + length pt"
proof -
  obtain ct tag where s: "seal key (iv @ n8) (record_aad seq ty 0x0303 (length pt)) pt = (ct, tag)"
    by (cases "seal key (iv @ n8) (record_aad seq ty 0x0303 (length pt)) pt")
  have n: "length n8 = 8" using assms(3) by (simp add: sent_ok_def)
  then have l: "length (iv @ n8) = 12" using assms(2) by simp
  have d: "length ct = length pt" "length tag = 16" "dec (iv @ n8) (record_aad seq ty 0x0303 (length pt)) tag ct = Some pt"
    using opensD [OF assms(1) l, where aad = "record_aad seq ty 0x0303 (length pt)" and pt = pt] by (simp_all add: s)
  then show "GcmDecryptRecord dec iv seq (seal_record seal key iv seq (ty, n8, pt)) = Some pt"
    using s n assms(2) by (simp add: GcmDecryptRecord_def seal_record_def Let_def)
  show "tr_type (seal_record seal key iv seq (ty, n8, pt)) = ty"
    "length (tr_payload (seal_record seal key iv seq (ty, n8, pt))) = 24 + length pt"
    using s n d by (simp_all add: seal_record_def)
qed

lemma decrypt_sealed:
  assumes "opens seal key dec" "length iv = 4" "\<forall>x \<in> set xs. sent_ok x"
  shows "decrypt_loop dec iv True seq (seal_all seal key iv seq xs) out = out @ app_data xs"
  using assms(3)
proof (induction xs arbitrary: seq out)
  case (Cons x xs)
  obtain ty n8 pt where x: "x = (ty, n8, pt)" by (cases x)
  with Cons open_sealed [OF assms(1,2), of ty n8 pt seq] show ?case by (simp add: app_data_def)
qed (simp add: app_data_def)

lemma decrypt_skip:
  "\<forall>r \<in> set pre. tr_type r \<noteq> 20 \<Longrightarrow> tr_type ccs = 20 \<Longrightarrow>
   decrypt_loop dec iv False seq (pre @ ccs # rs) out = decrypt_loop dec iv True seq rs out"
  by (induction pre) simp_all

lemma seal_all_small:
  assumes "opens seal key dec" "length iv = 4" "\<forall>x \<in> set xs. sent_ok x" "r \<in> set (seal_all seal key iv seq xs)"
  shows "length (tr_payload r) < 65536"
  using assms(3,4)
proof (induction xs arbitrary: seq)
  case (Cons x xs)
  obtain ty n8 pt where x: "x = (ty, n8, pt)" by (cases x)
  with Cons.prems(1) open_sealed(3) [OF assms(1,2), of ty n8 pt seq]
  have "length (tr_payload (seal_record seal key iv seq x)) < 65536" by (auto simp: sent_ok_def)
  with Cons show ?case by auto
qed simp

text \<open>One direction of a connection on the wire: the handshake, the change of cipher, sealed records.\<close>

definition ccs_record :: tls_record where
  "ccs_record = \<lparr>tr_type = 20, tr_ver = 0x0303, tr_payload = [1]\<rparr>"

definition wire :: "gcm_seal \<Rightarrow> bytes \<Rightarrow> bytes \<Rightarrow> tls_record list \<Rightarrow> sent list \<Rightarrow> bytes" where
  "wire seal key iv pre xs = concat (map enc_tls (pre @ ccs_record # seal_all seal key iv 0 xs))"

definition clear_part :: "tls_record list \<Rightarrow> bool" where
  "clear_part pre \<longleftrightarrow> (\<forall>r \<in> set pre. tr_type r \<noteq> 20 \<and> length (tr_payload r) < 65536)"

lemma ParseRecords_wire:
  assumes "opens seal key dec" "length iv = 4" "\<forall>x \<in> set xs. sent_ok x" "clear_part pre"
  shows "ParseRecords (wire seal key iv pre xs) = pre @ ccs_record # seal_all seal key iv 0 xs"
proof -
  have "\<forall>r \<in> set (pre @ ccs_record # seal_all seal key iv 0 xs). length (tr_payload r) < 65536"
    using seal_all_small [OF assms(1-3)] assms(4) by (auto simp: clear_part_def ccs_record_def)
  from ParseRecords_concat [OF this, of "[]"] show ?thesis by (simp add: wire_def ParseRecords.simps [of "[]"])
qed

lemma DecryptDir_wire:
  assumes "aead gcm seal" "length key = 16 \<or> length key = 32" "length iv = 4" "\<forall>x \<in> set xs. sent_ok x" "clear_part pre"
  shows "DecryptDir gcm (ParseRecords (wire seal key iv pre xs)) key iv = app_data xs"
    "ParseRecords (wire seal key iv pre xs) = pre @ ccs_record # seal_all seal key iv 0 xs"
proof -
  obtain dec where d: "gcm key = Some dec" "opens seal key dec" using assms(1,2) unfolding aead_def by blast
  show p: "ParseRecords (wire seal key iv pre xs) = pre @ ccs_record # seal_all seal key iv 0 xs"
    by (rule ParseRecords_wire [OF d(2) assms(3-5)])
  show "DecryptDir gcm (ParseRecords (wire seal key iv pre xs)) key iv = app_data xs"
    using decrypt_skip [of pre ccs_record] decrypt_sealed [OF d(2) assms(3,4)] assms(5)
    by (simp add: DecryptDir_def d(1) p clear_part_def ccs_record_def)
qed

lemma LookupSuite_key: "LookupSuite cs = Some si \<Longrightarrow> \<not> si_tls13 si \<Longrightarrow> si_gcm si \<and> (si_keyLen si = 16 \<or> si_keyLen si = 32)"
  by (auto simp: LookupSuite_def split: if_splits)

lemma flow_decrypts:
  assumes "aead gcm seal" "hmac_sized hmac" "read_hellos pre_o pre_i = Inr (cr, sr, suite)"
    and "LookupSuite suite = Some si" "\<not> si_tls13 si" "length (masterSecret keylog cr) = 48"
    and "DeriveKeyBlock hmac (masterSecret keylog cr) cr sr si = Some k"
    and "clear_part pre_o" "clear_part pre_i" "\<forall>x \<in> set xs. sent_ok x" "\<forall>x \<in> set ys. sent_ok x"
  shows "TlsDecryptFlow hmac gcm (wire seal (cKey k) (cIV k) pre_o xs) (wire seal (sKey k) (sIV k) pre_i ys) keylog
    = Some \<lparr>td_ok = True, td_note = [], td_cipherSuite = suite, td_isTls13 = False,
        td_outPlain = app_data xs, td_inPlain = app_data ys\<rparr>"
proof -
  have k: "length (cKey k) = si_keyLen si" "length (sKey k) = si_keyLen si" "length (cIV k) = 4" "length (sIV k) = 4"
    using DeriveKeyBlock_returns [OF assms(2), of "masterSecret keylog cr" cr sr si] assms(7) by auto
  note s = LookupSuite_key [OF assms(4,5)]
  note o = DecryptDir_wire [OF assms(1) _ k(3) assms(10,8), of "cKey k"]
  note i = DecryptDir_wire [OF assms(1) _ k(4) assms(11,9), of "sKey k"]
  have kl: "length (cKey k) = 16 \<or> length (cKey k) = 32" "length (sKey k) = 16 \<or> length (sKey k) = 32" using s k by auto
  have "read_hellos (ParseRecords (wire seal (cKey k) (cIV k) pre_o xs)) (ParseRecords (wire seal (sKey k) (sIV k) pre_i ys))
      = Inr (cr, sr, suite)"
    unfolding o(2) [OF kl(1)] i(2) [OF kl(2)] by (rule read_hellos_append [OF assms(3)])
  then show ?thesis
    using o(1) [OF kl(1)] i(1) [OF kl(2)] s assms(4-7) by (simp add: TlsDecryptFlow_def Let_def new_result_def)
qed

lemma DeriveKeyBlock_Some:
  assumes "hmac_sized hmac"
  obtains k where "DeriveKeyBlock hmac m cr sr si = Some k"
  using DeriveKeyBlock_returns [OF assms, of m cr sr si] by auto

section \<open>Properties\<close>

text \<open>A message authentication code and a cipher for the witnesses: constant digests, the identity cipher.\<close>

definition flat_hmac :: hmac_fun where
  "flat_hmac md k x = replicate (md_size md) 0"

definition plain_seal :: gcm_seal where
  "plain_seal key nonce aad pt = (pt, replicate 16 0)"

definition plain_gcm :: "bytes \<Rightarrow> gcm_open option" where
  "plain_gcm key = Some (\<lambda>nonce aad tag ct. Some ct)"

lemma flat_hmac_sized: "hmac_sized flat_hmac"
  by (simp add: hmac_sized_def flat_hmac_def)

lemma plain_aead: "aead plain_gcm plain_seal"
  by (simp add: aead_def opens_def plain_gcm_def plain_seal_def)

text \<open>C32. The expansion loop computes P_hash of RFC 5246, section 5: for a MAC whose outputs have the length of its
  digest, the loop ends and returns the first \<open>outLen\<close> bytes of the blocks
  \<open>HMAC(secret, A(i) + seed)\<close>, for any number of blocks that holds them.\<close>

theorem Phash_rfc5246:
  assumes "hmac_sized hmac" "outLen \<le> n * md_size md"
  shows "Phash hmac secret seed outLen md = Some (take outLen (P_hash (hmac md secret) seed n))"
  by (rule Phash_spec [OF assms])

theorem Phash_rfc5246_witness:
  "Phash flat_hmac [1, 2] [3] 40 MBEDTLS_MD_SHA256 = Some (take 40 (P_hash (flat_hmac MBEDTLS_MD_SHA256 [1, 2]) [3] 2))"
  by (rule Phash_rfc5246 [OF flat_hmac_sized]) (simp add: md_size_def)

text \<open>The key log reads back what its line format says: after a line
  \<open>CLIENT_RANDOM <random> <secret>\<close> with any ending of carriage returns, line feeds and spaces, the secret of
  that random is the one of the line, and every other random keeps the secret it had.\<close>

theorem keylog_round_trip:
  assumes "length cr = 32" "line_end eol"
  shows "masterSecret (addLine (''CLIENT_RANDOM '' @ BytesToHex cr @ '' '' @ BytesToHex ms @ eol) kl) cr' =
    (if cr' = cr then ms else masterSecret kl cr')"
  using addLine_client_random [OF assms, of ms kl] BytesToHex_inj [of cr' cr] by (auto simp: masterSecret_def)

theorem keylog_round_trip_witness:
  "masterSecret (addLine (''CLIENT_RANDOM '' @ BytesToHex test_cr @ '' '' @ BytesToHex test_master @ [CHR 0x0D, CHR 0x0A]) Map.empty) test_cr
     = test_master"
  using keylog_round_trip [of test_cr "[CHR 0x0D, CHR 0x0A]" test_master Map.empty test_cr]
  by (simp add: test_cr_def line_end_def)


text \<open>Decryption always comes to an end, and its outcome is one of two: it succeeded, without a note, for a
  suite of TLS 1.2 whose master secret the key log has, or it failed with a note and released no plaintext.\<close>

theorem TlsDecryptFlow_outcome:
  assumes "hmac_sized hmac"
  shows "\<exists>r. TlsDecryptFlow hmac gcm outStream inStream keylog = Some r
    \<and> (if td_ok r then td_note r = [] \<and> \<not> td_isTls13 r \<and>
          (\<exists>cr sr si. read_hellos (ParseRecords outStream) (ParseRecords inStream) = Inr (cr, sr, td_cipherSuite r)
             \<and> LookupSuite (td_cipherSuite r) = Some si \<and> \<not> si_tls13 si \<and> length (masterSecret keylog cr) = 48)
       else td_note r \<noteq> [] \<and> td_outPlain r = [] \<and> td_inPlain r = [])"
proof (cases "read_hellos (ParseRecords outStream) (ParseRecords inStream)")
  case (Inl why)
  then have "why \<noteq> []" by (auto simp: read_hellos_def Let_def split: option.splits if_splits)
  with Inl show ?thesis by (simp add: TlsDecryptFlow_def new_result_def)
next
  case (Inr h)
  obtain cr sr suite where h: "h = (cr, sr, suite)" by (cases h)
  have n: "suite_note suite \<noteq> []" by (simp add: suite_note_def snprintf_def)
  show ?thesis
  proof (cases "LookupSuite suite")
    case (Some si)
    obtain k where "DeriveKeyBlock hmac (masterSecret keylog cr) cr sr si = Some k"
      using DeriveKeyBlock_Some [OF assms] .
    with Some Inr h show ?thesis by (simp add: TlsDecryptFlow_def new_result_def Let_def)
  qed (use Inr h n in \<open>simp add: TlsDecryptFlow_def new_result_def\<close>)
qed

theorem TlsDecryptFlow_outcome_witness:
  "\<exists>r. TlsDecryptFlow flat_hmac plain_gcm [22, 3, 3] [] Map.empty = Some r
     \<and> (if td_ok r then td_note r = [] \<and> \<not> td_isTls13 r \<and>
          (\<exists>cr sr si. read_hellos (ParseRecords [22, 3, 3]) (ParseRecords []) = Inr (cr, sr, td_cipherSuite r)
             \<and> LookupSuite (td_cipherSuite r) = Some si \<and> \<not> si_tls13 si \<and> length (masterSecret Map.empty cr) = 48)
       else td_note r \<noteq> [] \<and> td_outPlain r = [] \<and> td_inPlain r = [])"
  by (rule TlsDecryptFlow_outcome [OF flat_hmac_sized])

text \<open>The two hellos of the self-test, as records.\<close>

definition test_client_hello :: tls_record where
  "test_client_hello = \<lparr>tr_type = 22, tr_ver = 0x0303,
     tr_payload = [1, 0, 0, 0x29, 3, 3] @ test_cr @ [0, 0, 2, 0xC0, 0x2F, 1, 0]\<rparr>"

definition test_server_hello :: tls_record where
  "test_server_hello = \<lparr>tr_type = 22, tr_ver = 0x0303,
     tr_payload = [2, 0, 0, 0x26, 3, 3] @ test_sr @ [0, 0xC0, 0x2F, 0]\<rparr>"

definition test_keylog :: key_log where
  "test_keylog = addLine (''CLIENT_RANDOM '' @ BytesToHex test_cr @ '' '' @ BytesToHex test_master) Map.empty"

definition test_suite :: suite_info where
  "test_suite = \<lparr>si_keyLen = 16, si_prf = MBEDTLS_MD_SHA256, si_gcm = True, si_tls13 = False\<rparr>"

definition test_sent :: sent where
  "test_sent = (23, [0, 0, 0, 0, 0, 0, 0, 1], bytes_of_text test_message)"

lemma test_lengths [simp]: "length test_cr = 32" "length test_sr = 32"
  by (simp_all add: test_cr_def test_sr_def)

lemma test_hellos: "read_hellos [test_client_hello] [test_server_hello] = Inr (test_cr, test_sr, 0xC02F)"
proof -
  have o: "FindHandshake 1 [test_client_hello] = Some ([3, 3] @ test_cr @ [0, 0, 2, 0xC0, 0x2F, 1, 0])"
    by (simp add: test_client_hello_def find_in_record.simps)
  have i: "FindHandshake 2 [test_server_hello] = Some ([3, 3] @ test_sr @ [0, 0xC0, 0x2F, 0])"
    by (simp add: test_server_hello_def find_in_record.simps)
  show ?thesis unfolding read_hellos_def o i by (simp add: Let_def nth_append be16_def)
qed

lemma test_clear: "clear_part [test_client_hello]" "clear_part [test_server_hello]"
  by (simp_all add: clear_part_def test_client_hello_def test_server_hello_def)

lemma test_suite_found: "LookupSuite 0xC02F = Some test_suite" "\<not> si_tls13 test_suite"
  by code_simp+

lemma test_keylog_secret: "masterSecret test_keylog test_cr = test_master"
  using addLine_client_random [of test_cr "[]" test_master Map.empty]
  by (simp add: test_keylog_def masterSecret_def line_end_def test_cr_def)

lemma test_master_length: "length (masterSecret test_keylog test_cr) = 48"
  by (simp add: test_keylog_secret test_master_def)

lemma test_sent_ok: "sent_ok test_sent"
  by code_simp

lemmas test_facts = test_hellos test_suite_found test_master_length test_clear


lemma test_aad: "record_aad 0 23 0x0303 (length test_message) = [0, 0, 0, 0, 0, 0, 0, 0, 23, 3, 3] @ be_bytes 2 (length test_message)"
  by code_simp

lemma PutRec_enc: "PutRec s ty p = s @ enc_tls \<lparr>tr_type = ty, tr_ver = 0x0303, tr_payload = p\<rparr>"
proof -
  have "be_bytes 2 (unat (0x0303 :: u16)) = [3, 3]" by code_simp
  then show ?thesis by (simp add: PutRec_def enc_tls_def)
qed

lemma test_hello_wire: "PutRec [] 22 ([1, 0, 0, 0x29, 3, 3] @ test_cr @ [0, 0, 2, 0xC0, 0x2F, 1, 0]) = enc_tls test_client_hello"
  "PutRec [] 22 ([2, 0, 0, 0x26, 3, 3] @ test_sr @ [0] @ be_bytes 2 (unat (0xC02F :: u16)) @ [0]) = enc_tls test_server_hello"
proof -
  have "be_bytes 2 (unat (0xC02F :: u16)) = [0xC0, 0x2F]" by (simp add: be_bytes_2)
  then show "PutRec [] 22 ([2, 0, 0, 0x26, 3, 3] @ test_sr @ [0] @ be_bytes 2 (unat (0xC02F :: u16)) @ [0]) = enc_tls test_server_hello"
    by (simp add: PutRec_enc test_server_hello_def)
qed (simp add: PutRec_enc test_client_hello_def)

lemma test_text: "text_of (app_data [test_sent]) = test_message"
  by code_simp

text \<open>The decryptor's self-test passes with every authenticated cipher and every message authentication code that
  keep their contracts: it synthesizes a connection and gets the plaintext back.\<close>

theorem TlsDecryptSelfTest_passes:
  assumes "aead gcm seal" "hmac_sized hmac"
  shows "map_option fst (TlsDecryptSelfTest hmac gcm seal) = Some True"
proof -
  obtain k where k: "DeriveKeyBlock hmac test_master test_cr test_sr test_suite = Some k"
    using DeriveKeyBlock_Some [OF assms(2)] .
  obtain ct tag where s: "seal (cKey k) (cIV k @ [0, 0, 0, 0, 0, 0, 0, 1])
      ([0, 0, 0, 0, 0, 0, 0, 0, 23, 3, 3] @ be_bytes 2 (length test_message)) (bytes_of_text test_message) = (ct, tag)"
    by (meson surj_pair)
  have iv: "length (cIV k) = 4"
    using DeriveKeyBlock_returns [OF assms(2), of test_master test_cr test_sr test_suite] k by auto
  have o: "PutRec (PutRec (enc_tls test_client_hello) 20 [1]) 23 ([0, 0, 0, 0, 0, 0, 0, 1] @ ct @ tag) =
      wire seal (cKey k) (cIV k) [test_client_hello] [test_sent]"
    using s by (simp add: PutRec_enc wire_def ccs_record_def seal_record_def test_sent_def test_aad)
  have i: "PutRec (enc_tls test_server_hello) 20 [1] = wire seal (sKey k) (sIV k) [test_server_hello] []"
    by (simp add: PutRec_enc wire_def ccs_record_def)
  have "TlsDecryptFlow hmac gcm (wire seal (cKey k) (cIV k) [test_client_hello] [test_sent])
      (wire seal (sKey k) (sIV k) [test_server_hello] []) test_keylog
    = Some \<lparr>td_ok = True, td_note = [], td_cipherSuite = 0xC02F, td_isTls13 = False,
        td_outPlain = app_data [test_sent], td_inPlain = app_data []\<rparr>"
    by (rule flow_decrypts [OF assms test_hellos test_suite_found test_master_length _ test_clear])
      (simp_all add: test_sent_ok test_keylog_secret k)
  then show ?thesis
    using k s iv o i unfolding TlsDecryptSelfTest_def test_suite_def test_keylog_def
    by (simp add: test_hello_wire [simplified] Let_def test_text)
qed

theorem TlsDecryptSelfTest_passes_witness:
  "map_option fst (TlsDecryptSelfTest flat_hmac plain_gcm plain_seal) = Some True"
  by (rule TlsDecryptSelfTest_passes [OF plain_aead flat_hmac_sized])

end
