(* ===== verification/Knd_Inspector.thy ===== *)
theory Knd_Inspector
  imports Knd_Feed Knd_Tls
begin

text \<open>
  What the panels of the user interface read off the model (\<^verbatim>\<open>src/app/src/ui.cpp\<close>): the filters of the
  connection and packet lists, the busiest connections, the hex dump, the pairs of messages and their bodies, and the two
  caches of the inspector, one for the parsed HTTP messages and one for the decrypted
  stream. Widgets, colours and layout belong to the drawing library and are left out.
\<close>

section \<open>Filters and selections\<close>

definition FlowMatchesFilter :: "'t knd_flow \<Rightarrow> bool \<Rightarrow> string \<Rightarrow> bool" where
  "FlowMatchesFilter f showClosed filterText =
     (if \<not> showClosed \<and> kf_closed f then False
      else if c_str filterText = [] then True
      else (let hay = snprintf 512 (c_str (kf_processName f) @ '' ''
                 @ KndFormatAddr (kf_remoteAddr f) (kf_ipVersion f) @ '' '' @ dec_text (unat (kf_remotePort f)) @ '' ''
                 @ KndFormatAddr (kf_localAddr f) (kf_ipVersion f) @ '' '' @ dec_text (unat (kf_localPort f)) @ '' ''
                 @ KndFormatProto (kf_protocol f)) in
        has_text (map tolower (c_str filterText)) (map tolower hay)))"

definition flow_rows :: "'t knd_model \<Rightarrow> bool \<Rightarrow> string \<Rightarrow> 't knd_flow list" where
  "flow_rows mdl showClosed filterText = filter (\<lambda>f. FlowMatchesFilter f showClosed filterText) (flows mdl)"

definition InfoMatch :: "string \<Rightarrow> string \<Rightarrow> bool" where
  "InfoMatch info needleLower = (if needleLower = [] then True else has_text needleLower (map tolower info))"

definition packet_view :: "'t knd_model \<Rightarrow> string \<Rightarrow> knd_packet list" where
  "packet_view mdl packetFilter =
     (let nf = map tolower (c_str packetFilter); filtering = (nf \<noteq> []) in
      filter (\<lambda>p. \<not> filtering \<or> InfoMatch (pk_info p) nf) (packets mdl))"

definition selected_packet :: "'t knd_model \<Rightarrow> u64 \<Rightarrow> knd_packet option" where
  "selected_packet mdl selectedPacket = List.find (\<lambda>p. pk_no p = selectedPacket) (packets mdl)"

text \<open>The order of connections with equal totals is not fixed by the library; here they keep their order.\<close>

definition flow_total :: "'t knd_flow \<Rightarrow> u64" where
  "flow_total f = kf_bytesIn f + kf_bytesOut f"

definition top_talkers :: "'t knd_model \<Rightarrow> 't knd_flow list" where
  "top_talkers mdl =
     (let showN = (if length (flows mdl) < 8 then length (flows mdl) else 8) in
      take showN (sort_key (\<lambda>f. - int (unat (flow_total f))) (flows mdl)))"

section \<open>Hex dump\<close>

definition hex_upper :: "nat \<Rightarrow> char" where
  "hex_upper d = char_of (if d < 10 then 48 + d else 55 + d)"

fun upper_text :: "nat \<Rightarrow> string" where
  "upper_text n = (if n < 16 then [hex_upper n] else upper_text (n div 16) @ [hex_upper (n mod 16)])"

declare upper_text.simps [simp del]

definition hex_cell :: "bytes \<Rightarrow> nat \<Rightarrow> string" where
  "hex_cell buf idx = (if idx < length buf then snprintf 4 (pad0 2 (upper_text (unat (buf ! idx))) @ '' '') else ''   '')"

definition dump_row :: "bytes \<Rightarrow> nat \<Rightarrow> string \<times> string \<times> string" where
  "dump_row buf r =
     (let base = r * 16 in
      (snprintf 8 (pad0 6 (upper_text base)), concat (map (\<lambda>c. hex_cell buf (base + c)) [0..<16]),
       map (\<lambda>c. if base + c < length buf then printable (buf ! (base + c)) else CHR '' '') [0..<16]))"

definition DrawHexDump :: "bytes \<Rightarrow> (string \<times> string \<times> string) list" where
  "DrawHexDump buf = map (dump_row buf) [0..<(length buf + 16 - 1) div 16]"

section \<open>Transactions and bodies\<close>

text \<open>The parsed messages are shown in pairs by position; the longer list is shown to its end.\<close>

definition RenderHttpTransactions ::
  "http_message list \<Rightarrow> http_message list \<Rightarrow> (http_message option \<times> http_message option) list" where
  "RenderHttpTransactions reqs resps =
     (let count = (if length reqs > length resps then length reqs else length resps) in
      map (\<lambda>i. (if i < length reqs then Some (reqs ! i) else None, if i < length resps then Some (resps ! i) else None))
        [0..<count])"

text \<open>What is shown of a body, and whether the note on the capture cap follows.\<close>

datatype body_view = Encoded string nat | No_Body | Text_Body string "nat option" | Binary_Body nat string

definition kShow :: nat where "kShow = 256 * 1024"

definition DrawBody :: "http_message \<Rightarrow> body_view \<times> bool" where
  "DrawBody x =
     (if hm_contentEncoding x \<noteq> [] then (Encoded (hm_contentEncoding x) (length (hm_body x)), False)
      else if hm_body x = [] then (No_Body, False)
      else (if HttpIsTextual (hm_contentType x) \<or> hm_contentType x = []
        then Text_Body (take (if length (hm_body x) < kShow then length (hm_body x) else kShow) (hm_body x))
          (if length (hm_body x) > kShow then Some (length (hm_body x)) else None)
        else Binary_Body (length (hm_body x)) (hm_contentType x),
        hm_bodyTruncated x))"

text \<open>No message is left out, repeated or moved, and a text is shown whole or announced as a part.\<close>

lemma List_map_filter_map: "List.map_filter f (map g xs) = List.map_filter (f \<circ> g) xs"
  by (induction xs) (simp_all add: List.map_filter_simps split: option.split)

lemma shown_prefix:
  "n \<le> k \<Longrightarrow> List.map_filter (\<lambda>i. if i < n then Some (xs ! i) else None) [0..<k] = map ((!) xs) [0..<n]"
proof (induction k)
  case (Suc k)
  have app: "List.map_filter f (us @ vs) = List.map_filter f us @ List.map_filter f vs" for f :: "nat \<Rightarrow> 'a option" and us vs
    by (simp add: List.map_filter_def)
  show ?case
  proof (cases "n = Suc k")
    case True
    have "List.map_filter (\<lambda>i. if i < n then Some (xs ! i) else None) [0..<n] = map ((!) xs) [0..<n]"
      by (simp add: List.map_filter_def)
    then show ?thesis using True by simp
  next
    case False
    then show ?thesis using Suc by (simp add: app List.map_filter_simps)
  qed
qed (simp add: List.map_filter_simps)

lemma transactions_complete:
  "List.map_filter fst (RenderHttpTransactions reqs resps) = reqs"
  "List.map_filter snd (RenderHttpTransactions reqs resps) = resps"
proof -
  have "List.map_filter fst (RenderHttpTransactions reqs resps) = map ((!) reqs) [0..<length reqs]"
    by (simp add: RenderHttpTransactions_def List_map_filter_map comp_def shown_prefix)
  then show "List.map_filter fst (RenderHttpTransactions reqs resps) = reqs" by (simp add: map_nth)
  have "List.map_filter snd (RenderHttpTransactions reqs resps) = map ((!) resps) [0..<length resps]"
    by (simp add: RenderHttpTransactions_def List_map_filter_map comp_def shown_prefix)
  then show "List.map_filter snd (RenderHttpTransactions reqs resps) = resps" by (simp add: map_nth)
qed

lemma DrawBody_text:
  "DrawBody x = (Text_Body t part, c) \<Longrightarrow>
     prefix t (hm_body x) \<and> length t = min (length (hm_body x)) kShow \<and> (part = None \<longleftrightarrow> t = hm_body x) \<and> c = hm_bodyTruncated x"
  by (auto simp: DrawBody_def take_is_prefix min_def split: if_splits)

section \<open>Inspector\<close>

definition SIZE_MAX :: nat where "SIZE_MAX = 2 ^ 64 - 1"

record http_cache =
  hc_flow :: u64
  hc_out :: nat
  hc_in :: nat
  hc_reqs :: "http_message list"
  hc_resps :: "http_message list"

definition new_http_cache :: http_cache where
  "new_http_cache = \<lparr>hc_flow = 0, hc_out = SIZE_MAX, hc_in = SIZE_MAX, hc_reqs = [], hc_resps = []\<rparr>"

definition refresh_http :: "'t knd_flow \<Rightarrow> http_cache \<Rightarrow> http_cache option" where
  "refresh_http f c =
     (if kf_flowId f \<noteq> hc_flow c \<or> length (kf_payload f ! 0) \<noteq> hc_out c \<or> length (kf_payload f ! 1) \<noteq> hc_in c
      then Option.bind (HttpParse (kf_payload f ! 0) False) (\<lambda>reqs.
        Option.bind (HttpParse (kf_payload f ! 1) True) (\<lambda>resps.
          Some \<lparr>hc_flow = kf_flowId f, hc_out = length (kf_payload f ! 0), hc_in = length (kf_payload f ! 1),
            hc_reqs = reqs, hc_resps = resps\<rparr>))
      else Some c)"

record tls_cache =
  dc_flow :: u64
  dc_out :: nat
  dc_in :: nat
  dc_keys :: nat
  dc_res :: tls_result
  dc_req :: "http_message list"
  dc_resp :: "http_message list"

definition new_tls_cache :: tls_cache where
  "new_tls_cache = \<lparr>dc_flow = 0, dc_out = SIZE_MAX, dc_in = SIZE_MAX, dc_keys = SIZE_MAX, dc_res = new_result,
     dc_req = [], dc_resp = []\<rparr>"

definition key_count :: "key_log \<Rightarrow> nat" where
  "key_count keylog = card (dom keylog)"

definition decrypt_view ::
  "hmac_fun \<Rightarrow> (bytes \<Rightarrow> gcm_open option) \<Rightarrow> key_log \<Rightarrow> bytes \<Rightarrow> bytes \<Rightarrow> (tls_result \<times> http_message list \<times> http_message list) option" where
  "decrypt_view hmac gcm keylog out inn =
     Option.bind (TlsDecryptFlow hmac gcm out inn keylog) (\<lambda>res.
       if td_ok res
       then Option.bind (HttpParse (td_outPlain res) False) (\<lambda>req.
         Option.bind (HttpParse (td_inPlain res) True) (\<lambda>resp. Some (res, req, resp)))
       else Some (res, [], []))"

definition refresh_tls ::
  "hmac_fun \<Rightarrow> (bytes \<Rightarrow> gcm_open option) \<Rightarrow> key_log \<Rightarrow> 't knd_flow \<Rightarrow> tls_cache \<Rightarrow> tls_cache option" where
  "refresh_tls hmac gcm keylog f c =
     (if kf_flowId f \<noteq> dc_flow c \<or> length (kf_payload f ! 0) \<noteq> dc_out c \<or> length (kf_payload f ! 1) \<noteq> dc_in c
         \<or> key_count keylog \<noteq> dc_keys c
      then map_option (\<lambda>(res, req, resp).
          \<lparr>dc_flow = kf_flowId f, dc_out = length (kf_payload f ! 0), dc_in = length (kf_payload f ! 1),
           dc_keys = key_count keylog, dc_res = res, dc_req = req, dc_resp = resp\<rparr>)
        (decrypt_view hmac gcm keylog (kf_payload f ! 0) (kf_payload f ! 1))
      else Some c)"

text \<open>One drawing of the panel: the caches are brought up to date for the selected connection, the second one
  only while its tab is open and a key log is loaded.\<close>

definition DrawInspector ::
  "hmac_fun \<Rightarrow> (bytes \<Rightarrow> gcm_open option) \<Rightarrow> bool \<Rightarrow> key_log \<Rightarrow> bool \<Rightarrow> u64 \<Rightarrow> 't knd_model
     \<Rightarrow> http_cache \<times> tls_cache \<Rightarrow> (http_cache \<times> tls_cache) option" where
  "DrawInspector hmac gcm keylogLoaded keylog tab selectedFlow mdl cs = (case cs of (hc, tc) \<Rightarrow>
     (case find_flow selectedFlow mdl of
        None \<Rightarrow> Some (hc, tc)
      | Some f \<Rightarrow> Option.bind (refresh_http f hc) (\<lambda>hc.
          if tab \<and> keylogLoaded then map_option (Pair hc) (refresh_tls hmac gcm keylog f tc)
          else Some (hc, tc))))"


section \<open>Captured streams only grow\<close>

text \<open>Whatever the cap is set to, a record never changes or shortens what a connection already holds.\<close>

definition buf_wf :: "'t knd_flow \<Rightarrow> bool" where
  "buf_wf f \<longleftrightarrow> length (kf_payload f) = 2 \<and> (\<forall>p \<in> set (kf_payload f). length p < SIZE_MAX)"

definition view_wf :: "'t knd_model \<Rightarrow> bool" where
  "view_wf mdl \<longleftrightarrow> index_wf mdl \<and> (\<forall>f \<in> set (flows mdl). buf_wf f)"

definition flow_grows :: "'t knd_flow \<Rightarrow> 't knd_flow \<Rightarrow> bool" where
  "flow_grows f f' \<longleftrightarrow> kf_flowId f' = kf_flowId f \<and> (\<forall>d < 2. prefix (kf_payload f ! d) (kf_payload f' ! d))"

definition grows :: "'t knd_model \<Rightarrow> 't knd_model \<Rightarrow> bool" where
  "grows mdl m' \<longleftrightarrow> (\<forall>fid f. find_flow fid mdl = Some f \<longrightarrow> (\<exists>f'. find_flow fid m' = Some f' \<and> flow_grows f f'))"

lemma flow_grows_refl [simp]: "flow_grows f f"
  by (simp add: flow_grows_def)

lemma grows_refl [simp]: "grows mdl mdl"
  by (simp add: grows_def)

lemma view_wf_flow:
  assumes "view_wf mdl" "find_flow fid mdl = Some f"
  shows "kf_flowId f = fid" "buf_wf f" "length (kf_payload f) = 2"
    "length (kf_payload f ! 0) < SIZE_MAX" "length (kf_payload f ! 1) < SIZE_MAX"
proof -
  obtain i where i: "flow_index mdl fid = Some i" "f = flows mdl ! i" using assms(2) by (auto simp: find_flow_def)
  then have "i < length (flows mdl)" "kf_flowId f = fid" using assms(1) by (auto simp: view_wf_def index_wf_def)
  then show "kf_flowId f = fid" "buf_wf f" using assms(1) i(2) by (auto simp: view_wf_def)
  then show "length (kf_payload f) = 2" "length (kf_payload f ! 0) < SIZE_MAX" "length (kf_payload f ! 1) < SIZE_MAX"
    by (simp_all add: buf_wf_def)
qed

lemma append_payload_grows:
  assumes "append_payload cap dir len data f = Some f'" "dir < 2" "cap < SIZE_MAX" "buf_wf f"
  shows "flow_grows f f'" "buf_wf f'"
proof -
  have "length (kf_payload f) = 2" using assms(4) by (simp add: buf_wf_def)
  then show "flow_grows f f'"
    using assms(1,2) by (auto simp: append_payload_def Let_def flow_grows_def nth_list_update split: if_splits)
  show "buf_wf f'"
    using assms set_update_subset_insert [of "kf_payload f" dir]
    by (fastforce simp: append_payload_def Let_def buf_wf_def split: if_splits)
qed

lemma keeps_grows: "flow_keeps f f' \<Longrightarrow> flow_grows f f' \<and> (buf_wf f \<longrightarrow> buf_wf f')"
  by (simp add: flow_keeps_def flow_grows_def buf_wf_def)

lemma data_flow_grows:
  assumes "data_flow cap rec now dp data f = Some f'" "cap < SIZE_MAX" "buf_wf f"
  shows "flow_grows f f'" "buf_wf f'"
proof -
  obtain f1 where "append_payload cap (flow_dir (dp_direction dp)) (unat (dp_dataLength dp)) data f1 = Some f'"
    "flow_keeps f f1" using data_flow_append [OF assms(1)] by blast
  with append_payload_grows [OF _ flow_dir_lt assms(2), of _ _ data f1 f'] keeps_grows [of f f1] assms(3)
  show "flow_grows f f'" "buf_wf f'" by (auto simp: flow_grows_def flow_keeps_def)
qed

lemma pushPacket_flows:
  "pushPacket rec f dir len data mdl = Some m' \<Longrightarrow>
     flows m' = flows mdl \<and> flow_index m' = flow_index mdl \<and> payloadCap m' = payloadCap mdl"
  by (auto simp: pushPacket_def Let_def)

text \<open>Every record updates at most one connection, found or made, and only forward.\<close>

lemma replaced_flow:
  assumes "view_wf mdl" "getOrCreate fid now mdl = (i, m1)" "flow_grows (flows m1 ! i) f" "buf_wf (flows m1 ! i) \<Longrightarrow> buf_wf f"
    and "flows m' = (flows m1)[i := f]" "flow_index m' = flow_index m1"
  shows "view_wf m' \<and> grows mdl m'"
proof -
  have ix: "index_wf mdl" using assms(1) by (simp add: view_wf_def)
  have lt: "flow_index mdl g = Some j \<Longrightarrow> j < length (flows mdl) \<and> kf_flowId (flows mdl ! j) = g" for g j
    using ix by (simp add: index_wf_def)
  have id: "kf_flowId f = kf_flowId (flows m1 ! i)" using assms(3) by (simp add: flow_grows_def)
  show ?thesis
  proof (cases "flow_index mdl fid")
    case (Some j)
    then have m1: "m1 = mdl" "i = j" "j < length (flows mdl)" using assms(2) lt by (auto simp: getOrCreate_def)
    have "index_wf m'"
      using ix id m1 unfolding index_wf_def assms(5,6) by (auto simp: nth_list_update)
    moreover have "\<forall>x \<in> set (flows m'). buf_wf x"
      using assms(1,4) m1 set_update_subset_insert [of "flows mdl" j f] by (auto simp: view_wf_def assms(5))
    moreover have "\<exists>f'. find_flow g m' = Some f' \<and> flow_grows x f'" if gx: "find_flow g mdl = Some x" for g x
    proof -
      obtain k where "flow_index mdl g = Some k" "x = flows mdl ! k" using gx by (auto simp: find_flow_def)
      then show ?thesis using assms(3) m1 lt by (cases "k = j") (simp_all add: find_flow_def assms(5,6))
    qed
    then have "grows mdl m'" by (simp add: grows_def)
    ultimately show ?thesis by (simp add: view_wf_def)
  next
    case None
    then have m1: "flows m1 = flows mdl @ [new_flow fid now]" "flow_index m1 = (flow_index mdl)(fid \<mapsto> length (flows mdl))"
      "i = length (flows mdl)" using assms(2) by (auto simp: getOrCreate_def)
    have new: "kf_flowId (new_flow fid now) = fid" "buf_wf (new_flow fid now)"
      by (simp_all add: new_flow_def buf_wf_def SIZE_MAX_def)
    have no: "kf_flowId (flows mdl ! j) \<noteq> fid" if "j < length (flows mdl)" for j
      using None ix that unfolding index_wf_def by (metis option.distinct(1))
    have fl: "flows m' = flows mdl @ [f]" using m1 by (simp add: assms(5))
    have f: "kf_flowId f = fid" "buf_wf f" using id m1 new assms(4) by simp_all
    have "index_wf m'"
      unfolding index_wf_def fl assms(6) m1(2) using ix no f(1) unfolding index_wf_def
      by (auto simp: nth_append less_Suc_eq)
    moreover have "find_flow g m' = Some x" if gx: "find_flow g mdl = Some x" for g x
    proof -
      obtain k where "flow_index mdl g = Some k" "x = flows mdl ! k" using gx by (auto simp: find_flow_def)
      then show ?thesis using None lt by (auto simp: find_flow_def fl assms(6) m1(2) nth_append)
    qed
    then have "grows mdl m'" by (auto simp: grows_def)
    ultimately show ?thesis using assms(1) f(2) by (simp add: view_wf_def fl)
  qed
qed

lemma view_wf_stats [simp]: "view_wf (mdl\<lparr>stats := st\<rparr>) = view_wf mdl" "grows (mdl\<lparr>stats := st\<rparr>) m' = grows mdl m'"
  by (simp_all add: view_wf_def index_wf_def grows_def)

lemma open_close_keeps: "flow_keeps f (open_flow utf8 rec p ws f)" "flow_keeps f (close_flow rec p f)"
  by (simp_all add: open_flow_def close_flow_def Let_def flow_keeps_def)

lemma ingest_grows:
  assumes "ingest utf8 r now mdl = Some m'" "view_wf mdl" "payloadCap mdl < SIZE_MAX"
  shows "view_wf m' \<and> grows mdl m' \<and> payloadCap m' = payloadCap mdl"
proof -
  define m0 where "m0 = mdl\<lparr>stats := (stats mdl)\<lparr>ms_totalRecords := ms_totalRecords (stats mdl) + 1\<rparr>\<rparr>"
  let ?body = "drop sizeof_RECORD r" and ?rec = "dec_record r"
  have v: "view_wf m0" "payloadCap m0 = payloadCap mdl" "grows m0 m' = grows mdl m'"
    using assms(2) by (simp_all add: m0_def)
  have cap: "getOrCreate fid now m0 = (i, m1) \<Longrightarrow> payloadCap m1 = payloadCap mdl" for fid i m1
    by (auto simp: getOrCreate_def m0_def split: option.splits)
  have "ingest_open utf8 ?rec ?body now m0 = Some m' \<or> ingest_close ?rec ?body now m0 = Some m'
    \<or> ingest_data ?rec ?body now m0 = Some m' \<or> m' = m0"
    using assms(1) unfolding ingest_def Let_def m0_def [symmetric] by (metis option.distinct(1) option.inject)
  then consider "ingest_open utf8 ?rec ?body now m0 = Some m'" | "ingest_close ?rec ?body now m0 = Some m'"
    | "ingest_data ?rec ?body now m0 = Some m'" | "m' = m0" by blast
  then show ?thesis
  proof cases
    case 1
    obtain i m1 where g: "getOrCreate (cp_flowId (dec_conn ?body)) now m0 = (i, m1)" by fastforce
    define f where "f = open_flow utf8 ?rec (dec_conn ?body) (get_wchars ?body 80 (unat (cp_processPathChars (dec_conn ?body)))) (flows m1 ! i)"
    have "flows m' = (flows m1)[i := f] \<and> flow_index m' = flow_index m1 \<and> payloadCap m' = payloadCap m1"
      using 1 g by (auto simp: ingest_open_def Let_def set_flow_def f_def split: if_splits dest!: pushPacket_flows)
    moreover have "flow_keeps (flows m1 ! i) f" by (simp add: f_def open_close_keeps)
    ultimately show ?thesis using replaced_flow [OF v(1) g, of f m'] keeps_grows [of "flows m1 ! i" f] v(3) cap [OF g] by simp
  next
    case 2
    obtain i m1 where g: "getOrCreate (cp_flowId (dec_conn ?body)) now m0 = (i, m1)" by fastforce
    define f where "f = close_flow ?rec (dec_conn ?body) (flows m1 ! i)"
    have "flows m' = (flows m1)[i := f] \<and> flow_index m' = flow_index m1 \<and> payloadCap m' = payloadCap m1"
      using 2 g by (auto simp: ingest_close_def Let_def set_flow_def f_def split: if_splits dest!: pushPacket_flows)
    moreover have "flow_keeps (flows m1 ! i) f" by (simp add: f_def open_close_keeps)
    ultimately show ?thesis using replaced_flow [OF v(1) g, of f m'] keeps_grows [of "flows m1 ! i" f] v(3) cap [OF g] by simp
  next
    case 3
    obtain i m1 where g: "getOrCreate (dp_flowId (dec_data ?body)) now m0 = (i, m1)" by fastforce
    obtain f where f: "data_flow (payloadCap m1) ?rec now (dec_data ?body) (drop sizeof_DATA_PAYLOAD ?body) (flows m1 ! i) = Some f"
      "flows m' = (flows m1)[i := f] \<and> flow_index m' = flow_index m1 \<and> payloadCap m' = payloadCap m1"
      using 3 g by (auto simp: ingest_data_def Let_def set_flow_def split: if_splits option.splits dest!: pushPacket_flows)
    have w: "view_wf m1" "grows m0 m1"
      using replaced_flow [OF v(1) g, of "flows m1 ! i" m1] by auto
    have "i < length (flows m1)"
      using g v(1) by (auto simp: getOrCreate_def view_wf_def index_wf_def split: option.splits)
    then have "buf_wf (flows m1 ! i)" using w(1) by (simp add: view_wf_def)
    note d = data_flow_grows [OF f(1) _ this]
    show ?thesis using replaced_flow [OF v(1) g, of f m'] d f(2) v(3) cap [OF g] assms(3) by simp
  next
    case 4
    then show ?thesis using v by (simp add: m0_def)
  qed
qed


section \<open>What the inspector shows is current\<close>

text \<open>The states of model, key log and caches between two drawings: records arrive, the cap is changed, a key
  log is loaded, the inspector is drawn. Discarding the capture and reloading a key log of the size that the
  cache was filled with are the two steps left out; the lemmas after the next section show what happens there.\<close>

text \<open>The cap of a stream in bytes, from the option in MB, in 64-bit arithmetic.\<close>

definition cap_bytes :: "int \<Rightarrow> nat" where
  "cap_bytes mb = nat (mb mod 2 ^ 64 * 1024 * 1024 mod 2 ^ 64)"

lemma cap_bytes_lt: "cap_bytes mb < SIZE_MAX"
proof -
  define x where "x = mb mod 2 ^ 64"
  have "x * 1024 * 1024 mod 2 ^ 64 = 1048576 * (x mod 2 ^ 44)"
    using mult_mod_right [of "1048576 :: int" x "2 ^ 44"] by (simp add: algebra_simps)
  moreover have "x mod 2 ^ 44 < 2 ^ 44" "0 \<le> x mod 2 ^ 44" by simp_all
  ultimately show ?thesis unfolding cap_bytes_def SIZE_MAX_def x_def by simp
qed

type_synonym 't inspection = "'t knd_model \<times> key_log \<times> http_cache \<times> tls_cache"

inductive inspect_step :: "hmac_fun \<Rightarrow> (bytes \<Rightarrow> gcm_open option) \<Rightarrow> 't inspection \<Rightarrow> 't inspection \<Rightarrow> bool"
  for hmac gcm where
  arrive: "ingest utf8 r now mdl = Some m' \<Longrightarrow> inspect_step hmac gcm (mdl, keys, cs) (m', keys, cs)"
| resize: "inspect_step hmac gcm (mdl, keys, cs) (mdl\<lparr>payloadCap := cap_bytes mb\<rparr>, keys, cs)"
| load: "key_count keys' \<noteq> dc_keys tc \<Longrightarrow> inspect_step hmac gcm (mdl, keys, hc, tc) (mdl, keys', hc, tc)"
| draw: "DrawInspector hmac gcm loaded keys tab sel mdl cs = Some cs' \<Longrightarrow>
    inspect_step hmac gcm (mdl, keys, cs) (mdl, keys, cs')"

inductive_cases inspect_stepE: "inspect_step hmac gcm s s'"

definition http_fresh :: "'t knd_model \<Rightarrow> http_cache \<Rightarrow> bool" where
  "http_fresh mdl c \<longleftrightarrow> hc_out c = SIZE_MAX \<or> (\<exists>f. find_flow (hc_flow c) mdl = Some f
     \<and> hc_out c \<le> length (kf_payload f ! 0) \<and> hc_in c \<le> length (kf_payload f ! 1)
     \<and> HttpParse (take (hc_out c) (kf_payload f ! 0)) False = Some (hc_reqs c)
     \<and> HttpParse (take (hc_in c) (kf_payload f ! 1)) True = Some (hc_resps c))"

definition tls_fresh :: "hmac_fun \<Rightarrow> (bytes \<Rightarrow> gcm_open option) \<Rightarrow> key_log \<Rightarrow> 't knd_model \<Rightarrow> tls_cache \<Rightarrow> bool" where
  "tls_fresh hmac gcm keys mdl c \<longleftrightarrow> dc_out c = SIZE_MAX \<or> key_count keys \<noteq> dc_keys c \<or> (\<exists>f. find_flow (dc_flow c) mdl = Some f
     \<and> dc_out c \<le> length (kf_payload f ! 0) \<and> dc_in c \<le> length (kf_payload f ! 1)
     \<and> decrypt_view hmac gcm keys (take (dc_out c) (kf_payload f ! 0)) (take (dc_in c) (kf_payload f ! 1))
         = Some (dc_res c, dc_req c, dc_resp c))"

definition inspect_inv :: "hmac_fun \<Rightarrow> (bytes \<Rightarrow> gcm_open option) \<Rightarrow> 't inspection \<Rightarrow> bool" where
  "inspect_inv hmac gcm s \<longleftrightarrow> (case s of (mdl, keys, hc, tc) \<Rightarrow>
     view_wf mdl \<and> payloadCap mdl < SIZE_MAX \<and> http_fresh mdl hc \<and> tls_fresh hmac gcm keys mdl tc)"

lemma prefix_take: "prefix xs ys \<Longrightarrow> n \<le> length xs \<Longrightarrow> n \<le> length ys \<and> take n ys = take n xs"
  by (auto simp: prefix_def)

lemma fresh_grows:
  assumes "grows mdl m'"
  shows "http_fresh mdl hc \<Longrightarrow> http_fresh m' hc" "tls_fresh hmac gcm keys mdl tc \<Longrightarrow> tls_fresh hmac gcm keys m' tc"
proof -
  have g: "\<exists>f'. find_flow fid m' = Some f' \<and> (\<forall>n. n \<le> length (kf_payload f ! 0) \<longrightarrow>
      n \<le> length (kf_payload f' ! 0) \<and> take n (kf_payload f' ! 0) = take n (kf_payload f ! 0))
    \<and> (\<forall>n. n \<le> length (kf_payload f ! 1) \<longrightarrow>
      n \<le> length (kf_payload f' ! 1) \<and> take n (kf_payload f' ! 1) = take n (kf_payload f ! 1))"
    if fl: "find_flow fid mdl = Some f" for fid f
  proof -
    obtain f' where f': "find_flow fid m' = Some f'" "\<forall>d < 2. prefix (kf_payload f ! d) (kf_payload f' ! d)"
      using assms fl unfolding grows_def flow_grows_def by blast
    then have p: "prefix (kf_payload f ! 0) (kf_payload f' ! 0)" "prefix (kf_payload f ! 1) (kf_payload f' ! 1)" by simp_all
    show ?thesis using f'(1) prefix_take [OF p(1)] prefix_take [OF p(2)] by (intro exI [of _ f']) simp
  qed
  show "http_fresh m' hc" if h: "http_fresh mdl hc"
  proof (cases "hc_out hc = SIZE_MAX")
    case False
    then obtain f where "find_flow (hc_flow hc) mdl = Some f" "hc_out hc \<le> length (kf_payload f ! 0)"
      "hc_in hc \<le> length (kf_payload f ! 1)" "HttpParse (take (hc_out hc) (kf_payload f ! 0)) False = Some (hc_reqs hc)"
      "HttpParse (take (hc_in hc) (kf_payload f ! 1)) True = Some (hc_resps hc)"
      using h unfolding http_fresh_def by blast
    then show ?thesis using g [of "hc_flow hc" f] unfolding http_fresh_def by auto
  qed (simp add: http_fresh_def)
  show "tls_fresh hmac gcm keys m' tc" if t: "tls_fresh hmac gcm keys mdl tc"
  proof (cases "dc_out tc = SIZE_MAX \<or> key_count keys \<noteq> dc_keys tc")
    case False
    then obtain f where "find_flow (dc_flow tc) mdl = Some f" "dc_out tc \<le> length (kf_payload f ! 0)"
      "dc_in tc \<le> length (kf_payload f ! 1)"
      "decrypt_view hmac gcm keys (take (dc_out tc) (kf_payload f ! 0)) (take (dc_in tc) (kf_payload f ! 1))
         = Some (dc_res tc, dc_req tc, dc_resp tc)"
      using t unfolding tls_fresh_def by blast
    then show ?thesis using g [of "dc_flow tc" f] unfolding tls_fresh_def by auto
  qed (auto simp: tls_fresh_def)
qed


lemma http_total: "\<exists>ms. HttpParse buf resp = Some ms"
  using parse_all_total [of "[]" 0 "text_of buf" resp] by (auto simp: HttpParse_def)

lemma TlsDecryptFlow_total:
  assumes "hmac_sized hmac"
  shows "\<exists>r. TlsDecryptFlow hmac gcm a b keys = Some r"
proof -
  have "\<exists>k. DeriveKeyBlock hmac m cr sr si = Some k" for m cr sr si using DeriveKeyBlock_Some [OF assms] by metis
  then show ?thesis by (simp add: TlsDecryptFlow_def Let_def split: sum.split option.split)
qed

lemma decrypt_total:
  assumes "hmac_sized hmac"
  shows "\<exists>v. decrypt_view hmac gcm keys a b = Some v"
proof -
  obtain r where "TlsDecryptFlow hmac gcm a b keys = Some r"
    using TlsDecryptFlow_total [OF assms, of gcm a b keys] by (elim exE)
  moreover obtain x y where "HttpParse (td_outPlain r) False = Some x" "HttpParse (td_inPlain r) True = Some y"
    using http_total by metis
  ultimately show ?thesis by (simp add: decrypt_view_def)
qed

lemma refresh_http_current:
  assumes "view_wf mdl" "find_flow fid mdl = Some f" "http_fresh mdl c"
  shows "\<exists>c'. refresh_http f c = Some c' \<and> http_fresh mdl c' \<and> HttpParse (kf_payload f ! 0) False = Some (hc_reqs c')
    \<and> HttpParse (kf_payload f ! 1) True = Some (hc_resps c')"
proof -
  note v = view_wf_flow [OF assms(1,2)]
  obtain a b where p: "HttpParse (kf_payload f ! 0) False = Some a" "HttpParse (kf_payload f ! 1) True = Some b"
    using http_total by metis
  show ?thesis
  proof (cases "kf_flowId f \<noteq> hc_flow c \<or> length (kf_payload f ! 0) \<noteq> hc_out c \<or> length (kf_payload f ! 1) \<noteq> hc_in c")
    case True
    then show ?thesis using p v assms(2) by (simp add: refresh_http_def http_fresh_def)
  next
    case False
    then have "hc_out c \<noteq> SIZE_MAX" "hc_flow c = fid" using v by auto
    then have "HttpParse (kf_payload f ! 0) False = Some (hc_reqs c)" "HttpParse (kf_payload f ! 1) True = Some (hc_resps c)"
      using assms(2,3) False by (auto simp: http_fresh_def)
    then show ?thesis using False assms(3) by (auto simp: refresh_http_def)
  qed
qed

lemma refresh_tls_current:
  assumes "view_wf mdl" "find_flow fid mdl = Some f" "tls_fresh hmac gcm keys mdl c" "hmac_sized hmac"
  shows "\<exists>c'. refresh_tls hmac gcm keys f c = Some c' \<and> tls_fresh hmac gcm keys mdl c'
    \<and> decrypt_view hmac gcm keys (kf_payload f ! 0) (kf_payload f ! 1) = Some (dc_res c', dc_req c', dc_resp c')"
proof -
  note v = view_wf_flow [OF assms(1,2)]
  obtain r x y where p: "decrypt_view hmac gcm keys (kf_payload f ! 0) (kf_payload f ! 1) = Some (r, x, y)"
    using decrypt_total [OF assms(4)] by (metis prod.exhaust)
  show ?thesis
  proof (cases "kf_flowId f \<noteq> dc_flow c \<or> length (kf_payload f ! 0) \<noteq> dc_out c \<or> length (kf_payload f ! 1) \<noteq> dc_in c
      \<or> key_count keys \<noteq> dc_keys c")
    case True
    then show ?thesis using p v assms(2) by (simp add: refresh_tls_def tls_fresh_def)
  next
    case False
    then have "dc_out c \<noteq> SIZE_MAX" "dc_flow c = fid" using v by auto
    then have "decrypt_view hmac gcm keys (kf_payload f ! 0) (kf_payload f ! 1) = Some (dc_res c, dc_req c, dc_resp c)"
      using assms(2,3) False by (auto simp: tls_fresh_def)
    then show ?thesis using False assms(3) by (auto simp: refresh_tls_def)
  qed
qed

lemma DrawInspector_current:
  assumes "inspect_inv hmac gcm (mdl, keys, hc, tc)" "hmac_sized hmac"
  shows "\<exists>hc' tc'. DrawInspector hmac gcm loaded keys tab sel mdl (hc, tc) = Some (hc', tc')
    \<and> inspect_inv hmac gcm (mdl, keys, hc', tc')
    \<and> (\<forall>f. find_flow sel mdl = Some f \<longrightarrow> HttpParse (kf_payload f ! 0) False = Some (hc_reqs hc')
        \<and> HttpParse (kf_payload f ! 1) True = Some (hc_resps hc')
        \<and> (tab \<and> loaded \<longrightarrow> decrypt_view hmac gcm keys (kf_payload f ! 0) (kf_payload f ! 1) = Some (dc_res tc', dc_req tc', dc_resp tc')))"
proof (cases "find_flow sel mdl")
  case None
  then show ?thesis using assms(1) by (simp add: DrawInspector_def)
next
  case (Some f)
  have i: "view_wf mdl" "http_fresh mdl hc" "tls_fresh hmac gcm keys mdl tc" "payloadCap mdl < SIZE_MAX"
    using assms(1) by (simp_all add: inspect_inv_def)
  obtain hc' where h: "refresh_http f hc = Some hc'" "http_fresh mdl hc'" "HttpParse (kf_payload f ! 0) False = Some (hc_reqs hc')"
    "HttpParse (kf_payload f ! 1) True = Some (hc_resps hc')"
    using refresh_http_current [OF i(1) Some i(2)] by blast
  obtain tc' where t: "refresh_tls hmac gcm keys f tc = Some tc'" "tls_fresh hmac gcm keys mdl tc'"
    "decrypt_view hmac gcm keys (kf_payload f ! 0) (kf_payload f ! 1) = Some (dc_res tc', dc_req tc', dc_resp tc')"
    using refresh_tls_current [OF i(1) Some i(3) assms(2)] by blast
  show ?thesis
  proof (cases "tab \<and> loaded")
    case True
    then show ?thesis using Some h t i by (simp add: DrawInspector_def inspect_inv_def)
  next
    case False
    then show ?thesis using Some h i by (auto simp: DrawInspector_def inspect_inv_def)
  qed
qed

lemma inspect_inv_step:
  assumes "inspect_step hmac gcm s s'" "inspect_inv hmac gcm s" "hmac_sized hmac"
  shows "inspect_inv hmac gcm s'"
  using assms(1)
proof cases
  case (arrive utf8 r now mdl m' keys cs)
  then show ?thesis
    using ingest_grows [OF arrive(3)] assms(2) fresh_grows [of mdl m'] by (auto simp: inspect_inv_def)
next
  case (resize mdl keys cs mb)
  have "view_wf (mdl\<lparr>payloadCap := k\<rparr>) = view_wf mdl" "grows mdl (mdl\<lparr>payloadCap := k\<rparr>)" for k
    by (auto simp: view_wf_def index_wf_def grows_def find_flow_def)
  then show ?thesis
    using resize assms(2) cap_bytes_lt fresh_grows [of mdl "mdl\<lparr>payloadCap := cap_bytes mb\<rparr>"]
    by (auto simp: inspect_inv_def)
next
  case (load keys' tc mdl keys hc)
  then show ?thesis using assms(2) by (auto simp: inspect_inv_def tls_fresh_def)
next
  case (draw loaded keys tab sel mdl cs cs')
  obtain hc tc where "cs = (hc, tc)" by (cases cs)
  then show ?thesis
    using draw assms(2) DrawInspector_current [OF _ assms(3), of gcm mdl keys hc tc loaded tab sel] by auto
qed


interpretation inspection: transition_system "inspect_step hmac gcm" "\<lambda>s. hmac_sized hmac \<longrightarrow> inspect_inv hmac gcm s" for hmac gcm
  by unfold_locales (blast intro: inspect_inv_step)

lemma inspect_inv_new: "inspect_inv hmac gcm (new_model, keys, new_http_cache, new_tls_cache)"
  by (simp add: inspect_inv_def view_wf_def index_wf_def new_model_def http_fresh_def tls_fresh_def
      new_http_cache_def new_tls_cache_def SIZE_MAX_def)

text \<open>After the capture is discarded, a connection that comes back under its id with as many bytes is shown with
  the messages of before; and so is one decrypted with another key log of the same size.\<close>

lemma refresh_http_stale:
  assumes "refresh_http f c = Some c'" "kf_flowId f2 = kf_flowId f"
    "map length (kf_payload f2) = map length (kf_payload f)" "length (kf_payload f) = 2"
  shows "refresh_http f2 c' = Some c'"
proof -
  have "length (kf_payload f2) = 2" using arg_cong [OF assms(3), of length] assms(4) by simp
  then have "length (kf_payload f2 ! d) = length (kf_payload f ! d)" if "d < 2" for d
    using that assms(3,4) by (metis nth_map)
  then have e: "length (kf_payload f2 ! 0) = length (kf_payload f ! 0)" "length (kf_payload f2 ! 1) = length (kf_payload f ! 1)" by simp_all
  have "hc_flow c' = kf_flowId f \<and> hc_out c' = length (kf_payload f ! 0) \<and> hc_in c' = length (kf_payload f ! 1)"
    using assms(1) by (auto simp: refresh_http_def bind_eq_Some_conv split: if_splits)
  then show ?thesis using assms(2) e by (simp add: refresh_http_def)
qed

lemma refresh_tls_stale:
  assumes "refresh_tls hmac gcm keys f c = Some c'" "key_count keys2 = key_count keys"
  shows "refresh_tls hmac gcm keys2 f c' = Some c'"
proof -
  have "dc_flow c' = kf_flowId f \<and> dc_out c' = length (kf_payload f ! 0) \<and> dc_in c' = length (kf_payload f ! 1) \<and> dc_keys c' = key_count keys"
    using assms(1) by (auto simp: refresh_tls_def split: if_splits)
  then show ?thesis using assms(2) by (simp add: refresh_tls_def)
qed

section \<open>Filters, totals and the hex dump\<close>

lemma has_text_iff: "has_text pat s \<longleftrightarrow> (\<exists>a b. s = a @ pat @ b)"
proof
  assume "has_text pat s"
  then obtain i where "take (length pat) (drop i s) = pat"
    unfolding has_text_def find_text_def find_None_iff by auto
  then have "s = take i s @ pat @ drop (i + length pat) s"
    by (metis append_take_drop_id drop_drop add.commute)
  then show "\<exists>a b. s = a @ pat @ b" by blast
next
  assume "\<exists>a b. s = a @ pat @ b"
  then obtain a b where "s = a @ pat @ b" by blast
  then have "take (length pat) (drop (length a) s) = pat" "length a < Suc (length s) - length pat" by auto
  then show "has_text pat s" unfolding has_text_def find_text_def find_None_iff by force
qed

lemma top_talkers_busiest:
  assumes "f \<in> set (top_talkers mdl)" "g \<in> set (flows mdl)" "g \<notin> set (top_talkers mdl)"
  shows "flow_total g \<le> flow_total f"
proof -
  let ?k = "\<lambda>f. - int (unat (flow_total f))"
  define s where "s = sort_key ?k (flows mdl)"
  define n where "n = (if length (flows mdl) < 8 then length (flows mdl) else 8)"
  have t: "top_talkers mdl = take n s" by (simp add: top_talkers_def s_def n_def Let_def)
  have "set s = set (take n s) \<union> set (drop n s)" by (metis append_take_drop_id set_append)
  then have g: "g \<in> set (drop n s)" using assms(2,3) by (simp add: t s_def)
  have "sorted (map ?k s)" unfolding s_def by (rule sorted_sort_key)
  then have "sorted_wrt (\<lambda>x y. ?k x \<le> ?k y) (take n s @ drop n s)" by (simp add: sorted_wrt_map)
  then have "?k f \<le> ?k g" using assms(1) g by (auto simp: t sorted_wrt_append simp del: append_take_drop_id)
  then show ?thesis by (simp add: word_le_def)
qed

lemma digit_val_upper: "d < 16 \<Longrightarrow> digit_val (hex_upper d) = d \<and> hex_upper d \<noteq> CHR '' ''"
proof -
  assume d: "d < 16"
  then have "(of_char (hex_upper d) :: nat) = (if d < 10 then 48 + d else 55 + d)"
    by (simp add: hex_upper_def of_char_of take_bit_eq_mod)
  then show ?thesis using d by (auto simp: digit_val_def Let_def split: if_splits)
qed

lemma hex_cell_byte:
  assumes "idx < length buf"
  shows "length (hex_cell buf idx) = 3" "hex_cell buf idx ! 0 \<noteq> CHR '' ''"
    "digits_val 16 (take 2 (hex_cell buf idx)) = unat (buf ! idx)"
proof -
  let ?n = "unat (buf ! idx)"
  have n: "?n < 256" by simp
  have "pad0 2 (upper_text ?n) = [hex_upper (?n div 16), hex_upper (?n mod 16)]"
  proof (cases "?n < 16")
    case True
    have "hex_upper 0 = CHR ''0''" by code_simp
    then show ?thesis using True by (simp add: pad0_def upper_text.simps)
  next
    case False
    have "?n div 16 < 16" using n by (intro less_mult_imp_div_less) simp
    then show ?thesis using False by (subst upper_text.simps) (simp add: pad0_def upper_text.simps [of "?n div 16"])
  qed
  then have c: "hex_cell buf idx = [hex_upper (?n div 16), hex_upper (?n mod 16), CHR '' '']"
    using assms by (simp add: hex_cell_def snprintf_def)
  have "?n div 16 < 16" "?n mod 16 < 16" using n by (auto intro: less_mult_imp_div_less)
  then show "length (hex_cell buf idx) = 3" "hex_cell buf idx ! 0 \<noteq> CHR '' ''"
    "digits_val 16 (take 2 (hex_cell buf idx)) = unat (buf ! idx)"
    unfolding c using digit_val_upper by (simp_all add: digits_val_def)
qed

text \<open>Reading the hexadecimal column of a row back.\<close>

definition row_bytes :: "string \<Rightarrow> bytes" where
  "row_bytes hex = map (\<lambda>cell. word_of_nat (digits_val 16 (take 2 cell)))
     (filter (\<lambda>cell. cell ! 0 \<noteq> CHR '' '') (map (\<lambda>c. take 3 (drop (3 * c) hex)) [0..<16]))"

lemma concat_cells:
  assumes "\<forall>x \<in> set xs. length (f x) = n" "c < length xs"
  shows "take n (drop (n * c) (concat (map f xs))) = f (xs ! c)"
  using assms
proof (induction xs arbitrary: c)
  case (Cons x xs)
  then show ?case by (cases c) auto
qed simp

lemma row_bytes_dump:
  "row_bytes (fst (snd (dump_row buf r))) = map ((!) buf) (filter (\<lambda>i. i < length buf) [16 * r..<16 * r + 16])"
proof -
  have l: "length (hex_cell buf i) = 3" for i using hex_cell_byte(1) [of i buf] by (cases "i < length buf") (auto simp: hex_cell_def)
  have "map (\<lambda>c. take 3 (drop (3 * c) (concat (map (\<lambda>c. hex_cell buf (r * 16 + c)) [0..<16])))) [0..<16]
      = map (\<lambda>c. hex_cell buf (16 * r + c)) [0..<16]"
    using concat_cells [of "[0..<16]" "\<lambda>c. hex_cell buf (r * 16 + c)" 3] l by (intro map_cong) (auto simp: mult.commute)
  also have "\<dots> = map (hex_cell buf) [16 * r..<16 * r + 16]"
    by (intro nth_equalityI) simp_all
  finally have m: "map (\<lambda>c. take 3 (drop (3 * c) (fst (snd (dump_row buf r))))) [0..<16] = map (hex_cell buf) [16 * r..<16 * r + 16]"
    by (simp add: dump_row_def Let_def)
  have b: "(hex_cell buf i ! 0 \<noteq> CHR '' '') = (i < length buf)" for i
    using hex_cell_byte(2) [of i buf] by (auto simp: hex_cell_def)
  show ?thesis
    unfolding row_bytes_def m using hex_cell_byte(3) [of _ buf]
    by (auto simp: filter_map comp_def b intro!: map_cong)
qed

lemma concat_rows: "concat (map (\<lambda>r. [16 * r..<16 * r + 16]) [0..<n]) = [0..<16 * n :: nat]"
proof (induction n)
  case (Suc n)
  have "[0..<16 * n + 16] = [0..<16 * n] @ [16 * n..<16 * n + 16]" by (rule upt_add_eq_append) simp
  with Suc show ?case by (simp add: add.commute)
qed simp

lemma DrawHexDump_bytes: "concat (map (\<lambda>(_, hex, _). row_bytes hex) (DrawHexDump buf)) = buf"
proof -
  define n where "n = (length buf + 16 - 1) div 16"
  have n: "length buf \<le> 16 * n" by (simp add: n_def)
  have "concat (map (\<lambda>(_, hex, _). row_bytes hex) (DrawHexDump buf))
      = concat (map (\<lambda>r. row_bytes (fst (snd (dump_row buf r)))) [0..<n])"
    by (simp add: DrawHexDump_def comp_def case_prod_unfold n_def)
  also have "\<dots> = map ((!) buf) (filter (\<lambda>i. i < length buf) (concat (map (\<lambda>r. [16 * r..<16 * r + 16]) [0..<n])))"
    by (simp add: row_bytes_dump map_concat filter_concat comp_def)
  also have "\<dots> = map ((!) buf) (filter (\<lambda>i. i < length buf) ([0..<length buf] @ [length buf..<16 * n]))"
    using n upt_add_eq_append [of 0 "length buf" "16 * n - length buf"] by (simp add: concat_rows)
  also have "filter (\<lambda>i. i < length buf) ([0..<length buf] @ [length buf..<16 * n]) = [0..<length buf]"
    by (simp add: filter_id_conv)
  finally show ?thesis by (simp add: map_nth)
qed




text \<open>
  The hex dump loses nothing. For any captured bytes, the hexadecimal column of the rows, read back row by
  row, is the bytes; there is one row for every started group of sixteen, and each row
  has a column of 48 characters and 16 characters of text.
\<close>

theorem DrawHexDump_round_trip:
  "concat (map (\<lambda>(_, hex, _). row_bytes hex) (DrawHexDump buf)) = buf
   \<and> length (DrawHexDump buf) = (length buf + 15) div 16
   \<and> list_all (\<lambda>(_, hex, asc). length hex = 48 \<and> length asc = 16) (DrawHexDump buf)"
proof -
  have l: "length (hex_cell buf i) = 3" for i using hex_cell_byte(1) [of i buf] by (cases "i < length buf") (auto simp: hex_cell_def)
  then have "length (concat (map (\<lambda>c. hex_cell buf (r * 16 + c)) [0..<16])) = 48" for r
    by (simp add: length_concat comp_def sum_list_triv)
  then show ?thesis
    by (simp add: DrawHexDump_bytes) (simp add: DrawHexDump_def list_all_iff dump_row_def Let_def)
qed

end
