(* ===== verification/Knd_Stats.thy ===== *)
theory Knd_Stats
  imports Knd_Model Knd_Contents
begin

text \<open>
  The statistics panel (\<^verbatim>\<open>DrawStats\<close> of \<^verbatim>\<open>src/app/src/ui.cpp\<close>): the throughput history, sampled four times a second into two
  circular arrays of 120 entries, and the gauge of the kernel ring. Time and rates are floating
  point and enter as arguments: whether a sample is due, and the rate of a count between two
  times. The plots read the arrays from the head on.
\<close>

record ('f, 't) throughput =
  th_thru :: "'f list"
  th_thruB :: "'f list"
  th_thruHead :: nat
  th_lastThruTs :: 't
  th_lastRecCount :: u64
  th_lastByteCount :: u64

definition new_throughput :: "'f \<Rightarrow> 't \<Rightarrow> ('f, 't) throughput" where
  "new_throughput z t0 = \<lparr>th_thru = replicate 120 z, th_thruB = replicate 120 z, th_thruHead = 0, th_lastThruTs = t0,
     th_lastRecCount = 0, th_lastByteCount = 0\<rparr>"

text \<open>\<open>due last now\<close> is the test on the elapsed time, \<open>rate n last now\<close> the count over the elapsed time, which is
  a quarter of a second for the first sample.\<close>

definition DrawStats ::
  "('t \<Rightarrow> 't \<Rightarrow> bool) \<Rightarrow> (u64 \<Rightarrow> 't \<Rightarrow> 't \<Rightarrow> 'f) \<Rightarrow> 't \<Rightarrow> knd_model_stats \<Rightarrow> ('f, 't) throughput \<Rightarrow> ('f, 't) throughput" where
  "DrawStats due rate now ms th =
     (if due (th_lastThruTs th) now
      then (let cur = ms_totalRecords ms; curB = ms_outBytes ms + ms_inBytes ms
        in \<lparr>th_thru = (th_thru th)[th_thruHead th := rate (cur - th_lastRecCount th) (th_lastThruTs th) now],
            th_thruB = (th_thruB th)[th_thruHead th := rate (curB - th_lastByteCount th) (th_lastThruTs th) now],
            th_thruHead = (th_thruHead th + 1) mod 120, th_lastThruTs = now, th_lastRecCount = cur, th_lastByteCount = curB\<rparr>)
      else th)"

text \<open>The arrays as the plots show them, oldest first, and the entry whose value is printed.\<close>

definition plotted :: "nat \<Rightarrow> 'a list \<Rightarrow> 'a list" where
  "plotted head0 xs = map (\<lambda>i. xs ! ((i + head0) mod length xs)) [0..<length xs]"

definition latest_sample :: "nat \<Rightarrow> 'a list \<Rightarrow> 'a" where
  "latest_sample head0 xs = xs ! ((head0 + length xs - 1) mod length xs)"

text \<open>The gauge: the bytes in use and the size, and the drops when there are some.\<close>

definition ring_gauge :: "mem \<Rightarrow> u64 \<times> u32 \<times> (u64 \<times> u64) option" where
  "ring_gauge m = (ld64 m hdr_writePos - ld64 m hdr_readPos, ld32 m hdr_dataSize,
     if 0 < ld64 m hdr_droppedRecords then Some (ld64 m hdr_droppedRecords, ld64 m hdr_droppedBytes) else None)"

section \<open>The history\<close>

definition th_wf :: "('f, 't) throughput \<Rightarrow> bool" where
  "th_wf th \<longleftrightarrow> length (th_thru th) = 120 \<and> length (th_thruB th) = 120 \<and> th_thruHead th < 120"

lemma th_wf_new [simp]: "th_wf (new_throughput z t0)"
  by (simp add: th_wf_def new_throughput_def)

lemma th_wf_DrawStats: "th_wf th \<Longrightarrow> th_wf (DrawStats due rate now ms th)"
  by (simp add: th_wf_def DrawStats_def Let_def)

lemma plotted_rotate:
  assumes "h < length xs"
  shows "plotted h xs = drop h xs @ take h xs"
proof -
  have "plotted h xs = rotate h xs"
    by (rule nth_equalityI) (simp_all add: plotted_def nth_rotate add.commute)
  then show ?thesis using assms by (simp add: rotate_drop_take)
qed

lemma plotted_push:
  assumes "h < length xs"
  shows "plotted ((h + 1) mod length xs) (xs[h := x]) = tl (plotted h xs) @ [x]"
proof -
  have old: "tl (plotted h xs) = drop (Suc h) xs @ take h xs"
    using assms by (simp add: plotted_rotate tl_drop drop_Suc [symmetric] Cons_nth_drop_Suc [symmetric])
  show ?thesis
  proof (cases "Suc h = length xs")
    case True
    have "0 < length (xs[h := x])" using assms by (metis gr_implies_not0 length_list_update neq0_conv)
    from plotted_rotate [OF this] have "plotted ((h + 1) mod length xs) (xs[h := x]) = xs[h := x]" using True by simp
    moreover have "xs[h := x] = take h xs @ [x]" using True assms by (simp add: upd_conv_take_nth_drop)
    ultimately show ?thesis using old True by simp
  next
    case False
    then have s: "Suc h < length (xs[h := x])" using assms by simp
    have "plotted (Suc h) (xs[h := x]) = drop (Suc h) xs @ take h xs @ [x]"
      unfolding plotted_rotate [OF s] using assms by (simp add: upd_conv_take_nth_drop)
    then show ?thesis using old s by simp
  qed
qed

lemma latest_push:
  assumes "h < length xs"
  shows "latest_sample ((h + 1) mod length xs) (xs[h := x]) = x"
proof -
  have "((h + 1) mod length xs + length xs - 1) mod length xs = h"
  proof (cases "Suc h = length xs")
    case False
    then have "((h + 1) mod length xs + length xs - 1) = h + length xs" using assms by simp
    then show ?thesis using assms by simp
  qed (use assms in auto)
  then show ?thesis using assms by (simp add: latest_sample_def)
qed

text \<open>The samples that a sequence of drawings takes, each with its two counts.\<close>

fun samples :: "('t \<Rightarrow> 't \<Rightarrow> bool) \<Rightarrow> (u64 \<Rightarrow> 't \<Rightarrow> 't \<Rightarrow> 'f) \<Rightarrow> ('t \<times> knd_model_stats) list \<Rightarrow> 't \<times> u64 \<times> u64 \<Rightarrow> ('f \<times> 'f) list" where
  "samples due rate [] p = []"
| "samples due rate ((now, ms) # ds) (prev, cnt, cntB) =
     (if due prev now
      then (rate (ms_totalRecords ms - cnt) prev now, rate (ms_outBytes ms + ms_inBytes ms - cntB) prev now)
        # samples due rate ds (now, ms_totalRecords ms, ms_outBytes ms + ms_inBytes ms)
      else samples due rate ds (prev, cnt, cntB))"

definition draw_all ::
  "('t \<Rightarrow> 't \<Rightarrow> bool) \<Rightarrow> (u64 \<Rightarrow> 't \<Rightarrow> 't \<Rightarrow> 'f) \<Rightarrow> ('t \<times> knd_model_stats) list \<Rightarrow> ('f, 't) throughput \<Rightarrow> ('f, 't) throughput" where
  "draw_all due rate ds th = fold (\<lambda>(now, ms). DrawStats due rate now ms) ds th"

abbreviation last_sample :: "('f, 't) throughput \<Rightarrow> 't \<times> u64 \<times> u64" where
  "last_sample th \<equiv> (th_lastThruTs th, th_lastRecCount th, th_lastByteCount th)"

definition newest :: "nat \<Rightarrow> 'a list \<Rightarrow> 'a list" where
  "newest n xs = drop (length xs - n) xs"

lemma newest_push: "newest n (newest n xs @ [x]) = newest n (xs @ [x])"
  by (cases "n \<le> length xs") (auto simp: newest_def Suc_diff_le)

lemma newest_push_list: "newest n (newest n xs @ ys) = newest n (xs @ ys)"
proof (induction ys rule: rev_induct)
  case (snoc y ys)
  have "newest n (newest n xs @ ys @ [y]) = newest n (newest n (newest n xs @ ys) @ [y])"
    using newest_push [of n "newest n xs @ ys" y] by simp
  also have "\<dots> = newest n (newest n (xs @ ys) @ [y])" using snoc by simp
  finally show ?case using newest_push [of n "xs @ ys" y] by simp
qed (simp add: newest_def)

lemma plotted_newest:
  assumes "length xs = n" "h < n"
  shows "plotted ((h + 1) mod n) (xs[h := x]) = newest n (plotted h xs @ [x])"
proof -
  have "length (plotted h xs) = n" using assms by (simp add: plotted_def)
  then have "newest n (plotted h xs @ [x]) = tl (plotted h xs) @ [x]"
    using assms(2) by (simp add: newest_def drop_Suc [of 0])
  then show ?thesis using plotted_push [of h xs x] assms by simp
qed

lemma newest_full: "length xs = n \<Longrightarrow> newest n xs = xs"
  by (simp add: newest_def)

lemma draw_all_history:
  assumes "th_wf th"
  shows "plotted (th_thruHead (draw_all due rate ds th)) (th_thru (draw_all due rate ds th))
      = newest 120 (plotted (th_thruHead th) (th_thru th) @ map fst (samples due rate ds (last_sample th)))
    \<and> plotted (th_thruHead (draw_all due rate ds th)) (th_thruB (draw_all due rate ds th))
      = newest 120 (plotted (th_thruHead th) (th_thruB th) @ map snd (samples due rate ds (last_sample th)))"
  using assms
proof (induction ds arbitrary: th)
  case Nil
  then show ?case by (simp add: draw_all_def newest_full plotted_def th_wf_def)
next
  case (Cons d ds)
  obtain now ms where d: "d = (now, ms)" by (cases d)
  let ?th = "DrawStats due rate now ms th"
  have ih: "plotted (th_thruHead (draw_all due rate ds ?th)) (th_thru (draw_all due rate ds ?th))
      = newest 120 (plotted (th_thruHead ?th) (th_thru ?th) @ map fst (samples due rate ds (last_sample ?th)))"
    "plotted (th_thruHead (draw_all due rate ds ?th)) (th_thruB (draw_all due rate ds ?th))
      = newest 120 (plotted (th_thruHead ?th) (th_thruB ?th) @ map snd (samples due rate ds (last_sample ?th)))"
    using Cons.IH [OF th_wf_DrawStats [OF Cons.prems]] by auto
  have step: "draw_all due rate (d # ds) th = draw_all due rate ds ?th" by (simp add: draw_all_def d)
  show ?case
  proof (cases "due (th_lastThruTs th) now")
    case False
    then have "?th = th" by (simp add: DrawStats_def)
    then show ?thesis using ih False by (simp only: step) (simp add: d)
  next
    case True
    have "plotted (th_thruHead ?th) (th_thru ?th) = newest 120 (plotted (th_thruHead th) (th_thru th)
        @ [rate (ms_totalRecords ms - th_lastRecCount th) (th_lastThruTs th) now])"
      "plotted (th_thruHead ?th) (th_thruB ?th) = newest 120 (plotted (th_thruHead th) (th_thruB th)
        @ [rate (ms_outBytes ms + ms_inBytes ms - th_lastByteCount th) (th_lastThruTs th) now])"
      using True Cons.prems plotted_newest [of "th_thru th" 120 "th_thruHead th"] plotted_newest [of "th_thruB th" 120 "th_thruHead th"]
      by (simp_all add: DrawStats_def Let_def th_wf_def)
    moreover have "samples due rate (d # ds) (last_sample th) =
        (rate (ms_totalRecords ms - th_lastRecCount th) (th_lastThruTs th) now,
         rate (ms_outBytes ms + ms_inBytes ms - th_lastByteCount th) (th_lastThruTs th) now) # samples due rate ds (last_sample ?th)"
      using True by (simp add: d DrawStats_def Let_def)
    ultimately show ?thesis using ih by (simp add: step newest_push_list)
  qed
qed

text \<open>Discarding the capture resets the totals but not the counts of the last sample, so the next sample is the rate of
  a count that wrapped below zero.\<close>

lemma sample_after_clear:
  assumes "due (th_lastThruTs th) now" "th_wf th"
    and "th' = DrawStats due rate now (stats (clear mdl)) th"
  shows "latest_sample (th_thruHead th') (th_thru th') = rate (- th_lastRecCount th) (th_lastThruTs th) now"
  using assms latest_push [of "th_thruHead th" "th_thru th" "rate (- th_lastRecCount th) (th_lastThruTs th) now"]
  by (simp add: DrawStats_def Let_def clear_def zero_stats_def th_wf_def)

section \<open>The gauge\<close>

lemma ring_gauge_bounded:
  assumes "ring_ok c rs"
  shows "unat (fst (ring_gauge (rmem c))) \<le> dsize c" "unat (fst (ring_gauge (rmem c))) = wpos c - rpos c"
proof -
  have "rpos c \<le> wpos c" "ld64 (rmem c) hdr_writePos = WritePos c" "wpos c \<le> rpos c + dsize c"
    using ring_okD [OF assms] by simp_all
  then show "unat (fst (ring_gauge (rmem c))) = wpos c - rpos c"
    by (simp add: ring_gauge_def unat_sub word_le_nat_alt)
  with \<open>wpos c \<le> rpos c + dsize c\<close> show "unat (fst (ring_gauge (rmem c))) \<le> dsize c" by simp
qed

section \<open>Property\<close>

text \<open>
  The plots show the last 120 samples. After any sequence of drawings of the panel, each curve, read as the
  plot reads the circular array, is the last 120 entries of the zeros it started with followed by the samples
  that were due, in order, each the rate of what was counted since the sample before.
\<close>

theorem plots_show_samples:
  "plotted (th_thruHead (draw_all due rate ds (new_throughput z t0))) (th_thru (draw_all due rate ds (new_throughput z t0)))
     = newest 120 (replicate 120 z @ map fst (samples due rate ds (t0, 0, 0)))
   \<and> plotted (th_thruHead (draw_all due rate ds (new_throughput z t0))) (th_thruB (draw_all due rate ds (new_throughput z t0)))
     = newest 120 (replicate 120 z @ map snd (samples due rate ds (t0, 0, 0)))"
proof -
  have "plotted 0 (replicate 120 z) = replicate 120 z" by (simp add: plotted_rotate)
  then show ?thesis
    using draw_all_history [of "new_throughput z t0" due rate ds] by (simp add: new_throughput_def th_wf_def)
qed

end
