(* ===== verification/Knd_Driver.thy ===== *)
theory Knd_Driver
  imports Knd_Wfp
begin

text \<open>
  Loading and unloading (\<^verbatim>\<open>src/driver/driver.c\<close>), and the driver as a whole between the two: a step
  relation over everything that can happen to it, with the invariant that holds in every
  reachable state. The names of the device and the access list are constants of the call that
  creates the device and are not modelled.
\<close>

section \<open>Load and unload\<close>

definition release_ctx :: "u64 \<Rightarrow> knd_ctx \<Rightarrow> knd_sys \<Rightarrow> knd_sys" where
  "release_ctx p c g = g\<lparr>ctx_pool := ctx_pool g - {p}, orphans := orphans g \<union> kpool c \<union> kmdls c\<rparr>"

definition KndUnload :: "u64 \<Rightarrow> (u32 \<Rightarrow> nat \<Rightarrow> ntstatus) \<Rightarrow> knd_sys \<Rightarrow> knd_sys" where
  "KndUnload p unreg g =
     (case g_Knd g of
        None \<Rightarrow> g
      | Some c \<Rightarrow>
          let (c, g) = KndWfpStop unreg (c, g);
              g = g\<lparr>symlinked := False\<rparr>;
              g = (if DeviceObject c \<noteq> 0
                   then g\<lparr>sys_devices := sys_devices g - {DeviceObject c}\<rparr> else g);
              c = KndRingDestroy c
          in release_ctx p c (g\<lparr>g_Knd := None\<rparr>))"

record load_answers =
  la_ctx :: u64
  la_pool :: u64
  la_mdl :: u64
  la_device :: "ntstatus \<times> u64"
  la_symlink :: ntstatus
  la_wfp :: wfp_answers

text \<open>The shared exit of a failed load.\<close>

definition entry_fail :: "u64 \<Rightarrow> bool \<Rightarrow> u64 \<Rightarrow> knd_ctx \<Rightarrow> knd_sys \<Rightarrow> knd_sys" where
  "entry_fail p symlinkCreated deviceObject c g =
     (let g = (if symlinkCreated then g\<lparr>symlinked := False\<rparr> else g);
          g = (if deviceObject \<noteq> 0 then g\<lparr>sys_devices := sys_devices g - {deviceObject}\<rparr> else g)
      in release_ctx p (KndRingDestroy c) g)"

definition DriverEntry :: "load_answers \<Rightarrow> knd_sys \<Rightarrow> ntstatus \<times> knd_sys" where
  "DriverEntry a g =
     (let p = la_ctx a
      in if p = 0 then (STATUS_INSUFFICIENT_RESOURCES, g)
      else
        let g = g\<lparr>ctx_pool := insert p (ctx_pool g)\<rparr>;
            c = blank_ctx\<lparr>NextFlowId := 0, NextSequence := 0, CaptureActive := 0\<rparr>;
            (status, c) = KndRingCreate c KND_DEFAULT_RING_DATA_SIZE (la_pool a) (la_mdl a)
        in if \<not> NT_SUCCESS status then (status, entry_fail p False 0 c g)
        else
          let (status, dev) = la_device a
          in if \<not> NT_SUCCESS status then (status, entry_fail p False 0 c g)
          else
            let c = c\<lparr>DeviceObject := dev\<rparr>;
                g = g\<lparr>sys_devices := insert dev (sys_devices g)\<rparr>;
                status = la_symlink a
            in if \<not> NT_SUCCESS status then (status, entry_fail p False dev c g)
            else
              let g = g\<lparr>symlinked := True, g_Knd := Some c\<rparr>;
                  (status, c, g) = KndWfpStart (la_wfp a) (c, g)
              in if \<not> NT_SUCCESS status then (status, entry_fail p True dev c (g\<lparr>g_Knd := None\<rparr>))
                 else (STATUS_SUCCESS, g\<lparr>g_Knd := Some c\<rparr>))"

section \<open>Everything that can happen to a loaded driver\<close>

inductive drv_step :: "knd_sys \<Rightarrow> knd_sys \<Rightarrow> bool" where
  step_ioctl: "KndDispatchDeviceControl env (g_Knd g) q = (s, info, k, buf) \<Longrightarrow> drv_step g (g\<lparr>g_Knd := k\<rparr>)"
| step_file: "KndDispatchCreateClose env (g_Knd g) mj = (s, info, k) \<Longrightarrow> drv_step g (g\<lparr>g_Knd := k\<rparr>)"
| step_flow: "v6_ok fv \<Longrightarrow> KndClassifyFlow fv meta ts out g = (out', g') \<Longrightarrow> drv_step g g'"
| step_stream: "KndClassifyStream copyStream pool clock metaHandle fc pkt out g = (pkt', out', g') \<Longrightarrow> drv_step g g'"
| step_delete: "drv_step g (KndFlowDelete fc ts g)"
| step_user: "g_Knd g = Some c \<Longrightarrow> UserVa c \<noteq> 0 \<Longrightarrow> a + length bs \<le> unat (RingTotalSize c) \<Longrightarrow>
    drv_step g (g\<lparr>g_Knd := Some (c\<lparr>rmem := mem_write (rmem c) a bs\<rparr>)\<rparr>)"

inductive_cases drv_stepE: "drv_step g g'"

text \<open>
  The invariant: a well-formed ring, one recorded mapping, the ring's two allocations, and exactly
  the platform objects that the context records on top of those of the system \<open>g0\<close> before
  loading, with the context itself at \<open>p\<close>.
\<close>

definition ctx_inv :: "knd_sys \<Rightarrow> u64 \<Rightarrow> knd_ctx \<Rightarrow> knd_sys \<Rightarrow> bool" where
  "ctx_inv g0 p c g \<longleftrightarrow> ring_wf c \<and> map_inv c \<and> kpool c = {RingBase c} \<and> kmdls c = {RingMdl c}
     \<and> RingMdl c \<noteq> 0 \<and> wfp_owns (engines g0) (callouts g0) (redirects g0) (c, g)
     \<and> DeviceObject c \<noteq> 0 \<and> DeviceObject c \<notin> sys_devices g0
     \<and> sys_devices g = insert (DeviceObject c) (sys_devices g0) \<and> symlinked g
     \<and> p \<notin> ctx_pool g0 \<and> ctx_pool g = insert p (ctx_pool g0) \<and> orphans g = orphans g0"

definition drv_inv :: "knd_sys \<Rightarrow> u64 \<Rightarrow> knd_sys \<Rightarrow> bool" where
  "drv_inv g0 p g \<longleftrightarrow> (\<exists>c. g_Knd g = Some c \<and> ctx_inv g0 p c g)"

section \<open>What a step leaves alone\<close>

definition same_wfp :: "knd_ctx \<Rightarrow> knd_ctx \<Rightarrow> bool" where
  "same_wfp c c' \<longleftrightarrow> EngineHandle c' = EngineHandle c \<and> NumCallouts c' = NumCallouts c
     \<and> CalloutIds c' = CalloutIds c \<and> RedirectHandle c' = RedirectHandle c
     \<and> RedirectHandleCreated c' = RedirectHandleCreated c \<and> DeviceObject c' = DeviceObject c"

definition same_objects :: "knd_sys \<Rightarrow> knd_sys \<Rightarrow> bool" where
  "same_objects g g' \<longleftrightarrow> engines g' = engines g \<and> callouts g' = callouts g \<and> redirects g' = redirects g
     \<and> sys_devices g' = sys_devices g \<and> symlinked g' = symlinked g \<and> ctx_pool g' = ctx_pool g
     \<and> orphans g' = orphans g"

lemma same_wfp_refl [simp]: "same_wfp c c"
  by (simp add: same_wfp_def)

lemma same_objects_refl [simp]: "same_objects g g"
  by (simp add: same_objects_def)

lemma same_objects_ctx [simp]: "same_objects g (g\<lparr>g_Knd := k\<rparr>)"
  by (simp add: same_objects_def)

text \<open>A step of the producer: the ring's invariant, and only the producer's own fields.\<close>

definition ring_step :: "knd_ctx \<Rightarrow> knd_ctx \<Rightarrow> bool" where
  "ring_step c c' \<longleftrightarrow> (ring_wf c \<longrightarrow> ring_wf c') \<and> same_mapping c c' \<and> same_wfp c c'
     \<and> RingBase c' = RingBase c \<and> RingMdl c' = RingMdl c \<and> kpool c' = kpool c \<and> kmdls c' = kmdls c"

lemma ring_step_refl [simp]: "ring_step c c"
  by (simp add: ring_step_def)

lemma ring_step_trans: "ring_step a b \<Longrightarrow> ring_step b c \<Longrightarrow> ring_step a c"
  by (simp add: ring_step_def same_mapping_def same_wfp_def)

lemma ring_step_rmem [simp]: "ring_step c (c\<lparr>rmem := m\<rparr>)"
  by (simp add: ring_step_def same_mapping_def same_wfp_def)

lemma ring_step_flowId [simp]: "ring_step c (c\<lparr>NextFlowId := n\<rparr>)"
  by (auto simp: ring_step_def same_mapping_def same_wfp_def ring_wf_def)

lemma ring_step_write:
  assumes "ring_wf c" "write_args payload pl data dl"
    and "KndRingWrite c ty fl payload pl data dl ts = (ok, c')"
  shows "ring_step c c'"
proof -
  note safe = KndRingWrite_safe [OF assms]
  show ?thesis
    unfolding ring_step_def same_mapping_def same_wfp_def
    by (intro conjI impI safe(1)) (subst safe(3), simp)+
qed

lemma ring_step_write_conn:
  "ring_wf c \<Longrightarrow> wf_conn p \<Longrightarrow> write_conn c ty p ts = (ok, c') \<Longrightarrow> ring_step c c'"
  unfolding write_conn_def by (rule ring_step_write [OF _ write_conn_args])

lemma ring_step_emit:
  assumes "ring_wf c"
  shows "ring_step c (emit_chunks c flowId direction fl scratch off clock)"
  using assms
proof (induction "length scratch - off" arbitrary: c off rule: less_induct)
  case less
  show ?case
  proof (cases "off < length scratch")
    case False
    then show ?thesis by (simp add: emit_chunks_done)
  next
    case True
    define ch where "ch = take KND_MAX_DATA_CHUNK (drop off scratch)"
    obtain ok c1 where w: "write_chunk c flowId direction fl ch (clock off) = (ok, c1)"
      by (cases "write_chunk c flowId direction fl ch (clock off)")
    have ch: "length ch \<le> KND_MAX_DATA_CHUNK" "0 < length ch"
      using True by (auto simp: ch_def const_defs)
    have step: "ring_step c c1"
      using ring_step_write [OF less.prems write_chunk_args [OF ch(1)]] w by (simp add: write_chunk_def)
    then have "ring_wf c1" using less.prems by (simp add: ring_step_def)
    moreover have "length scratch - (off + length ch) < length scratch - off" using True ch(2) by linarith
    ultimately have "ring_step c1 (emit_chunks c1 flowId direction fl scratch (off + length ch) clock)"
      using less.hyps by blast
    with step show ?thesis
      using w by (auto simp: emit_chunks_step [OF True] simp flip: ch_def intro: ring_step_trans)
  qed
qed

section \<open>The invariant holds in every reachable state\<close>

lemma map_ring_wfp: "KndMapRingToUser env c = (s, out, c') \<Longrightarrow> same_wfp c c'"
  unfolding KndMapRingToUser_def Let_def
  by (auto simp: same_wfp_def split: if_splits prod.splits)

lemma unmap_ring_wfp: "KndUnmapRingFromUser env c = (s, c') \<Longrightarrow> same_wfp c c'"
  by (auto simp: KndUnmapRingFromUser_def same_wfp_def split: if_splits)

lemma set_capture_wfp: "same_wfp c (set_capture v c)"
  by (simp add: set_capture_def same_wfp_def Let_def)

lemma scoped_copy_wfp:
  "KndScopedPhysCopy env c offset len buf isWrite = (s, c', buf') \<Longrightarrow> same_wfp c c'"
  by (cases rule: scoped_copy_cases [of env c offset len buf isWrite]) (auto simp: same_wfp_def)

lemma device_control_wfp:
  assumes "device_control env c q = (s, info, c', buf)"
  shows "same_wfp c c'"
  using assms unfolding device_control_def Let_def
  by (auto split: if_splits prod.splits
      dest: map_ring_wfp unmap_ring_wfp scoped_copy_wfp intro: set_capture_wfp
      simp: same_wfp_def [of c "c\<lparr>RedirectPort := _, RedirectEnable := _\<rparr>"])

lemma ctx_inv_keep:
  assumes "ctx_inv g0 p c g" "same_wfp c c'" "same_objects g g'"
    and "ring_wf c'" "map_inv c'" "RingBase c' = RingBase c" "RingMdl c' = RingMdl c"
    and "kpool c' = kpool c" "kmdls c' = kmdls c"
  shows "ctx_inv g0 p c' g'"
  using assms by (simp add: ctx_inv_def same_wfp_def same_objects_def wfp_owns_def)

lemma ctx_inv_ring_step:
  "ctx_inv g0 p c g \<Longrightarrow> ring_step c c' \<Longrightarrow> same_objects g g' \<Longrightarrow> ctx_inv g0 p c' g'"
  by (rule ctx_inv_keep) (auto simp: ring_step_def ctx_inv_def same_mapping_inv)

lemma ctx_inv_control:
  assumes "ctx_inv g0 p c g" "device_control env c q = (s, info, c', buf)"
  shows "ctx_inv g0 p c' (g\<lparr>g_Knd := k\<rparr>)"
proof -
  have inv: "ring_wf c" "map_inv c" using assms(1) by (simp_all add: ctx_inv_def)
  note same = device_control_same [OF assms(2)]
  show ?thesis
    using inv same same_ring_wf [OF same] device_control_wfp [OF assms(2)] device_control_map_inv [OF assms(2)]
    by (intro ctx_inv_keep [OF assms(1)]) (auto simp: same_ring_def)
qed

lemma ctx_inv_unmap:
  assumes "ctx_inv g0 p c g" "KndUnmapRingFromUser env c = (s, c')"
  shows "ctx_inv g0 p c' (g\<lparr>g_Knd := k\<rparr>)"
proof -
  have inv: "ring_wf c" "map_inv c" using assms(1) by (simp_all add: ctx_inv_def)
  note same = unmap_ring_same [OF assms(2)]
  show ?thesis
    using inv same same_ring_wf [OF same] unmap_ring_wfp [OF assms(2)] unmap_ring_inv [OF assms(2)]
    by (intro ctx_inv_keep [OF assms(1)]) (auto simp: same_ring_def)
qed

lemma ring_step_active: "ring_step c c1 \<Longrightarrow> ring_step c (if ok then add_activeFlows d c1 else c1)"
  unfolding add_activeFlows_def using ring_step_trans [OF _ ring_step_rmem] by (cases ok) simp_all

lemma flow_ring_step:
  assumes "ring_wf c" "g_Knd g = Some c" "v6_ok fv" "KndClassifyFlow fv meta ts out g = (out', g')"
  shows "\<exists>c'. g_Knd g' = Some c' \<and> ring_step c c' \<and> same_objects g g'"
proof (cases "CaptureActive c = 0")
  case True
  with assms show ?thesis by (auto simp: KndClassifyFlow_def Let_def)
next
  case False
  define p where "p = KndFillProcessInfo meta ((flow_payload fv)\<lparr>cp_flowId :=
            (case fm_flowHandle meta of Some fh \<Rightarrow> fh | None \<Rightarrow> NextFlowId c + 1)\<rparr>)"
  define c0 where "c0 = (case fm_flowHandle meta of Some fh \<Rightarrow> c | None \<Rightarrow> c\<lparr>NextFlowId := NextFlowId c + 1\<rparr>)"
  have c0: "ring_step c c0" by (simp add: c0_def split: option.splits)
  obtain ok c1 where w: "write_conn c0 KND_REC_CONN_OPEN p ts = (ok, c1)"
    by (cases "write_conn c0 KND_REC_CONN_OPEN p ts")
  have "wf_conn p" unfolding p_def by (simp add: wf_fill_process wf_flow_payload assms(3))
  then have "ring_step c0 c1"
    using ring_step_write_conn [OF _ _ w] c0 assms(1) by (simp add: ring_step_def)
  then have step: "ring_step c (if ok then add_activeFlows 1 c1 else c1)"
    using ring_step_trans [OF c0] ring_step_active by blast
  have "g_Knd g' = Some (if ok then add_activeFlows 1 c1 else c1)" "same_objects g g'"
    using assms(2,4) False w by (cases "fm_flowHandle meta";
      auto simp: KndClassifyFlow_def Let_def c0_def p_def KndNextFlowId_def same_objects_def)+
  with step show ?thesis by blast
qed

lemma stream_ring_step:
  assumes "ring_wf c" "g_Knd g = Some c"
    and "KndClassifyStream copyStream pool clock metaHandle fc pkt out g = (pkt', out', g')"
  shows "\<exists>c'. g_Knd g' = Some c' \<and> ring_step c c' \<and> same_objects g g'"
  using assms ring_step_emit [OF assms(1)]
  by (auto simp: KndClassifyStream_def Let_def split: option.splits if_splits)

lemma delete_ring_step:
  assumes "ring_wf c" "g_Knd g = Some c"
  shows "\<exists>c'. g_Knd (KndFlowDelete fc ts g) = Some c' \<and> ring_step c c' \<and> same_objects g (KndFlowDelete fc ts g)"
proof -
  obtain ok c1 where w: "write_conn c KND_REC_CONN_CLOSE (zero_conn\<lparr>cp_flowId := fc\<rparr>) ts = (ok, c1)"
    by (cases "write_conn c KND_REC_CONN_CLOSE (zero_conn\<lparr>cp_flowId := fc\<rparr>) ts")
  have "ring_step c c1" by (rule ring_step_write_conn [OF assms(1) _ w]) simp
  then have "ring_step c (if ok then add_activeFlows (- 1) c1 else c1)"
    by (rule ring_step_active)
  then show ?thesis
    using assms(2) w by (simp add: KndFlowDelete_def)
qed

lemma drv_inv_ring_step:
  assumes "drv_inv g0 p g"
    and "\<And>c. ring_wf c \<Longrightarrow> g_Knd g = Some c \<Longrightarrow> \<exists>c'. g_Knd g' = Some c' \<and> ring_step c c' \<and> same_objects g g'"
  shows "drv_inv g0 p g'"
proof -
  obtain c where c: "g_Knd g = Some c" "ctx_inv g0 p c g" using assms(1) by (auto simp: drv_inv_def)
  then obtain c' where "g_Knd g' = Some c'" "ring_step c c'" "same_objects g g'"
    using assms(2) [of c] by (auto simp: ctx_inv_def)
  with ctx_inv_ring_step [OF c(2)] show ?thesis by (auto simp: drv_inv_def)
qed

lemma drv_inv_step:
  assumes inv: "drv_inv g0 p g" and step: "drv_step g g'"
  shows "drv_inv g0 p g'"
proof -
  obtain c where c: "g_Knd g = Some c" "ctx_inv g0 p c g" using inv by (auto simp: drv_inv_def)
  show ?thesis
    using step
  proof cases
    case (step_ioctl env q s info k buf)
    with c obtain c' where "device_control env c q = (s, info, c', buf)" "k = Some c'"
      by (auto simp: KndDispatchDeviceControl_def split: prod.splits)
    with ctx_inv_control [OF c(2)] step_ioctl(1) show ?thesis by (auto simp: drv_inv_def)
  next
    case (step_file env mj s info k)
    with c have "k = Some c \<or> k = Some (snd (KndUnmapRingFromUser env c))"
      by (auto simp: KndDispatchCreateClose_def split: if_splits)
    moreover have "ctx_inv g0 p c g'"
      using ctx_inv_ring_step [OF c(2) ring_step_refl] step_file(1) by simp
    ultimately show ?thesis
      using ctx_inv_unmap [OF c(2), of env] step_file(1)
      by (cases "KndUnmapRingFromUser env c") (auto simp: drv_inv_def)
  next
    case (step_flow fv meta ts out out')
    then show ?thesis by (intro drv_inv_ring_step [OF inv] flow_ring_step)
  next
    case (step_stream copyStream pool clock metaHandle fc pkt out pkt' out')
    then show ?thesis by (intro drv_inv_ring_step [OF inv] stream_ring_step)
  next
    case (step_delete fc ts)
    then show ?thesis using drv_inv_ring_step [OF inv delete_ring_step] by blast
  next
    case (step_user c1 a bs)
    with c ctx_inv_ring_step [OF c(2) ring_step_rmem same_objects_ctx] show ?thesis
      by (auto simp: drv_inv_def)
  qed
qed

interpretation driver: transition_system drv_step "drv_inv g0 p" for g0 p
  by unfold_locales (rule drv_inv_step)


section \<open>Loading and unloading balance\<close>

definition keeps_ring :: "knd_ctx \<Rightarrow> knd_ctx \<Rightarrow> bool" where
  "keeps_ring c c' \<longleftrightarrow> knd_ring.truncate c' = knd_ring.truncate c \<and> kmaps c' = kmaps c
     \<and> MapProcess c' = MapProcess c \<and> DeviceObject c' = DeviceObject c"

definition keeps_sys :: "knd_sys \<Rightarrow> knd_sys \<Rightarrow> bool" where
  "keeps_sys g g' \<longleftrightarrow> sys_devices g' = sys_devices g \<and> symlinked g' = symlinked g
     \<and> ctx_pool g' = ctx_pool g \<and> orphans g' = orphans g"

lemma keeps_refl [simp]: "keeps_ring c c" "keeps_sys g g"
  by (simp_all add: keeps_ring_def keeps_sys_def)

lemma keeps_trans:
  "keeps_ring a b \<Longrightarrow> keeps_ring b c \<Longrightarrow> keeps_ring a c" "keeps_sys f g \<Longrightarrow> keeps_sys g h \<Longrightarrow> keeps_sys f h"
  by (simp_all add: keeps_ring_def keeps_sys_def)

lemma keeps_ringD:
  assumes "keeps_ring c c'"
  shows "RingBase c' = RingBase c" "RingMdl c' = RingMdl c" "UserVa c' = UserVa c" "kpool c' = kpool c"
    "kmdls c' = kmdls c" "kmaps c' = kmaps c" "MapProcess c' = MapProcess c" "DeviceObject c' = DeviceObject c"
    "ring_wf c' = ring_wf c"
  using assms by (simp_all add: keeps_ring_def knd_ring.truncate_def ring_wf_def)

lemma register_keeps:
  assumes "KndRegisterCallout a k (c, g) = (s, c', g')"
  shows "keeps_ring c c' \<and> keeps_sys g g'"
proof -
  have "keeps_sys g (out_callout_id k i (g\<lparr>callouts := x\<rparr>))" for i x
    by (cases k) (simp_all add: out_callout_id_def keeps_sys_def)
  moreover have "keeps_ring c (c\<lparr>CalloutIds := x, NumCallouts := y\<rparr>)" for x y
    by (simp add: keeps_ring_def knd_ring.truncate_def)
  ultimately show ?thesis
    using assms by (auto simp: KndRegisterCallout_def Let_def split: if_splits)
qed

lemma register_all_keeps:
  "register_all a ks (c, g) = (s, c', g') \<Longrightarrow> keeps_ring c c' \<and> keeps_sys g g'"
proof (induction ks arbitrary: c g)
  case Nil
  then show ?case by simp
next
  case (Cons k ks)
  obtain s1 c1 g1 where r: "KndRegisterCallout (a k) k (c, g) = (s1, c1, g1)" by (rule prod_cases3)
  with Cons register_keeps [OF r] keeps_trans show ?case
    by (auto split: if_splits)
qed

lemma stop_keeps:
  assumes "KndWfpStop unreg (c, g) = (c', g')"
  shows "keeps_ring c c' \<and> keeps_sys g g'"
  using assms by (auto simp: KndWfpStop_def Let_def keeps_ring_def keeps_sys_def knd_ring.truncate_def
      split: if_splits)

lemma start_body_keeps:
  assumes "wfp_start_body a (c, g) = (s, c', g')"
  shows "keeps_ring c c' \<and> keeps_sys g g'"
proof -
  have sub: "keeps_ring c (c\<lparr>SublayerAdded := True\<rparr>)"
    by (simp add: keeps_ring_def knd_ring.truncate_def)
  have reg: "keeps_ring x (x\<lparr>CalloutsRegistered := True\<rparr>)" for x
    by (simp add: keeps_ring_def knd_ring.truncate_def)
  show ?thesis
    using assms keeps_trans(1) [OF keeps_trans(1) [OF sub] reg] keeps_trans(1) [OF sub]
    by (auto simp: wfp_start_body_def Let_def simp del: register_all.simps
        split: if_splits prod.splits dest!: register_all_keeps)
qed

lemma start_keeps:
  assumes "KndWfpStart a (c, g) = (s, c', g')"
  shows "keeps_ring c c' \<and> keeps_sys g g'"
proof (cases "NT_SUCCESS (fst (wa_engine a))")
  case False
  with assms show ?thesis by (simp add: KndWfpStart_def Let_def case_prod_beta)
next
  case True
  obtain c0 g0 s1 c1 g1 where k0: "keeps_ring c c0" "keeps_sys g g0"
    and b: "wfp_start_body a (c0, g0) = (s1, c1, g1)"
    and r: "KndWfpStart a (c, g) =
      (if NT_SUCCESS s1 then (STATUS_SUCCESS, c1, g1) else (s1, KndWfpStop (wa_unregister a) (c1, g1)))"
  proof -
    define cg where "cg = (if NT_SUCCESS (fst (wa_redirect a))
     then (c\<lparr>EngineHandle := snd (wa_engine a), RedirectHandle := snd (wa_redirect a), RedirectHandleCreated := True\<rparr>,
       g\<lparr>engines := insert (snd (wa_engine a)) (engines g), redirects := insert (snd (wa_redirect a)) (redirects g)\<rparr>)
     else (c\<lparr>EngineHandle := snd (wa_engine a)\<rparr>, g\<lparr>engines := insert (snd (wa_engine a)) (engines g)\<rparr>))"
    obtain c0 g0 where cg: "cg = (c0, g0)" by (cases cg)
    obtain s1 c1 g1 where b: "wfp_start_body a (c0, g0) = (s1, c1, g1)" by (rule prod_cases3)
    show thesis
      using True b cg
      by (intro that [of c0 g0 s1 c1 g1])
        (auto simp: cg_def KndWfpStart_def Let_def case_prod_beta keeps_ring_def keeps_sys_def
          knd_ring.truncate_def split: if_splits)
  qed
  show ?thesis
    using assms r start_body_keeps [OF b] k0 stop_keeps [of "wa_unregister a" c1 g1 c' g'] keeps_trans
    by (auto split: if_splits)
qed


lemma destroy_releases:
  assumes "UserVa c = 0" "RingBase c \<noteq> 0" "RingMdl c \<noteq> 0"
    and "kpool c = {RingBase c}" "kmdls c = {RingMdl c}"
  shows "kpool (KndRingDestroy c) = {}" "kmdls (KndRingDestroy c) = {}"
  using assms by (simp_all add: KndRingDestroy_def Let_def)

text \<open>What the loader may rely on: addresses and handles that are new to the system.\<close>

definition load_fresh :: "load_answers \<Rightarrow> knd_sys \<Rightarrow> bool" where
  "load_fresh a g \<longleftrightarrow> la_ctx a \<notin> ctx_pool g \<and> snd (la_device a) \<noteq> 0 \<and> snd (la_device a) \<notin> sys_devices g
     \<and> wfp_fresh (la_wfp a) g \<and> drains (wa_unregister (la_wfp a)) \<and> g_Knd g = None \<and> \<not> symlinked g"

definition entry_ctx :: "load_answers \<Rightarrow> ntstatus \<times> knd_ctx" where
  "entry_ctx a = KndRingCreate (blank_ctx\<lparr>NextFlowId := 0, NextSequence := 0, CaptureActive := 0\<rparr>)
     KND_DEFAULT_RING_DATA_SIZE (la_pool a) (la_mdl a)"

lemma entry_ctx_fail:
  assumes "\<not> NT_SUCCESS (fst (entry_ctx a))"
  shows "kpool (KndRingDestroy (snd (entry_ctx a))) = {} \<and> kmdls (KndRingDestroy (snd (entry_ctx a))) = {}"
proof -
  have "KND_DEFAULT_RING_DATA_SIZE AND (KND_DEFAULT_RING_DATA_SIZE - 1) = 0"
    by (simp add: KND_DEFAULT_RING_DATA_SIZE_def)
  moreover have "\<not> KND_DEFAULT_RING_DATA_SIZE < 0x10000" by (simp add: KND_DEFAULT_RING_DATA_SIZE_def)
  ultimately show ?thesis
    using assms by (simp add: entry_ctx_def KndRingCreate_def KndRingDestroy_def Let_def blank_ctx_def
        split: if_splits)
qed

lemma entry_ctx_ok:
  assumes "NT_SUCCESS (fst (entry_ctx a))"
  shows "fst (entry_ctx a) = STATUS_SUCCESS" "ring_wf (snd (entry_ctx a))"
    "kpool (snd (entry_ctx a)) = {RingBase (snd (entry_ctx a))}"
    "kmdls (snd (entry_ctx a)) = {RingMdl (snd (entry_ctx a))}"
    "RingBase (snd (entry_ctx a)) \<noteq> 0" "RingMdl (snd (entry_ctx a)) \<noteq> 0" "UserVa (snd (entry_ctx a)) = 0"
    "kmaps (snd (entry_ctx a)) = {}" "wfp_idle (snd (entry_ctx a))"
proof -
  have sz: "\<not> KND_DEFAULT_RING_DATA_SIZE < 0x10000"
    "KND_DEFAULT_RING_DATA_SIZE AND (KND_DEFAULT_RING_DATA_SIZE - 1) = 0"
    by (simp_all add: KND_DEFAULT_RING_DATA_SIZE_def)
  have nz: "la_pool a \<noteq> 0" "la_mdl a \<noteq> 0"
    using assms by (auto simp: entry_ctx_def KndRingCreate_def Let_def split: if_splits)
  note ok = KndRingCreate_ok [OF sz nz]
  show "fst (entry_ctx a) = STATUS_SUCCESS" "ring_wf (snd (entry_ctx a))"
    using ok(1) ring_okD(1) [OF ok(2)] by (simp_all add: entry_ctx_def)
  show "kpool (snd (entry_ctx a)) = {RingBase (snd (entry_ctx a))}"
    "kmdls (snd (entry_ctx a)) = {RingMdl (snd (entry_ctx a))}"
    "RingBase (snd (entry_ctx a)) \<noteq> 0" "RingMdl (snd (entry_ctx a)) \<noteq> 0" "UserVa (snd (entry_ctx a)) = 0"
    "kmaps (snd (entry_ctx a)) = {}" "wfp_idle (snd (entry_ctx a))"
    using sz nz by (simp_all add: entry_ctx_def KndRingCreate_def Let_def blank_ctx_def wfp_idle_def const_defs)
qed

lemma entry_fail_restores:
  assumes "kpool (KndRingDestroy c) = {}" "kmdls (KndRingDestroy c) = {}"
    and "ctx_pool g = insert p (ctx_pool g0)" "p \<notin> ctx_pool g0" "orphans g = orphans g0"
    and "engines g = engines g0" "callouts g = callouts g0" "redirects g = redirects g0"
    and "if dev \<noteq> 0 then sys_devices g = insert dev (sys_devices g0) \<and> dev \<notin> sys_devices g0
         else sys_devices g = sys_devices g0"
    and "if sl then \<not> symlinked g0 else symlinked g = symlinked g0"
  shows "same_objects g0 (entry_fail p sl dev c g)"
  using assms by (auto simp: entry_fail_def same_objects_def release_ctx_def Let_def)

lemma DriverEntry_early:
  assumes fresh: "load_fresh a g" and res: "DriverEntry a g = (s, g')"
    and stop: "la_ctx a = 0 \<or> \<not> NT_SUCCESS (fst (entry_ctx a)) \<or> \<not> NT_SUCCESS (fst (la_device a))
      \<or> \<not> NT_SUCCESS (la_symlink a)"
  shows "\<not> NT_SUCCESS s \<and> same_objects g g' \<and> g_Knd g' = None"
proof -
  define c where "c = snd (entry_ctx a)"
  define g1 where "g1 = g\<lparr>ctx_pool := insert (la_ctx a) (ctx_pool g)\<rparr>"
  define dev where "dev = snd (la_device a)"
  have f: "la_ctx a \<notin> ctx_pool g" "dev \<noteq> 0" "dev \<notin> sys_devices g" "g_Knd g = None" "\<not> symlinked g"
    using fresh by (auto simp: load_fresh_def dev_def)
  have keep: "g_Knd (entry_fail p sl d x y) = g_Knd y" for p sl d x y
    by (simp add: entry_fail_def release_ctx_def Let_def)
  have res': "(s, g') = (if la_ctx a = 0 then (STATUS_INSUFFICIENT_RESOURCES, g)
     else if \<not> NT_SUCCESS (fst (entry_ctx a)) then (fst (entry_ctx a), entry_fail (la_ctx a) False 0 c g1)
     else if \<not> NT_SUCCESS (fst (la_device a)) then (fst (la_device a), entry_fail (la_ctx a) False 0 c g1)
     else (la_symlink a, entry_fail (la_ctx a) False dev (c\<lparr>DeviceObject := dev\<rparr>)
        (g1\<lparr>sys_devices := insert dev (sys_devices g1)\<rparr>)))"
    using res stop by (auto simp: DriverEntry_def Let_def entry_ctx_def [symmetric] case_prod_beta
        c_def g1_def dev_def)
  have d: "kpool (KndRingDestroy (c\<lparr>DeviceObject := x\<rparr>)) = kpool (KndRingDestroy c)"
    "kmdls (KndRingDestroy (c\<lparr>DeviceObject := x\<rparr>)) = kmdls (KndRingDestroy c)" for x
    by (simp_all add: KndRingDestroy_def Let_def)
  have rel: "kpool (KndRingDestroy c) = {} \<and> kmdls (KndRingDestroy c) = {}"
  proof (cases "NT_SUCCESS (fst (entry_ctx a))")
    case True
    from entry_ctx_ok [OF this] show ?thesis
      unfolding c_def by (intro conjI destroy_releases) auto
  next
    case False
    then show ?thesis unfolding c_def by (rule entry_ctx_fail)
  qed
  have "same_objects g (entry_fail (la_ctx a) False 0 c g1)"
    using rel f by (intro entry_fail_restores) (simp_all add: g1_def)
  moreover have "same_objects g (entry_fail (la_ctx a) False dev (c\<lparr>DeviceObject := dev\<rparr>)
        (g1\<lparr>sys_devices := insert dev (sys_devices g1)\<rparr>))"
    using rel f by (intro entry_fail_restores) (simp_all add: g1_def d)
  ultimately show ?thesis
    using res' stop f by (auto simp: keep g1_def split: if_splits)
qed

lemma wfp_owns_ctx [simp]: "wfp_owns E C R (c, g\<lparr>g_Knd := k\<rparr>) = wfp_owns E C R (c, g)"
  by (simp add: wfp_owns_def)

lemma DriverEntry_late:
  assumes "load_fresh a g" "la_ctx a \<noteq> 0" "NT_SUCCESS (fst (entry_ctx a))"
    and "NT_SUCCESS (fst (la_device a))" "NT_SUCCESS (la_symlink a)"
  defines "c \<equiv> (snd (entry_ctx a))\<lparr>DeviceObject := snd (la_device a)\<rparr>"
  defines "g1 \<equiv> g\<lparr>ctx_pool := insert (la_ctx a) (ctx_pool g),
      sys_devices := insert (snd (la_device a)) (sys_devices g), symlinked := True, g_Knd := Some c\<rparr>"
  assumes start: "KndWfpStart (la_wfp a) (c, g1) = (s, c', g')"
  shows "DriverEntry a g = (if NT_SUCCESS s then (STATUS_SUCCESS, g'\<lparr>g_Knd := Some c'\<rparr>)
      else (s, entry_fail (la_ctx a) True (snd (la_device a)) c' (g'\<lparr>g_Knd := None\<rparr>)))"
    "if NT_SUCCESS s then drv_inv g (la_ctx a) (g'\<lparr>g_Knd := Some c'\<rparr>)
     else same_objects g (entry_fail (la_ctx a) True (snd (la_device a)) c' (g'\<lparr>g_Knd := None\<rparr>))"
proof -
  show "DriverEntry a g = (if NT_SUCCESS s then (STATUS_SUCCESS, g'\<lparr>g_Knd := Some c'\<rparr>)
      else (s, entry_fail (la_ctx a) True (snd (la_device a)) c' (g'\<lparr>g_Knd := None\<rparr>)))"
    using assms(2-5) start
    by (simp add: DriverEntry_def Let_def entry_ctx_def [symmetric] case_prod_beta c_def g1_def)
  note ok = entry_ctx_ok [OF assms(3)]
  have c: "wfp_idle c" "ring_wf c" "kpool c = {RingBase c}" "kmdls c = {RingMdl c}" "RingBase c \<noteq> 0"
    "RingMdl c \<noteq> 0" "UserVa c = 0" "kmaps c = {}" "DeviceObject c = snd (la_device a)"
    using ok unfolding c_def wfp_idle_def ring_wf_def by auto
  have fresh: "wfp_fresh (la_wfp a) g1" "drains (wa_unregister (la_wfp a))" "snd (la_device a) \<noteq> 0"
    "snd (la_device a) \<notin> sys_devices g" "la_ctx a \<notin> ctx_pool g" "\<not> symlinked g"
    using assms(1) by (auto simp: load_fresh_def wfp_fresh_def g1_def)
  have k: "keeps_ring c c'" "keeps_sys g1 g'" using start_keeps [OF start] by auto
  note kd = keeps_ringD [OF k(1)]
  note st = KndWfpStart_cases [OF c(1) fresh(1,2) start]
  show "if NT_SUCCESS s then drv_inv g (la_ctx a) (g'\<lparr>g_Knd := Some c'\<rparr>)
     else same_objects g (entry_fail (la_ctx a) True (snd (la_device a)) c' (g'\<lparr>g_Knd := None\<rparr>))"
  proof (cases "NT_SUCCESS s")
    case True
    with st have "wfp_owns (engines g) (callouts g) (redirects g) (c', g'\<lparr>g_Knd := Some c'\<rparr>)"
      by (simp add: g1_def)
    moreover have "map_inv c'" using c kd by (simp add: map_inv_def)
    ultimately have "ctx_inv g (la_ctx a) c' (g'\<lparr>g_Knd := Some c'\<rparr>)"
      using c kd k(2) fresh by (simp add: ctx_inv_def keeps_sys_def g1_def)
    with True show ?thesis by (simp add: drv_inv_def)
  next
    case False
    have "kpool (KndRingDestroy c') = {}" "kmdls (KndRingDestroy c') = {}"
      using c kd by (simp_all add: destroy_releases)
    with False st k(2) fresh show ?thesis
      by (auto intro!: entry_fail_restores simp: keeps_sys_def g1_def)
  qed
qed

lemma DriverEntry_outcome:
  assumes "load_fresh a g" "DriverEntry a g = (s, g')"
  shows "if NT_SUCCESS s then drv_inv g (la_ctx a) g' else same_objects g g' \<and> g_Knd g' = None"
proof (cases "la_ctx a = 0 \<or> \<not> NT_SUCCESS (fst (entry_ctx a)) \<or> \<not> NT_SUCCESS (fst (la_device a))
      \<or> \<not> NT_SUCCESS (la_symlink a)")
  case True
  with DriverEntry_early [OF assms] show ?thesis by simp
next
  case False
  obtain s1 c1 g1 where "KndWfpStart (la_wfp a) ((snd (entry_ctx a))\<lparr>DeviceObject := snd (la_device a)\<rparr>,
      g\<lparr>ctx_pool := insert (la_ctx a) (ctx_pool g),
      sys_devices := insert (snd (la_device a)) (sys_devices g), symlinked := True,
      g_Knd := Some ((snd (entry_ctx a))\<lparr>DeviceObject := snd (la_device a)\<rparr>)\<rparr>) = (s1, c1, g1)"
    by (rule prod_cases3)
  from DriverEntry_late [OF assms(1) _ _ _ _ this] False assms(2) show ?thesis
    by (auto simp: entry_fail_def release_ctx_def Let_def split: if_splits)
qed


text \<open>
  C15. Loading, running and unloading balance. From a successful load, through any sequence of control
  requests, opens and closes, classify and flow-delete callbacks and stores of the consumer,
  the invariant holds; and unloading when the consumer has let go of its mapping returns the
  system to the objects and allocations it had before loading.
\<close>

theorem load_run_unload:
  assumes "load_fresh a g" "DriverEntry a g = (s, g1)" "NT_SUCCESS s" "drv_step\<^sup>*\<^sup>* g1 g2"
  shows "drv_inv g (la_ctx a) g2
    \<and> (\<forall>c unreg. g_Knd g2 = Some c \<and> UserVa c = 0 \<and> drains unreg \<longrightarrow>
         same_objects g (KndUnload (la_ctx a) unreg g2) \<and> g_Knd (KndUnload (la_ctx a) unreg g2) = None)"
proof -
  have inv1: "drv_inv g (la_ctx a) g1"
    using DriverEntry_outcome [OF assms(1,2)] assms(3) by simp
  have inv2: "drv_inv g (la_ctx a) g2" by (rule driver.inv_reach [OF assms(4) inv1])
  moreover have "same_objects g (KndUnload (la_ctx a) unreg g2) \<and> g_Knd (KndUnload (la_ctx a) unreg g2) = None"
    if c: "g_Knd g2 = Some c" "UserVa c = 0" "drains unreg" for c unreg
  proof -
    have inv: "ctx_inv g (la_ctx a) c g2" using inv2 c by (simp add: drv_inv_def)
    have "\<not> symlinked g" using assms(1) by (simp add: load_fresh_def)
    obtain c' g' where st: "KndWfpStop unreg (c, g2) = (c', g')" by fastforce
    have k: "keeps_ring c c'" "keeps_sys g2 g'" using stop_keeps [OF st] by auto
    have rel: "engines g' = engines g \<and> callouts g' = callouts g \<and> redirects g' = redirects g"
      using KndWfpStop_releases [OF _ c(3) st] inv by (auto simp: ctx_inv_def)
    have "RingBase c \<noteq> 0" using inv by (auto simp: ctx_inv_def ring_wf_def)
    then have "kpool (KndRingDestroy c') = {}" "kmdls (KndRingDestroy c') = {}"
      using keeps_ringD [OF k(1)] inv c(2) by (simp_all add: ctx_inv_def destroy_releases)
    then show ?thesis
      using inv c st rel k(2) keeps_ringD [OF k(1)] \<open>\<not> symlinked g\<close>
      by (auto simp: KndUnload_def Let_def ctx_inv_def keeps_sys_def release_ctx_def same_objects_def)
  qed
  ultimately show ?thesis by blast
qed


definition bare_sys :: knd_sys where
  "bare_sys = small_sys\<lparr>g_Knd := None\<rparr>"

definition sample_load :: "ntstatus \<Rightarrow> load_answers" where
  "sample_load commit = \<lparr>la_ctx = 0x10, la_pool = 0x7000, la_mdl = 0x9000, la_device = (0, 0x30),
     la_symlink = 0, la_wfp = sample_answers commit\<rparr>"

lemma sample_load_fresh: "load_fresh (sample_load s) bare_sys"
  using sample_drains
  by (auto simp: load_fresh_def sample_load_def bare_sys_def wfp_fresh_def small_sys_def sample_answers_def)

lemma NT_SUCCESS_0 [simp]: "NT_SUCCESS 0"
  by (simp add: NT_SUCCESS_def)

lemma sample_register_status: "NT_SUCCESS (fst (register_all (wa_callout (sample_answers s)) ks cg))"
proof (induction ks arbitrary: cg)
  case (Cons k ks)
  have "fst (KndRegisterCallout (wa_callout (sample_answers s) k) k cg) = 0"
    by (simp add: KndRegisterCallout_def sample_answers_def Let_def case_prod_beta)
  with Cons show ?case by (simp add: case_prod_beta)
qed simp

lemma sample_start_status:
  "fst (KndWfpStart (sample_answers s) cg) = (if NT_SUCCESS s then STATUS_SUCCESS else s)"
proof -
  have a: "wa_begin (sample_answers s) = 0" "wa_sublayer (sample_answers s) = 0"
    "wa_commit (sample_answers s) = s" "fst (wa_engine (sample_answers s)) = 0"
    by (simp_all add: sample_answers_def)
  then have "fst (wfp_start_body (sample_answers s) x) = (if NT_SUCCESS s then STATUS_SUCCESS else s)" for x
    using sample_register_status [of s]
    by (simp add: wfp_start_body_def Let_def case_prod_beta del: register_all.simps)
  with a show ?thesis by (simp add: KndWfpStart_def Let_def case_prod_beta)
qed

lemma sample_load_status: "fst (DriverEntry (sample_load s) bare_sys) = (if NT_SUCCESS s then STATUS_SUCCESS else s)"
proof -
  have sz: "\<not> KND_DEFAULT_RING_DATA_SIZE < 0x10000"
    "KND_DEFAULT_RING_DATA_SIZE AND (KND_DEFAULT_RING_DATA_SIZE - 1) = 0"
    by (simp_all add: KND_DEFAULT_RING_DATA_SIZE_def)
  have "fst (KndRingCreate c KND_DEFAULT_RING_DATA_SIZE 0x7000 0x9000) = STATUS_SUCCESS" for c :: knd_ctx
    by (rule KndRingCreate_ok [OF sz]) simp_all
  then show ?thesis
    using sample_start_status [of s]
    by (simp add: DriverEntry_def sample_load_def Let_def case_prod_beta)
qed


theorem load_run_unload_witness:
  "\<exists>g1 c. DriverEntry (sample_load 0) bare_sys = (STATUS_SUCCESS, g1)
     \<and> g_Knd (KndFlowDelete 7 0 g1) = Some c \<and> drv_inv bare_sys 0x10 (KndFlowDelete 7 0 g1)"
proof -
  obtain s g1 where r: "DriverEntry (sample_load 0) bare_sys = (s, g1)" by fastforce
  then have s: "s = STATUS_SUCCESS" using sample_load_status [of 0] by simp
  have "drv_step\<^sup>*\<^sup>* g1 (KndFlowDelete 7 0 g1)" using step_delete by blast
  from load_run_unload [OF sample_load_fresh r _ this] s
  have "drv_inv bare_sys 0x10 (KndFlowDelete 7 0 g1)" by (simp add: sample_load_def)
  then show ?thesis using r s by (auto simp: drv_inv_def)
qed

text \<open>
  A consumer that never lets go of its mapping: the ring is not freed, and the context that alone
  knows of it is, so both allocations are lost.
\<close>

lemma unload_with_mapping_orphans:
  assumes "g_Knd g = Some c" "UserVa c \<noteq> 0"
  shows "kpool c \<union> kmdls c \<subseteq> orphans (KndUnload p unreg g)"
proof -
  obtain c' g' where st: "KndWfpStop unreg (c, g) = (c', g')" by fastforce
  note k = stop_keeps [OF st]
  with assms st keeps_ringD [of c c'] show ?thesis
    by (auto simp: KndUnload_def Let_def release_ctx_def KndRingDestroy_def)
qed

end
