(* ===== verification/Knd_Client.thy ===== *)
theory Knd_Client
  imports Knd_Driver
begin

text \<open>
  The user side of the contract (\<^verbatim>\<open>src/app/src/knd_client.cpp\<close>, \<^verbatim>\<open>knd_client.h\<close>): opening and closing the
  device, the control requests, mapping the ring and consuming its records. The system call
  for device control is an argument; \<open>buffered_device\<close> states what it does for a driver
  that asks for buffered transfers. The bytes of the mapping are those of the region, addressed
  by offset from its base.
\<close>

section \<open>State and control requests\<close>

text \<open>The members \<^verbatim>\<open>h_, ring_, data_, dataSize_, mappedSize_\<close> of the class, in order.\<close>

record knd_client =
  cl_h :: u64
  cl_ring :: u64
  cl_data :: u64
  cl_dataSize :: u32
  cl_mappedSize :: u64

definition INVALID_HANDLE_VALUE :: u64 where "INVALID_HANDLE_VALUE = - 1"

definition new_client :: knd_client where
  "new_client = \<lparr>cl_h = INVALID_HANDLE_VALUE, cl_ring = 0, cl_data = 0, cl_dataSize = 0, cl_mappedSize = 0\<rparr>"

definition isOpen :: "knd_client \<Rightarrow> bool" where
  "isOpen cl \<longleftrightarrow> cl_h cl \<noteq> INVALID_HANDLE_VALUE"

definition isMapped :: "knd_client \<Rightarrow> bool" where
  "isMapped cl \<longleftrightarrow> cl_ring cl \<noteq> 0"

text \<open>State, handle, code, input, output capacity; success, returned count, output, state.\<close>

type_synonym 's device = "'s \<Rightarrow> u64 \<Rightarrow> u32 \<Rightarrow> bytes \<Rightarrow> nat \<Rightarrow> bool \<times> nat \<times> bytes \<times> 's"

definition client_open :: "u64 \<Rightarrow> knd_client \<Rightarrow> bool \<times> knd_client" where
  "client_open created cl =
     (if isOpen cl then (True, cl) else (let cl = cl\<lparr>cl_h := created\<rparr> in (isOpen cl, cl)))"

definition client_ioctl ::
  "'s device \<Rightarrow> knd_client \<Rightarrow> u32 \<Rightarrow> bytes \<Rightarrow> nat \<Rightarrow> 's \<Rightarrow> bool \<times> nat \<times> bytes \<times> 's" where
  "client_ioctl dev cl code inb outLen s =
     (if \<not> isOpen cl then (False, 0, [], s) else dev s (cl_h cl) code inb outLen)"

text \<open>Closing: unmap request, forget the mapping, close the handle (its cleanup is \<open>closed\<close>).\<close>

definition client_close :: "'s device \<Rightarrow> ('s \<Rightarrow> u64 \<Rightarrow> 's) \<Rightarrow> knd_client \<Rightarrow> 's \<Rightarrow> knd_client \<times> 's" where
  "client_close dev closed cl s =
     (let s = (if cl_ring cl \<noteq> 0 \<and> cl_h cl \<noteq> INVALID_HANDLE_VALUE
               then snd (snd (snd (client_ioctl dev cl IOCTL_KND_UNMAP_RING [] 0 s))) else s);
          cl = cl\<lparr>cl_ring := 0, cl_data := 0, cl_dataSize := 0, cl_mappedSize := 0\<rparr>
      in if cl_h cl \<noteq> INVALID_HANDLE_VALUE
         then (cl\<lparr>cl_h := INVALID_HANDLE_VALUE\<rparr>, closed s (cl_h cl)) else (cl, s))"

definition getVersion :: "'s device \<Rightarrow> knd_client \<Rightarrow> bytes \<Rightarrow> 's \<Rightarrow> bool \<times> bytes \<times> 's" where
  "getVersion dev cl out s =
     (let (ok, ret, bs, s) = client_ioctl dev cl IOCTL_KND_GET_VERSION [] sizeof_VERSION_OUT s
      in (ok \<and> ret = sizeof_VERSION_OUT, put_at out 0 bs, s))"

definition mapRing :: "'s device \<Rightarrow> ('s \<Rightarrow> u64 \<Rightarrow> mem) \<Rightarrow> knd_client \<Rightarrow> 's \<Rightarrow> bool \<times> knd_client \<times> 's" where
  "mapRing dev view cl s =
     (let (ok, ret, bs, s) = client_ioctl dev cl IOCTL_KND_MAP_RING [] sizeof_MAP_RING_OUT s
      in if \<not> ok \<or> ret < sizeof_MAP_RING_OUT then (False, cl, s)
      else
        let info = dec_map_ring (put_at (replicate sizeof_MAP_RING_OUT 0) 0 bs);
            cl = cl\<lparr>cl_ring := mo_userVa info\<rparr>
        in if cl_ring cl = 0 \<or> ld32 (view s (cl_ring cl)) hdr_magic \<noteq> KND_RING_MAGIC
              \<or> ld32 (view s (cl_ring cl)) hdr_version \<noteq> KND_PROTOCOL_VERSION
           then (False, cl\<lparr>cl_ring := 0\<rparr>, s)
           else (True, cl\<lparr>cl_data := cl_ring cl + ucast (mo_dataOffset info), cl_dataSize := mo_dataSize info,
                          cl_mappedSize := mo_totalSize info\<rparr>, s))"

definition startCapture :: "'s device \<Rightarrow> knd_client \<Rightarrow> 's \<Rightarrow> bool \<times> 's" where
  "startCapture dev cl s =
     (let (ok, ret, bs, s) = client_ioctl dev cl IOCTL_KND_START_CAPTURE [] 0 s in (ok, s))"

definition stopCapture :: "'s device \<Rightarrow> knd_client \<Rightarrow> 's \<Rightarrow> bool \<times> 's" where
  "stopCapture dev cl s =
     (let (ok, ret, bs, s) = client_ioctl dev cl IOCTL_KND_STOP_CAPTURE [] 0 s in (ok, s))"

definition getStats :: "'s device \<Rightarrow> knd_client \<Rightarrow> bytes \<Rightarrow> 's \<Rightarrow> bool \<times> bytes \<times> 's" where
  "getStats dev cl out s =
     (let (ok, ret, bs, s) = client_ioctl dev cl IOCTL_KND_GET_STATS [] sizeof_STATS_OUT s
      in (ok \<and> ret = sizeof_STATS_OUT, put_at out 0 bs, s))"

definition setRedirect :: "'s device \<Rightarrow> knd_client \<Rightarrow> bool \<Rightarrow> u16 \<Rightarrow> 's \<Rightarrow> bool \<times> 's" where
  "setRedirect dev cl enable proxyPort s =
     (let rq = \<lparr>ri_enable = (if enable then 1 else 0), ri_proxyPort = proxyPort, ri_reserved = 0\<rparr>;
          (ok, ret, bs, s) = client_ioctl dev cl IOCTL_KND_SET_REDIRECT (enc_redirect_in rq) 0 s
      in (ok, s))"

definition physRead :: "'s device \<Rightarrow> knd_client \<Rightarrow> u64 \<Rightarrow> bytes \<Rightarrow> u32 \<Rightarrow> 's \<Rightarrow> bool \<times> bytes \<times> 's" where
  "physRead dev cl offset buf len s =
     (if len = 0 \<or> unat len > KND_MAX_PHYS_RW then (False, buf, s)
      else
        let rq = \<lparr>pr_offset = offset, pr_length = len, pr_reserved = 0\<rparr>;
            (ok, ret, bs, s) = client_ioctl dev cl IOCTL_KND_PHYS_READ (enc_phys_rw rq) (unat len) s
        in (ok \<and> ret = unat len, put_at buf 0 bs, s))"

definition physWrite :: "'s device \<Rightarrow> knd_client \<Rightarrow> u64 \<Rightarrow> bytes \<Rightarrow> u32 \<Rightarrow> 's \<Rightarrow> bool \<times> 's" where
  "physWrite dev cl offset buf len s =
     (if len = 0 \<or> unat len > KND_MAX_PHYS_RW then (False, s)
      else
        let rq = \<lparr>pr_offset = offset, pr_length = len, pr_reserved = 0\<rparr>;
            (ok, ret, bs, s) = client_ioctl dev cl IOCTL_KND_PHYS_WRITE
               (enc_phys_rw rq @ take (unat len) buf) 0 s
        in (ok, s))"

section \<open>Consuming records\<close>

text \<open>
  The loop of one poll over the mapping: local read position and the records handed to the
  callback so far. Positions are 64-bit words that may wrap, so the loop is a partial function.
\<close>

partial_function (option) poll_loop ::
  "mem \<Rightarrow> nat \<Rightarrow> u32 \<Rightarrow> u64 \<Rightarrow> u64 \<Rightarrow> bytes list \<Rightarrow> (u64 \<times> bytes list) option" where
  "poll_loop m base sz wp rp acc =
     (if rp < wp
      then let off = (ucast (rp AND ucast (sz - 1)) :: u32);
               a = base + unat off;
               len = ld32 m a
           in if len < 24 \<or> len AND 7 \<noteq> 0 \<or> len > sz then Some (wp, acc)
              else poll_loop m base sz wp (rp + ucast len)
                     (if ld16 m (a + 4) \<noteq> KND_REC_WRAP then acc @ [mem_read m a (unat len)] else acc)
      else Some (rp, acc))"

text \<open>The poll: records delivered, in order, and the memory with the published read position.\<close>

definition poll :: "knd_client \<Rightarrow> mem \<Rightarrow> (bytes list \<times> mem) option" where
  "poll cl m =
     (if cl_ring cl = 0 \<or> cl_data cl = 0 \<or> cl_dataSize cl = 0 then Some ([], m)
      else case poll_loop m (unat (cl_data cl - cl_ring cl)) (cl_dataSize cl)
                  (ld64 m hdr_writePos) (ld64 m hdr_readPos) [] of
             None \<Rightarrow> None
           | Some (rp, rs) \<Rightarrow> Some (rs, st64 m hdr_readPos rp))"

section \<open>The poll delivers what the ring holds\<close>

lemma poll_loop_done: "\<not> rp < wp \<Longrightarrow> poll_loop m base sz wp rp acc = Some (rp, acc)"
  by (subst poll_loop.simps) simp

lemma and_7: "(w :: u32) AND 7 = 0 \<longleftrightarrow> 8 dvd unat w"
proof -
  have "unat (w AND 7) = unat w mod 8" using unat_and_mask [of 3 w] by simp
  then show ?thesis by (metis dvd_eq_mod_eq_0 unat_eq_zero)
qed

text \<open>One record of a chain is accepted, handed over unless it is padding, and skipped.\<close>

definition power_size :: "u32 \<Rightarrow> bool" where
  "power_size sz \<longleftrightarrow> sz \<in> (\<lambda>k. 2 ^ k) ` {16..31}"

lemma poll_offset: "power_size sz \<Longrightarrow> unat (ucast ((rp :: u64) AND ucast (sz - 1)) :: u32) = unat rp mod unat sz"
  unfolding power_size_def using mask_offset by fastforce

lemma mem_read_type: "6 \<le> n \<Longrightarrow> rec_type (dec_record (mem_read m a n)) = ld16 m (a + 4)"
  by (simp add: dec_record_def get16_def ld16_def drop_mem_read take_mem_read)

lemma poll_loop_step:
  assumes sz: "power_size sz" and lt: "rp < wp"
    and len: "unat (ld32 m (data_addr (unat rp mod unat sz))) = len" "sizeof_RECORD \<le> len" "8 dvd len" "len \<le> unat sz"
  defines "r \<equiv> mem_read m (data_addr (unat rp mod unat sz)) len"
  shows "poll_loop m KND_RING_DATA_OFFSET sz wp rp acc =
    poll_loop m KND_RING_DATA_OFFSET sz wp (rp + word_of_nat len) (acc @ visible [r])"
proof -
  define a where "a = data_addr (unat rp mod unat sz)"
  have ld: "ld32 m a = word_of_nat len"
    unfolding len(1) [symmetric] a_def by (simp only: word_of_nat_unat)
  have l32: "len < 2 ^ 32" unfolding len(1) [symmetric] by simp
  then have u: "unat (word_of_nat len :: u32) = len" by (simp add: unat_of_nat)
  have conv: "unat (ld32 m a) = len" "ucast (ld32 m a) = (word_of_nat len :: u64)"
    using l32 u by (simp_all only: ld ucast_of_nat_small)
  have "\<not> (ld32 m a < 24 \<or> ld32 m a AND 7 \<noteq> 0 \<or> ld32 m a > sz)"
    using len(2-4) u by (simp add: ld and_7 word_less_nat_alt sizeof_RECORD_def del: unat_of_nat)
  moreover have "rec_visible r \<longleftrightarrow> ld16 m (a + 4) \<noteq> KND_REC_WRAP"
    using len(2) by (simp add: rec_visible_def r_def a_def mem_read_type sizeof_RECORD_def)
  ultimately show ?thesis
    using lt conv by (subst poll_loop.simps)
      (simp add: Let_def poll_offset [OF sz] r_def visible_def flip: a_def)
qed

lemma poll_loop_chain:
  assumes sz: "power_size sz" and "ring_chain m (unat sz) (unat wp) p rs" and "p = unat rp"
  shows "poll_loop m KND_RING_DATA_OFFSET sz wp rp acc = Some (wp, acc @ visible rs)"
  using assms(2,3)
proof (induction arbitrary: rp acc rule: ring_chain.induct)
  case chain_done
  then have "rp = wp" by (metis word_unat_eq_iff)
  then show ?case by (simp add: poll_loop_done)
next
  case (chain_rec len p rs)
  have lt: "rp < wp"
    using chain_rec.hyps chain_rec.prems by (simp add: word_less_nat_alt sizeof_RECORD_def)
  have len: "len \<le> unat sz" using chain_rec.hyps(4) by simp
  have "unat rp + len < 2 ^ 64"
    using chain_rec.hyps(5) chain_rec.prems le_less_trans [OF _ unat_u64_lt [of wp]] by simp
  then have next_pos: "p + len = unat (rp + word_of_nat len)"
    using chain_rec.prems by (simp add: unat_word_ariths unat_of_nat)
  let ?r = "mem_read m (data_addr (p mod unat sz)) len"
  have "poll_loop m KND_RING_DATA_OFFSET sz wp rp acc =
    poll_loop m KND_RING_DATA_OFFSET sz wp (rp + word_of_nat len) (acc @ visible [?r])"
    using poll_loop_step [OF sz lt _ chain_rec.hyps(2,3) len] chain_rec.hyps(1) chain_rec.prems by simp
  also have "\<dots> = Some (wp, acc @ visible [?r] @ visible rs)"
    using chain_rec.IH [OF next_pos] by simp
  finally show ?case by (simp flip: visible_append)
qed

text \<open>Whatever the memory holds, the loop ends while positions stay clear of the top of their range.\<close>

lemma poll_loop_returns:
  assumes "unat wp + unat sz < 2 ^ 64"
  shows "\<exists>rp' rs. poll_loop m base sz wp rp acc = Some (rp', acc @ rs)
     \<and> unat rp' \<le> max (unat rp) (unat wp + unat sz) \<and> 24 * length rs \<le> unat wp + unat sz - unat rp"
proof (induction "unat wp + unat sz - unat rp" arbitrary: rp acc rule: less_induct)
  case less
  show ?case
  proof (cases "rp < wp")
    case False
    then show ?thesis by (simp add: poll_loop_done)
  next
    case True
    define a where "a = base + unat (ucast (rp AND ucast (sz - 1)) :: u32)"
    define len where "len = ld32 m a"
    show ?thesis
    proof (cases "len < 24 \<or> len AND 7 \<noteq> 0 \<or> len > sz")
      case bad: True
      then have "poll_loop m base sz wp rp acc = Some (wp, acc)"
        using True by (subst poll_loop.simps) (simp add: Let_def flip: a_def len_def)
      then show ?thesis by auto
    next
      case ok: False
      define acc' where "acc' = (if ld16 m (a + 4) \<noteq> KND_REC_WRAP then [mem_read m a (unat len)] else [])"
      have short: "length acc' \<le> 1" by (simp add: acc'_def)
      have step: "poll_loop m base sz wp rp acc = poll_loop m base sz wp (rp + ucast len) (acc @ acc')"
        using True ok by (subst poll_loop.simps) (simp add: Let_def acc'_def flip: a_def len_def)
      have len: "24 \<le> unat len" "unat len \<le> unat sz"
        using ok by (auto simp: word_less_nat_alt not_less)
      have lt: "unat rp < unat wp" using True by (simp add: word_less_nat_alt)
      have pos: "unat (rp + ucast len) = unat rp + unat len"
        using assms len lt by (subst unat_plus_no_wrap) simp_all
      have "unat wp + unat sz - unat (rp + ucast len) < unat wp + unat sz - unat rp"
        using pos len lt by linarith
      from less [OF this, of "acc @ acc'"] obtain rp' rs where
        r: "poll_loop m base sz wp (rp + ucast len) (acc @ acc') = Some (rp', (acc @ acc') @ rs)"
        "unat rp' \<le> max (unat (rp + ucast len)) (unat wp + unat sz)"
        "24 * length rs \<le> unat wp + unat sz - unat (rp + ucast len)" by blast
      have "unat rp' \<le> max (unat rp) (unat wp + unat sz)" using r(2) pos len lt by linarith
      moreover have "24 * length rs + (unat rp + unat len) \<le> unat wp + unat sz"
        using r(3) len lt unfolding pos by linarith
      then have "24 * length (acc' @ rs) + unat rp \<le> unat wp + unat sz"
        using len short by simp
      then have "24 * length (acc' @ rs) \<le> unat wp + unat sz - unat rp" by linarith
      ultimately show ?thesis using step r(1) by (intro exI [of _ rp'] exI [of _ "acc' @ rs"]) simp
    qed
  qed
qed

text \<open>A client that is attached to a ring: a base, the data area behind the header, and its size.\<close>

definition attached :: "knd_client \<Rightarrow> 'a knd_ring_scheme \<Rightarrow> bool" where
  "attached cl c \<longleftrightarrow> cl_ring cl \<noteq> 0 \<and> cl_data cl \<noteq> 0
     \<and> cl_data cl = cl_ring cl + word_of_nat KND_RING_DATA_OFFSET \<and> cl_dataSize cl = RingDataSize c"

lemma ring_ok_consumed:
  assumes "ring_ok c rs"
  shows "ring_ok (c\<lparr>rmem := st64 (rmem c) hdr_readPos (WritePos c)\<rparr>) []"
proof -
  have "ld64 (st64 (rmem c) hdr_readPos (WritePos c)) hdr_writePos = ld64 (rmem c) hdr_writePos"
    by (simp add: mem_simps layout_defs)
  moreover have "ring_chain (st64 (rmem c) hdr_readPos (WritePos c)) (dsize c) (wpos c) (wpos c) []"
    by (rule ring_chain.chain_done)
  ultimately show ?thesis using assms by (simp add: ring_ok_def)
qed

lemma ring_wf_power: "ring_wf c \<Longrightarrow> power_size (RingDataSize c)"
  by (simp add: ring_wf_def power_size_def)

lemma poll_ring:
  assumes ok: "ring_ok c rs" and att: "attached cl c"
  shows "poll cl (rmem c) = Some (visible rs, st64 (rmem c) hdr_readPos (WritePos c))"
proof -
  note wf = ring_okD(1) [OF ok]
  have "RingDataSize c \<noteq> 0" using ring_wf_size_bounds(1) [OF wf] by auto
  moreover have "unat (cl_data cl - cl_ring cl) = KND_RING_DATA_OFFSET"
    using att by (simp add: attached_def const_defs)
  moreover have "poll_loop (rmem c) KND_RING_DATA_OFFSET (RingDataSize c) (WritePos c) (ld64 (rmem c) hdr_readPos) []
      = Some (WritePos c, [] @ visible rs)"
    by (rule poll_loop_chain [OF ring_wf_power [OF wf] ring_okD(4) [OF ok] refl])
  ultimately show ?thesis
    using att unfolding poll_def ring_okD(2) [OF ok] by (auto simp: attached_def)
qed

section \<open>Requests through a buffered device\<close>

text \<open>
  Buffered transfer: the driver sees a system buffer as long as the longer of input and output,
  which starts with the input; on completion the announced number of bytes is copied back, and
  the call succeeds when the status does.
\<close>

definition buffered_device :: "kernel_env \<Rightarrow> knd_sys device \<Rightarrow> bool" where
  "buffered_device env dev \<longleftrightarrow> (\<forall>g h code inb outLen. length inb < 2 ^ 32 \<longrightarrow> outLen < 2 ^ 32 \<longrightarrow>
     (\<exists>pad. length inb + length pad = max (length inb) outLen
        \<and> dev g h code inb outLen =
          (case KndDispatchDeviceControl env (g_Knd g)
             \<lparr>IoControlCode = code, InputBufferLength = word_of_nat (length inb),
              OutputBufferLength = word_of_nat outLen, SystemBuffer = inb @ pad\<rparr> of
            (status, info, k, buf) \<Rightarrow> (NT_SUCCESS status, info, take info buf, g\<lparr>g_Knd := k\<rparr>))))"

lemma client_request:
  assumes "buffered_device env dev" "isOpen cl" "g_Knd g = Some c"
    and "length inb < 2 ^ 32" "outLen < 2 ^ 32"
  obtains pad where "length inb + length pad = max (length inb) outLen"
    "client_ioctl dev cl code inb outLen g =
       (case device_control env c
             \<lparr>IoControlCode = code, InputBufferLength = word_of_nat (length inb),
              OutputBufferLength = word_of_nat outLen, SystemBuffer = inb @ pad\<rparr> of
            (status, info, c', buf) \<Rightarrow> (NT_SUCCESS status, info, take info buf, g\<lparr>g_Knd := Some c'\<rparr>))"
proof -
  obtain pad where "length inb + length pad = max (length inb) outLen"
    "dev g (cl_h cl) code inb outLen = (case KndDispatchDeviceControl env (g_Knd g)
             \<lparr>IoControlCode = code, InputBufferLength = word_of_nat (length inb),
              OutputBufferLength = word_of_nat outLen, SystemBuffer = inb @ pad\<rparr> of
            (status, info, k, buf) \<Rightarrow> (NT_SUCCESS status, info, take info buf, g\<lparr>g_Knd := k\<rparr>))"
    using assms(1,4,5) unfolding buffered_device_def by blast
  with assms(2,3) show ?thesis
    by (intro that [of pad])
      (simp_all add: client_ioctl_def KndDispatchDeviceControl_def split: prod.splits)
qed

lemma take_put_at_0: "take (length bs) (put_at buf 0 bs) = bs"
  by (simp add: put_at_def)

lemma put_at_all: "length buf = length bs \<Longrightarrow> put_at buf 0 bs = bs"
  by (simp add: put_at_def)

lemma unat_small [simp]: "n < 2 ^ 32 \<Longrightarrow> unat (word_of_nat n :: u32) = n"
  by (simp add: unat_of_nat)

lemma getVersion_driver:
  assumes "buffered_device env dev" "isOpen cl" "g_Knd g = Some c" "length out = sizeof_VERSION_OUT"
  shows "getVersion dev cl out g = (True, enc_version \<lparr>vo_protocolVersion = KND_PROTOCOL_VERSION,
      vo_driverVersion = KND_DRIVER_VERSION\<rparr>, g)"
proof -
  obtain pad where p: "length ([] :: bytes) + length pad = max (length ([] :: bytes)) sizeof_VERSION_OUT"
    "client_ioctl dev cl IOCTL_KND_GET_VERSION [] sizeof_VERSION_OUT g =
       (case device_control env c
             \<lparr>IoControlCode = IOCTL_KND_GET_VERSION, InputBufferLength = word_of_nat (length ([] :: bytes)),
              OutputBufferLength = word_of_nat sizeof_VERSION_OUT, SystemBuffer = [] @ pad\<rparr> of
            (status, info, c', buf) \<Rightarrow> (NT_SUCCESS status, info, take info buf, g\<lparr>g_Knd := Some c'\<rparr>))"
    using client_request [OF assms(1-3), of "[]" sizeof_VERSION_OUT] by (auto simp: layout_defs)
  have "g\<lparr>g_Knd := Some c\<rparr> = g" using assms(3) by simp
  then show ?thesis
    using p assms(4) unfolding getVersion_def
    by (simp add: device_control_def layout_defs put_at_def)
qed

lemma mapRing_driver:
  assumes dev: "buffered_device env dev" and op: "isOpen cl" and g: "g_Knd g = Some c"
    and map: "KndMapRingToUser env c = (STATUS_SUCCESS, Some out, c')"
    and view: "view (g\<lparr>g_Knd := Some c'\<rparr>) (UserVa c') = rmem c'"
    and hdr: "ld32 (rmem c') hdr_magic = KND_RING_MAGIC" "ld32 (rmem c') hdr_version = KND_PROTOCOL_VERSION"
  shows "mapRing dev view cl g = (True, cl\<lparr>cl_ring := UserVa c',
      cl_data := UserVa c' + word_of_nat KND_RING_DATA_OFFSET, cl_dataSize := RingDataSize c',
      cl_mappedSize := RingTotalSize c'\<rparr>, g\<lparr>g_Knd := Some c'\<rparr>)"
proof -
  obtain pad where p: "length ([] :: bytes) + length pad = max (length ([] :: bytes)) sizeof_MAP_RING_OUT"
    "client_ioctl dev cl IOCTL_KND_MAP_RING [] sizeof_MAP_RING_OUT g =
       (case device_control env c
             \<lparr>IoControlCode = IOCTL_KND_MAP_RING, InputBufferLength = word_of_nat (length ([] :: bytes)),
              OutputBufferLength = word_of_nat sizeof_MAP_RING_OUT, SystemBuffer = [] @ pad\<rparr> of
            (status, info, c', buf) \<Rightarrow> (NT_SUCCESS status, info, take info buf, g\<lparr>g_Knd := Some c'\<rparr>))"
    using client_request [OF dev op g, of "[]" sizeof_MAP_RING_OUT] by (auto simp: layout_defs)
  note own = map_ring_owner [OF map]
  have "dec_map_ring (enc_map_ring out) = out" using map_ring_wire.dec_enc_exact by simp
  then have "client_ioctl dev cl IOCTL_KND_MAP_RING [] sizeof_MAP_RING_OUT g =
      (True, sizeof_MAP_RING_OUT, enc_map_ring out, g\<lparr>g_Knd := Some c'\<rparr>)"
    using p by (simp add: device_control_def ioctl_codes layout_defs map put_at_def)
  with \<open>dec_map_ring (enc_map_ring out) = out\<close> own view hdr show ?thesis
    by (simp add: mapRing_def layout_defs put_at_def map_ring_out_def const_defs)
qed


lemma dec_phys_prefix: "dec_phys_rw (enc_phys_rw rq @ rest) = rq"
  using phys_rw_wire.dec_enc by simp

lemma physWrite_driver:
  assumes dev: "buffered_device env dev" and op: "isOpen cl" and g: "g_Knd g = Some c"
    and base: "RingBase c \<noteq> 0" and reads: "phys_reads env (RingBase c) (unat (RingTotalSize c))"
    and len: "0 < unat len" "unat len \<le> KND_MAX_PHYS_RW" "unat len \<le> length buf"
    and inside: "unat offset + unat len \<le> unat (RingTotalSize c)"
  shows "physWrite dev cl offset buf len g =
    (True, g\<lparr>g_Knd := Some (c\<lparr>rmem := mem_write (rmem c) (unat offset) (take (unat len) buf)\<rparr>)\<rparr>)"
proof -
  define inb where "inb = enc_phys_rw \<lparr>pr_offset = offset, pr_length = len, pr_reserved = 0\<rparr> @ take (unat len) buf"
  have n: "length inb = 16 + unat len" using len by (simp add: inb_def)
  obtain pad where p: "length inb + length pad = max (length inb) 0"
    "client_ioctl dev cl IOCTL_KND_PHYS_WRITE inb 0 g =
       (case device_control env c
             \<lparr>IoControlCode = IOCTL_KND_PHYS_WRITE, InputBufferLength = word_of_nat (length inb),
              OutputBufferLength = word_of_nat 0, SystemBuffer = inb @ pad\<rparr> of
            (status, info, c', buf) \<Rightarrow> (NT_SUCCESS status, info, take info buf, g\<lparr>g_Knd := Some c'\<rparr>))"
    using client_request [OF dev op g, of inb 0] n len by (auto simp: const_defs)
  then have pad: "pad = []" by simp
  have u: "unat (word_of_nat (length inb) :: u32) = 16 + unat len"
    using n len by (subst unat_small) (auto simp: const_defs)
  have nz: "len \<noteq> 0" using len by auto
  have "drop 16 inb = take (unat len) buf" by (simp add: inb_def)
  moreover have "dec_phys_rw inb = \<lparr>pr_offset = offset, pr_length = len, pr_reserved = 0\<rparr>"
    by (simp add: inb_def dec_phys_prefix)
  moreover have "KndScopedPhysCopy env c offset len (take (unat len) buf) True = (STATUS_SUCCESS,
      c\<lparr>rmem := mem_write (rmem c) (unat offset) (take (unat len) buf)\<rparr>, take (unat len) buf)"
    using scoped_copy_write [OF base len(1,2) inside _ reads, of "take (unat len) buf"] len by simp
  ultimately have "device_control env c
             \<lparr>IoControlCode = IOCTL_KND_PHYS_WRITE, InputBufferLength = word_of_nat (length inb),
              OutputBufferLength = word_of_nat 0, SystemBuffer = inb\<rparr> = (STATUS_SUCCESS, 0,
      c\<lparr>rmem := mem_write (rmem c) (unat offset) (take (unat len) buf)\<rparr>, take 16 inb @ take (unat len) buf)"
    using u len nz by (simp add: device_control_def ioctl_codes layout_defs not_less Let_def)
  then show ?thesis
    using p(2) pad nz len unfolding physWrite_def by (simp add: Let_def flip: inb_def)
qed

lemma physRead_driver:
  assumes dev: "buffered_device env dev" and op: "isOpen cl" and g: "g_Knd g = Some c"
    and base: "RingBase c \<noteq> 0" and reads: "phys_reads env (RingBase c) (unat (RingTotalSize c))"
    and len: "0 < unat len" "unat len \<le> KND_MAX_PHYS_RW" "length buf = unat len"
    and inside: "unat offset + unat len \<le> unat (RingTotalSize c)"
  shows "physRead dev cl offset buf len g = (True, mem_read (rmem c) (unat offset) (unat len), g)"
proof -
  define inb where "inb = enc_phys_rw \<lparr>pr_offset = offset, pr_length = len, pr_reserved = 0\<rparr>"
  have n: "length inb = 16" by (simp add: inb_def)
  obtain pad where p: "length inb + length pad = max (length inb) (unat len)"
    "client_ioctl dev cl IOCTL_KND_PHYS_READ inb (unat len) g =
       (case device_control env c
             \<lparr>IoControlCode = IOCTL_KND_PHYS_READ, InputBufferLength = word_of_nat (length inb),
              OutputBufferLength = word_of_nat (unat len), SystemBuffer = inb @ pad\<rparr> of
            (status, info, c', buf) \<Rightarrow> (NT_SUCCESS status, info, take info buf, g\<lparr>g_Knd := Some c'\<rparr>))"
    using client_request [OF dev op g, of inb "unat len"] n by auto
  have nz: "len \<noteq> 0" using len by auto
  have sb: "unat len \<le> length (inb @ pad)" using p(1) by simp
  have "KndScopedPhysCopy env c offset len (inb @ pad) False =
      (STATUS_SUCCESS, c, put_at (inb @ pad) 0 (mem_read (rmem c) (unat offset) (unat len)))"
    by (rule scoped_copy_read [OF base len(1,2) inside sb reads])
  moreover have "dec_phys_rw (inb @ pad) = \<lparr>pr_offset = offset, pr_length = len, pr_reserved = 0\<rparr>"
    by (simp add: inb_def dec_phys_prefix)
  ultimately have "device_control env c
             \<lparr>IoControlCode = IOCTL_KND_PHYS_READ, InputBufferLength = word_of_nat (length inb),
              OutputBufferLength = word_of_nat (unat len), SystemBuffer = inb @ pad\<rparr> =
      (STATUS_SUCCESS, unat len, c, put_at (inb @ pad) 0 (mem_read (rmem c) (unat offset) (unat len)))"
    using n len nz by (simp add: device_control_def ioctl_codes layout_defs not_less Let_def)
  moreover have "take (unat len) (put_at (inb @ pad) 0 (mem_read (rmem c) (unat offset) (unat len)))
      = mem_read (rmem c) (unat offset) (unat len)"
    using take_put_at_0 [of "mem_read (rmem c) (unat offset) (unat len)"] by simp
  moreover have "g\<lparr>g_Knd := Some c\<rparr> = g" using g by simp
  ultimately show ?thesis
    using p(2) nz len unfolding physRead_def by (simp add: Let_def put_at_all flip: inb_def)
qed

section \<open>Properties of the client\<close>

definition small_client :: knd_client where
  "small_client = \<lparr>cl_h = 3, cl_ring = 0x20000, cl_data = 0x21000, cl_dataSize = 0x10000, cl_mappedSize = 0x11000\<rparr>"



text \<open>
  What is written through the control path is read back. With the device open, the region mapped
  by the driver and address translation that works as the driver relies on, writing bytes inside
  the region succeeds, and reading the same range returns them.
\<close>

theorem phys_write_read:
  assumes "buffered_device env dev" "isOpen cl" "g_Knd g = Some c" "RingBase c \<noteq> 0"
    and "phys_reads env (RingBase c) (unat (RingTotalSize c))"
    and "0 < unat len" "unat len \<le> KND_MAX_PHYS_RW" "length buf = unat len" "length out = unat len"
    and "unat offset + unat len \<le> unat (RingTotalSize c)"
  shows "\<exists>g'. physWrite dev cl offset buf len g = (True, g') \<and> physRead dev cl offset out len g' = (True, buf, g')"
proof -
  let ?c = "c\<lparr>rmem := mem_write (rmem c) (unat offset) buf\<rparr>"
  have "physWrite dev cl offset buf len g = (True, g\<lparr>g_Knd := Some ?c\<rparr>)"
    using physWrite_driver [OF assms(1-7) _ assms(10), of buf] assms(8) by simp
  moreover have "physRead dev cl offset out len (g\<lparr>g_Knd := Some ?c\<rparr>) = (True, buf, g\<lparr>g_Knd := Some ?c\<rparr>)"
    using physRead_driver [OF assms(1,2), of "g\<lparr>g_Knd := Some ?c\<rparr>" ?c len out offset] assms(4-10)
    by (simp add: mem_read_write_same)
  ultimately show ?thesis by blast
qed

definition plain_device :: "knd_sys device" where
  "plain_device g h code inb outLen =
     (case KndDispatchDeviceControl plain_env (g_Knd g)
        \<lparr>IoControlCode = code, InputBufferLength = word_of_nat (length inb),
         OutputBufferLength = word_of_nat outLen,
         SystemBuffer = inb @ replicate (outLen - length inb) 0\<rparr> of
        (status, info, k, buf) \<Rightarrow> (NT_SUCCESS status, info, take info buf, g\<lparr>g_Knd := k\<rparr>))"

lemma plain_device_buffered: "buffered_device plain_env plain_device"
  unfolding buffered_device_def
proof (intro allI impI)
  fix g :: knd_sys and h code and inb :: bytes and outLen :: nat
  show "\<exists>pad. length inb + length pad = max (length inb) outLen
        \<and> plain_device g h code inb outLen =
          (case KndDispatchDeviceControl plain_env (g_Knd g)
             \<lparr>IoControlCode = code, InputBufferLength = word_of_nat (length inb),
              OutputBufferLength = word_of_nat outLen, SystemBuffer = inb @ pad\<rparr> of
            (status, info, k, buf) \<Rightarrow> (NT_SUCCESS status, info, take info buf, g\<lparr>g_Knd := k\<rparr>))"
    by (rule exI [of _ "replicate (outLen - length inb) 0"]) (simp add: plain_device_def)
qed

theorem phys_write_read_witness:
  "\<exists>g'. physWrite plain_device small_client 0xFFE [9, 8, 7, 6] 4 small_sys = (True, g')
     \<and> physRead plain_device small_client 0xFFE [0, 0, 0, 0] 4 g' = (True, [9, 8, 7, 6], g')"
  by (rule phys_write_read [OF plain_device_buffered _ small_sys_fields])
    (simp_all add: small_client_def isOpen_def INVALID_HANDLE_VALUE_def plain_env_reads const_defs)

text \<open>
  Mapping attaches the client to the ring. On a device whose ring is not taken by another process,
  with the header that creation wrote, the request succeeds and the client's base, data pointer
  and size are those of the driver's ring, so that polls read what the driver appends.
\<close>

theorem mapRing_attaches:
  assumes "buffered_device env dev" "isOpen cl" "g_Knd g = Some c"
    and "KndMapRingToUser env c = (STATUS_SUCCESS, Some out, c')"
    and "view (g\<lparr>g_Knd := Some c'\<rparr>) (UserVa c') = rmem c'"
    and "ld32 (rmem c') hdr_magic = KND_RING_MAGIC" "ld32 (rmem c') hdr_version = KND_PROTOCOL_VERSION"
    and "UserVa c' + word_of_nat KND_RING_DATA_OFFSET \<noteq> 0"
  shows "\<exists>cl'. mapRing dev view cl g = (True, cl', g\<lparr>g_Knd := Some c'\<rparr>) \<and> isMapped cl' \<and> attached cl' c'
     \<and> cl_mappedSize cl' = RingTotalSize c'"
  using mapRing_driver [where view = view, OF assms(1-7)] map_ring_owner [OF assms(4)] assms(8)
  by (simp add: isMapped_def attached_def)

theorem mapRing_attaches_witness:
  "\<exists>cl' g'. mapRing plain_device (\<lambda>g va. case g_Knd g of Some c \<Rightarrow> rmem c | None \<Rightarrow> (\<lambda>_. 0))
     (new_client\<lparr>cl_h := 3\<rparr>) small_sys = (True, cl', g') \<and> attached cl' small_ctx"
proof -
  let ?view = "\<lambda>(g :: knd_sys) (va :: u64). case g_Knd g of Some c \<Rightarrow> rmem c | None \<Rightarrow> (\<lambda>_. 0)"
  let ?c = "small_ctx\<lparr>UserVa := 0x20000, MapProcess := 40, kmaps := {(40, 0x20000)}\<rparr>"
  have map: "KndMapRingToUser plain_env small_ctx = (STATUS_SUCCESS, Some (map_ring_out small_ctx 0x20000), ?c)"
    by (simp add: KndMapRingToUser_def plain_env_def)
  have hdr: "ld32 (rmem small_ctx) hdr_magic = KND_RING_MAGIC" "ld32 (rmem small_ctx) hdr_version = KND_PROTOCOL_VERSION"
    by (simp_all add: small_ctx_def KndRingCreate_def Let_def init_header_def mem_simps layout_defs)
  have "\<exists>cl'. mapRing plain_device ?view (new_client\<lparr>cl_h := 3\<rparr>) small_sys = (True, cl', small_sys\<lparr>g_Knd := Some ?c\<rparr>)
      \<and> isMapped cl' \<and> attached cl' ?c \<and> cl_mappedSize cl' = RingTotalSize ?c"
    by (rule mapRing_attaches [OF plain_device_buffered _ small_sys_fields map])
      (simp_all add: hdr isOpen_def INVALID_HANDLE_VALUE_def const_defs)
  then show ?thesis by (auto simp: attached_def)
qed

text \<open>
  The check of a record's length in the loop compares it with the whole data area, not with what
  is left of it behind the offset. A length field that a fault has changed is accepted at the
  end of the data area, and the record handed over then reaches past the mapped region.
\<close>

lemma poll_overread:
  fixes sz :: u32
  assumes "power_size sz" "rp < wp" "unat rp mod unat sz = unat sz - 24"
    and "ld32 m (data_addr (unat sz - 24)) = sz" "ld16 m (data_addr (unat sz - 24) + 4) \<noteq> KND_REC_WRAP"
    and "wp \<le> rp + ucast sz"
  shows "poll_loop m KND_RING_DATA_OFFSET sz wp rp [] =
    Some (rp + ucast sz, [mem_read m (data_addr (unat sz - 24)) (unat sz)])"
proof -
  obtain k where k: "16 \<le> k" "k \<le> 31" "sz = 2 ^ k" using assms(1) by (auto simp: power_size_def)
  then have u: "unat sz = 2 ^ k" by (simp add: unat_two_power)
  have ge: "(2 :: nat) ^ 16 \<le> 2 ^ k" using k(1) by (intro power_increasing) auto
  have "8 dvd unat sz" unfolding u using le_imp_power_dvd [of 3 k 2] k(1) by simp
  moreover have "sizeof_RECORD \<le> unat sz" using ge u by (simp add: sizeof_RECORD_def)
  ultimately have "poll_loop m KND_RING_DATA_OFFSET sz wp rp [] =
    poll_loop m KND_RING_DATA_OFFSET sz wp (rp + word_of_nat (unat sz))
      ([] @ visible [mem_read m (data_addr (unat rp mod unat sz)) (unat sz)])"
    using assms(3,4) by (intro poll_loop_step [OF assms(1,2)]) simp_all
  moreover have "(word_of_nat (unat sz) :: u64) = ucast sz"
    by (simp add: word_eq_iff_unsigned [where ?'a = nat] unat_of_nat)
  moreover have "rec_visible (mem_read m (data_addr (unat sz - 24)) (unat sz))"
    using assms(5) ge u by (simp add: rec_visible_def mem_read_type)
  ultimately show ?thesis
    using assms(3,6) by (simp add: visible_def poll_loop_done not_less)
qed

end
