(* ===== verification/Knd_Channel.thy ===== *)
theory Knd_Channel
  imports Knd_Client
begin

text \<open>
  Producer and consumer together. \<open>record_channel\<close> is the contract between a writer and a reader
  of records; the append of \<^verbatim>\<open>ring.c\<close> and the poll of \<^verbatim>\<open>knd_client.cpp\<close> are shown to satisfy
  it. A step relation then interleaves the two at the grain of their memory barriers.
\<close>

section \<open>The channel between producer and consumer\<close>

text \<open>
  What writer and reader promise each other: a state holds a list of pending records, within a
  budget of appends; an accepted append adds a record that carries its argument at the end, a
  refused one changes nothing, and a poll hands over everything pending.
\<close>

datatype 'a chan_op = Send 'a | Receive

primrec sends :: "'a chan_op list \<Rightarrow> nat" where
  "sends [] = 0"
| "sends (x # xs) = (case x of Send _ \<Rightarrow> 1 | Receive \<Rightarrow> 0) + sends xs"

text \<open>A run: the arguments accepted, the records delivered, and the final state.\<close>

primrec chan_run :: "('a \<Rightarrow> 's \<Rightarrow> bool \<times> 's) \<Rightarrow> ('s \<Rightarrow> ('r list \<times> 's) option) \<Rightarrow> 'a chan_op list \<Rightarrow> 's \<Rightarrow>
    ('a list \<times> 'r list \<times> 's) option" where
  "chan_run send recv [] s = Some ([], [], s)"
| "chan_run send recv (x # xs) s =
     (case x of
        Send a \<Rightarrow> (case send a s of (ok, s1) \<Rightarrow>
          (case chan_run send recv xs s1 of None \<Rightarrow> None
           | Some (acc, del, s2) \<Rightarrow> Some ((if ok then a # acc else acc), del, s2)))
      | Receive \<Rightarrow> (case recv s of None \<Rightarrow> None
          | Some (rs, s1) \<Rightarrow> (case chan_run send recv xs s1 of None \<Rightarrow> None
              | Some (acc, del, s2) \<Rightarrow> Some (acc, rs @ del, s2))))"

locale record_channel =
  fixes holds :: "nat \<Rightarrow> 's \<Rightarrow> 'r list \<Rightarrow> bool"
    and valid :: "'a \<Rightarrow> bool"
    and carries :: "'a \<Rightarrow> 'r \<Rightarrow> bool"
    and send :: "'a \<Rightarrow> 's \<Rightarrow> bool \<times> 's"
    and recv :: "'s \<Rightarrow> ('r list \<times> 's) option"
  assumes send_accepts: "\<lbrakk>holds (Suc n) s rs; valid a; send a s = (True, s')\<rbrakk>
      \<Longrightarrow> \<exists>r. carries a r \<and> holds n s' (rs @ [r])"
    and send_refuses: "\<lbrakk>holds (Suc n) s rs; valid a; send a s = (False, s')\<rbrakk> \<Longrightarrow> holds n s' rs"
    and recv_all: "holds n s rs \<Longrightarrow> \<exists>s'. recv s = Some (rs, s') \<and> holds n s' []"
begin

text \<open>First in, first out, each accepted record delivered exactly once or still pending.\<close>

lemma fifo:
  assumes "holds (n + sends ops) s rs" "\<forall>a. Send a \<in> set ops \<longrightarrow> valid a"
  shows "\<exists>acc del s' new rs'. chan_run send recv ops s = Some (acc, del, s') \<and> holds n s' rs'
     \<and> list_all2 carries acc new \<and> del @ rs' = rs @ new"
  using assms
proof (induction ops arbitrary: s rs)
  case Nil
  then show ?case by (auto intro!: exI [of _ rs])
next
  case (Cons x xs)
  show ?case
  proof (cases x)
    case (Send a)
    have v: "valid a" using Cons.prems(2) Send by simp
    have hs: "holds (Suc (n + sends xs)) s rs" using Cons.prems(1) Send by simp
    obtain ok s1 where w: "send a s = (ok, s1)" by fastforce
    show ?thesis
    proof (cases ok)
      case True
      obtain r where r: "carries a r" "holds (n + sends xs) s1 (rs @ [r])"
        using send_accepts [OF hs v, of s1] w True by auto
      from Cons.IH [OF r(2)] Cons.prems(2) obtain acc del s' new rs' where
        "chan_run send recv xs s1 = Some (acc, del, s')" "holds n s' rs'"
        "list_all2 carries acc new" "del @ rs' = (rs @ [r]) @ new" by auto
      then show ?thesis
        using Send w True r(1)
        by (intro exI [of _ "a # acc"] exI [of _ del] exI [of _ s'] exI [of _ "r # new"] exI [of _ rs']) simp
    next
      case False
      from Cons.IH [OF send_refuses [OF hs v]] Cons.prems(2) w False show ?thesis
        using Send by fastforce
    qed
  next
    case Receive
    then obtain s1 where r: "recv s = Some (rs, s1)" "holds (n + sends xs) s1 []"
      using recv_all Cons.prems(1) by fastforce
    from Cons.IH [OF r(2)] Cons.prems(2) obtain acc del s' new rs' where
      "chan_run send recv xs s1 = Some (acc, del, s')" "holds n s' rs'"
      "list_all2 carries acc new" "del @ rs' = new" by auto
    then show ?thesis using Receive r(1) by auto
  qed
qed

end

subsection \<open>The capture ring is such a channel\<close>

record ring_args =
  ra_type :: u16
  ra_flags :: u16
  ra_payload :: "bytes option"
  ra_data :: "bytes option"
  ra_time :: u64

definition ring_send :: "ring_args \<Rightarrow> 'a knd_ring_scheme \<Rightarrow> bool \<times> 'a knd_ring_scheme" where
  "ring_send a c = KndRingWrite c (ra_type a) (ra_flags a) (ra_payload a)
     (word_of_nat (length (opt_bytes (ra_payload a)))) (ra_data a)
     (word_of_nat (length (opt_bytes (ra_data a)))) (ra_time a)"

definition ring_receive :: "knd_client \<Rightarrow> 'a knd_ring_scheme \<Rightarrow> (bytes list \<times> 'a knd_ring_scheme) option" where
  "ring_receive cl c = map_option (\<lambda>(rs, m). (rs, c\<lparr>rmem := m\<rparr>)) (poll cl (rmem c))"

definition args_ok :: "ring_args \<Rightarrow> bool" where
  "args_ok a \<longleftrightarrow> ra_type a \<noteq> KND_REC_WRAP
     \<and> sizeof_RECORD + length (opt_bytes (ra_payload a)) + length (opt_bytes (ra_data a)) + 7 < 2 ^ 32"

definition args_record :: "ring_args \<Rightarrow> bytes \<Rightarrow> bool" where
  "args_record a = is_record (ra_type a) (ra_flags a) (opt_bytes (ra_payload a) @ opt_bytes (ra_data a))"

definition ring_holds :: "knd_client \<Rightarrow> nat \<Rightarrow> 'a knd_ring_scheme \<Rightarrow> bytes list \<Rightarrow> bool" where
  "ring_holds cl n c rs \<longleftrightarrow> attached cl c \<and> wpos c + (n + 1) * dsize c < 2 ^ 64
     \<and> (\<exists>raw. ring_ok c raw \<and> visible raw = rs)"

lemma ring_send_appended:
  assumes "ring_ok c raw" "wpos c + dsize c < 2 ^ 64" "args_ok a"
  shows "appended c raw (ra_type a) (ra_flags a) (opt_bytes (ra_payload a) @ opt_bytes (ra_data a)) (ring_send a c)"
proof -
  have "write_args (ra_payload a) (word_of_nat (length (opt_bytes (ra_payload a)))) (ra_data a)
      (word_of_nat (length (opt_bytes (ra_data a))))"
    using assms(3) by (simp add: write_args_def args_ok_def unat_of_nat)
  moreover have "rpos c + dsize c < 2 ^ 64" using ring_okD(5) [OF assms(1)] assms(2) by linarith
  ultimately show ?thesis
    unfolding ring_send_def using assms(1,3) by (intro KndRingWrite_appended) (simp_all add: args_ok_def)
qed

lemma ring_send_holds:
  assumes "ring_holds cl (Suc n) c rs" "args_ok a" "ring_send a c = (ok, c')"
  shows "if ok then \<exists>r. args_record a r \<and> ring_holds cl n c' (rs @ [r]) else ring_holds cl n c' rs"
proof -
  obtain raw where raw: "ring_ok c raw" "visible raw = rs" "attached cl c"
    and pos: "wpos c + (Suc n + 1) * dsize c < 2 ^ 64"
    using assms(1) by (auto simp: ring_holds_def)
  have one: "dsize c \<le> (Suc n + 1) * dsize c" by simp
  have "wpos c + dsize c < 2 ^ 64" using pos one by linarith
  note ap = ring_send_appended [OF raw(1) this assms(2), unfolded assms(3)]
  then obtain rs' r where a: "ring_ok c' rs'"
      "if ok then args_record a r \<and> visible rs' = visible raw @ [r] else rs' = raw"
      "RingDataSize c' = RingDataSize c" "wpos c' \<le> wpos c + dsize c"
    unfolding appended_def args_record_def by auto
  have "wpos c' + (n + 1) * dsize c' < 2 ^ 64"
    using a(3,4) pos by (simp add: algebra_simps)
  moreover have "attached cl c'" using raw(3) a(3) by (auto simp: attached_def)
  ultimately have "ring_holds cl n c' (visible rs')" using a(1) by (auto simp: ring_holds_def)
  then show ?thesis using a(2) raw(2) by (cases ok) auto
qed

lemma ring_receive_holds:
  assumes "ring_holds cl n c rs"
  shows "\<exists>c'. ring_receive cl c = Some (rs, c') \<and> ring_holds cl n c' []"
proof -
  obtain raw where raw: "ring_ok c raw" "visible raw = rs" "attached cl c"
    using assms by (auto simp: ring_holds_def)
  have "ring_holds cl n (c\<lparr>rmem := st64 (rmem c) hdr_readPos (WritePos c)\<rparr>) []"
    using assms ring_ok_consumed [OF raw(1)] by (auto simp: ring_holds_def attached_def intro!: exI [of _ "[]"])
  then show ?thesis using poll_ring [OF raw(1,3)] raw(2) by (auto simp: ring_receive_def)
qed

interpretation ring_channel: record_channel "ring_holds cl" args_ok args_record ring_send "ring_receive cl" for cl
proof unfold_locales
  show "\<exists>r. args_record a r \<and> ring_holds cl n c' (rs @ [r])"
    if "ring_holds cl (Suc n) c rs" "args_ok a" "ring_send a c = (True, c')" for n c rs a c'
    using ring_send_holds [OF that] by simp
  show "ring_holds cl n c' rs"
    if "ring_holds cl (Suc n) c rs" "args_ok a" "ring_send a c = (False, c')" for n c rs a c'
    using ring_send_holds [OF that] by simp
  show "\<exists>c'. ring_receive cl c = Some (rs, c') \<and> ring_holds cl n c' []"
    if "ring_holds cl n c rs" for n c rs
    by (rule ring_receive_holds [OF that])
qed

section \<open>Delivery\<close>

text \<open>
  C12. The ring is a first-in first-out channel. For any sequence of appends and polls on a ring that
  starts empty, every poll returns, and the records delivered followed by those still pending
  are exactly the accepted appends in order, each with its type, flags and body: none lost,
  repeated, reordered or invented. The bound keeps the 64-bit positions from wrapping.
\<close>

theorem ring_fifo:
  assumes "ring_ok c []" "attached cl c" "\<forall>a. Send a \<in> set ops \<longrightarrow> args_ok a"
    and "wpos c + (sends ops + 1) * dsize c < 2 ^ 64"
  shows "\<exists>acc del c' raw. chan_run ring_send (ring_receive cl) ops c = Some (acc, del, c')
     \<and> ring_ok c' raw \<and> list_all2 args_record acc (del @ visible raw)"
proof -
  have "ring_holds cl (0 + sends ops) c []"
    using assms(1,2,4) by (auto simp: ring_holds_def intro!: exI [of _ "[]"])
  from ring_channel.fifo [OF this assms(3)] show ?thesis
    by (fastforce simp: ring_holds_def)
qed

theorem ring_fifo_witness:
  "\<exists>acc del c' raw. chan_run ring_send (ring_receive small_client)
     [Send \<lparr>ra_type = 3, ra_flags = 0, ra_payload = Some [1], ra_data = Some [2, 3], ra_time = 0\<rparr>, Receive,
      Send \<lparr>ra_type = 2, ra_flags = 0, ra_payload = None, ra_data = None, ra_time = 1\<rparr>] small_ring = Some (acc, del, c')
     \<and> ring_ok c' raw \<and> list_all2 args_record acc (del @ visible raw)"
  by (rule ring_fifo [OF small_ring_ok])
    (auto simp: attached_def small_client_def args_ok_def opt_bytes_def const_defs layout_defs)

section \<open>Interleaving producer and consumer\<close>

text \<open>
  Both sides run at once. The producer's lock makes its appends take turns, but the consumer sees
  the bytes of an append and its publication as two events, and its own poll is a load of both
  positions, one event per record and a final store. The state adds to the ring what has been
  filled but not published, the consumer's snapshot and local position, and the history.
\<close>

record spsc =
  sp_ring :: knd_ring
  sp_pending :: "(u32 \<times> ring_args) option"
  sp_reader :: "(u64 \<times> u64) option"
  sp_sent :: "ring_args list"
  sp_got :: "bytes list"

abbreviation payload_len :: "ring_args \<Rightarrow> u32" where
  "payload_len a \<equiv> word_of_nat (length (opt_bytes (ra_payload a)))"
abbreviation data_len :: "ring_args \<Rightarrow> u32" where
  "data_len a \<equiv> word_of_nat (length (opt_bytes (ra_data a)))"

definition record_at :: "knd_ring \<Rightarrow> u64 \<Rightarrow> nat" where
  "record_at c rp = data_addr (unat (ucast (rp AND ucast (RingDataSize c - 1)) :: u32))"

definition bad_length :: "knd_ring \<Rightarrow> u32 \<Rightarrow> bool" where
  "bad_length c len \<longleftrightarrow> len < 24 \<or> len AND 7 \<noteq> 0 \<or> len > RingDataSize c"

inductive spsc_step :: "spsc \<Rightarrow> spsc \<Rightarrow> bool" where
  fill: "\<lbrakk>sp_pending s = None; args_ok a; rpos (sp_ring s) + dsize (sp_ring s) < 2 ^ 64;
     ring_plan (sp_ring s) (ring_rec_len (payload_len a) (data_len a)) = Place off pad len tot\<rbrakk>
   \<Longrightarrow> spsc_step s (s\<lparr>sp_ring := ring_fill (sp_ring s) off pad len (ra_type a) (ra_flags a) (ra_payload a)
         (payload_len a) (ra_data a) (data_len a) (ra_time a), sp_pending := Some (tot, a)\<rparr>)"
| drop: "\<lbrakk>sp_pending s = None; ring_plan (sp_ring s) (ring_rec_len (payload_len a) (data_len a)) = Drop n\<rbrakk>
   \<Longrightarrow> spsc_step s (s\<lparr>sp_ring := ring_drop (sp_ring s) n\<rparr>)"
| publish: "sp_pending s = Some (tot, a)
   \<Longrightarrow> spsc_step s (s\<lparr>sp_ring := ring_publish (sp_ring s) tot, sp_pending := None, sp_sent := sp_sent s @ [a]\<rparr>)"
| load: "sp_reader s = None
   \<Longrightarrow> spsc_step s (s\<lparr>sp_reader := Some (ld64 (rmem (sp_ring s)) hdr_writePos, ld64 (rmem (sp_ring s)) hdr_readPos)\<rparr>)"
| resync: "\<lbrakk>sp_reader s = Some (wp, rp); rp < wp;
     bad_length (sp_ring s) (ld32 (rmem (sp_ring s)) (record_at (sp_ring s) rp))\<rbrakk>
   \<Longrightarrow> spsc_step s (s\<lparr>sp_reader := Some (wp, wp)\<rparr>)"
| read_record: "\<lbrakk>sp_reader s = Some (wp, rp); rp < wp; len = ld32 (rmem (sp_ring s)) (record_at (sp_ring s) rp);
     \<not> bad_length (sp_ring s) len\<rbrakk>
   \<Longrightarrow> spsc_step s (s\<lparr>sp_reader := Some (wp, rp + ucast len),
         sp_got := sp_got s @ (if ld16 (rmem (sp_ring s)) (record_at (sp_ring s) rp + 4) \<noteq> KND_REC_WRAP
           then [mem_read (rmem (sp_ring s)) (record_at (sp_ring s) rp) (unat len)] else [])\<rparr>)"
| store: "\<lbrakk>sp_reader s = Some (wp, rp); \<not> rp < wp\<rbrakk>
   \<Longrightarrow> spsc_step s (s\<lparr>sp_ring := (sp_ring s)\<lparr>rmem := st64 (rmem (sp_ring s)) hdr_readPos rp\<rparr>, sp_reader := None\<rparr>)"

subsection \<open>Chains and positions\<close>

definition bytes_of :: "bytes list \<Rightarrow> nat" where
  "bytes_of rs = sum_list (map length rs)"

lemma bytes_of_simps [simp]: "bytes_of [] = 0" "bytes_of (r # rs) = length r + bytes_of rs"
  "bytes_of (xs @ ys) = bytes_of xs + bytes_of ys"
  by (simp_all add: bytes_of_def)

lemma chain_end: "ring_chain m sz wp p rs \<Longrightarrow> wp = p + bytes_of rs"
  by (induction rule: ring_chain.induct) auto

lemma chain_suffix: "ring_chain m sz wp p (xs @ ys) \<Longrightarrow> ring_chain m sz wp (p + bytes_of xs) ys"
proof (induction xs arbitrary: p)
  case Nil
  then show ?case by simp
next
  case (Cons x xs)
  from Cons.prems have "x # xs @ ys = x # (xs @ ys)" "ring_chain m sz wp p (x # (xs @ ys))" by simp_all
  then obtain len where "length x = len" "ring_chain m sz wp (p + len) (xs @ ys)"
    by (auto elim: chain_ConsE)
  with Cons.IH [of "p + len"] show ?case by (simp add: add.assoc)
qed

lemma chain_head:
  assumes "ring_chain m sz wp p (r # rs)"
  shows "r = mem_read m (data_addr (p mod sz)) (length r)" "unat (ld32 m (data_addr (p mod sz))) = length r"
    "sizeof_RECORD \<le> length r" "8 dvd length r" "length r \<le> sz" "p + length r \<le> wp"
  using assms by (auto elim!: chain_ConsE)

subsection \<open>The invariant\<close>

text \<open>
  The chain between the two positions has four parts: read but not given back, in the consumer's
  snapshot, published behind the snapshot, and filled but not published.
\<close>

definition pending_part :: "(u32 \<times> ring_args) option \<Rightarrow> bytes list \<Rightarrow> bool" where
  "pending_part pend f \<longleftrightarrow>
     (case pend of None \<Rightarrow> f = [] | Some (t, a) \<Rightarrow> \<exists>r. visible f = [r] \<and> args_record a r)"

definition reader_part :: "nat \<Rightarrow> (u64 \<times> u64) option \<Rightarrow> bytes list \<Rightarrow> bytes list \<Rightarrow> bool" where
  "reader_part R rd d n \<longleftrightarrow>
     (case rd of None \<Rightarrow> d = [] \<and> n = []
      | Some (wp, rp) \<Rightarrow> unat rp = R + bytes_of d \<and> unat wp = unat rp + bytes_of n)"

lemma part_simps [simp]:
  "pending_part None f \<longleftrightarrow> f = []"
  "pending_part (Some (t, a)) f \<longleftrightarrow> (\<exists>r. visible f = [r] \<and> args_record a r)"
  "reader_part R None d n \<longleftrightarrow> d = [] \<and> n = []"
  "reader_part R (Some (wp, rp)) d n \<longleftrightarrow> unat rp = R + bytes_of d \<and> unat wp = unat rp + bytes_of n"
  by (simp_all add: pending_part_def reader_part_def)

definition spsc_parts :: "spsc \<Rightarrow> bytes list \<Rightarrow> bytes list \<Rightarrow> bytes list \<Rightarrow> bytes list \<Rightarrow> bool" where
  "spsc_parts s done0 snap pub filled0 \<longleftrightarrow>
     (let c = sp_ring s
      in ring_wf c \<and> wpos c \<le> rpos c + dsize c
       \<and> ring_chain (rmem c) (dsize c) (wpos c) (rpos c) (done0 @ snap @ pub @ filled0)
       \<and> unat (ld64 (rmem c) hdr_writePos) = rpos c + bytes_of (done0 @ snap @ pub)
       \<and> pending_part (sp_pending s) filled0 \<and> reader_part (rpos c) (sp_reader s) done0 snap
       \<and> list_all2 args_record (sp_sent s) (sp_got s @ visible snap @ visible pub))"

definition spsc_inv :: "spsc \<Rightarrow> bool" where
  "spsc_inv s \<longleftrightarrow> (\<exists>d n p f. spsc_parts s d n p f)"

lemma spsc_partsD:
  assumes "spsc_parts s d n p f"
  shows "ring_wf (sp_ring s)" "wpos (sp_ring s) \<le> rpos (sp_ring s) + dsize (sp_ring s)"
    "ring_chain (rmem (sp_ring s)) (dsize (sp_ring s)) (wpos (sp_ring s)) (rpos (sp_ring s)) (d @ n @ p @ f)"
    "unat (ld64 (rmem (sp_ring s)) hdr_writePos) = rpos (sp_ring s) + bytes_of (d @ n @ p)"
    "list_all2 args_record (sp_sent s) (sp_got s @ visible n @ visible p)"
  using assms by (simp_all add: spsc_parts_def Let_def)

lemma idle_ring_ok:
  assumes "spsc_parts s d n p f" "sp_pending s = None"
  shows "ring_ok (sp_ring s) (d @ n @ p)" "f = []"
proof -
  show f: "f = []" using assms by (simp add: spsc_parts_def Let_def)
  have "unat (ld64 (rmem (sp_ring s)) hdr_writePos) = wpos (sp_ring s)"
    using chain_end [OF spsc_partsD(3) [OF assms(1)]] spsc_partsD(4) [OF assms(1)] f by simp
  then have "ld64 (rmem (sp_ring s)) hdr_writePos = WritePos (sp_ring s)"
    by (simp only: word_unat_eq_iff)
  with spsc_partsD [OF assms(1)] f show "ring_ok (sp_ring s) (d @ n @ p)" by (simp add: ring_ok_def)
qed

lemma plan_place:
  assumes "ring_wf c" "args_ok a"
    and "ring_plan c (ring_rec_len (payload_len a) (data_len a)) = Place off pad len tot"
  shows "write_args (ra_payload a) (payload_len a) (ra_data a) (data_len a)"
    "write_fits c (payload_len a) (data_len a)"
    "off = word_of_nat (wpos c mod dsize c)"
    "pad = word_of_nat (place_pad (dsize c) (wpos c) (write_size (payload_len a) (data_len a)))"
    "len = word_of_nat (place_len (dsize c) (wpos c) (write_size (payload_len a) (data_len a)))"
proof -
  show args: "write_args (ra_payload a) (payload_len a) (ra_data a) (data_len a)"
    using assms(2) by (simp add: write_args_def args_ok_def)
  have r: "unat (ring_rec_len (payload_len a) (data_len a)) = write_size (payload_len a) (data_len a)"
    using args by (intro unat_ring_rec_len) (simp add: write_args_def)
  note plan = ring_plan_correct [OF assms(1), of "ring_rec_len (payload_len a) (data_len a)", unfolded r assms(3)]
  then show "write_fits c (payload_len a) (data_len a)" by (auto split: if_splits)
  with plan show "off = word_of_nat (wpos c mod dsize c)"
    "pad = word_of_nat (place_pad (dsize c) (wpos c) (write_size (payload_len a) (data_len a)))"
    "len = word_of_nat (place_len (dsize c) (wpos c) (write_size (payload_len a) (data_len a)))"
    by simp_all
qed

lemma filled_wf:
  assumes "ring_wf c" "filled c n rs c1" "(wpos c + n) mod dsize c + 24 \<le> dsize c" "8 dvd n" "wpos c + n < 2 ^ 64"
  shows "ring_wf c1" "wpos c1 = wpos c + n" "rpos c1 = rpos c" "RingDataSize c1 = RingDataSize c"
    "ld64 (rmem c1) hdr_writePos = ld64 (rmem c) hdr_writePos"
proof -
  have c1: "c1 = c\<lparr>NextSequence := NextSequence c1, rmem := rmem c1, WritePos := WritePos c + word_of_nat n\<rparr>"
    and w: "WritePos c1 = WritePos c + word_of_nat n"
    using assms(2) by (auto simp: filled_def)
  show "ring_wf c1" using ring_wf_advance [OF assms(1,3,4) c1] .
  show "wpos c1 = wpos c + n" unfolding w using assms(5) by (simp add: unat_word_ariths unat_of_nat)
  show "RingDataSize c1 = RingDataSize c" by (rule filled_size [OF assms(2)])
  show "rpos c1 = rpos c" using filled_header [OF assms(2) hdr_in_header(3)] by simp
  have "hdr_writePos + 8 \<le> KND_RING_DATA_OFFSET" by (simp add: layout_defs const_defs)
  from filled_header [OF assms(2) this] show "ld64 (rmem c1) hdr_writePos = ld64 (rmem c) hdr_writePos" .
qed


subsection \<open>Every step keeps it\<close>

lemma keep_fill:
  assumes inv: "spsc_parts s d n p f" and pend: "sp_pending s = None" and a: "args_ok a"
    and top: "rpos (sp_ring s) + dsize (sp_ring s) < 2 ^ 64"
    and plan: "ring_plan (sp_ring s) (ring_rec_len (payload_len a) (data_len a)) = Place off pad len tot"
  shows "\<exists>f'. spsc_parts (s\<lparr>sp_ring := ring_fill (sp_ring s) off pad len (ra_type a) (ra_flags a) (ra_payload a)
         (payload_len a) (ra_data a) (data_len a) (ra_time a), sp_pending := Some (tot, a)\<rparr>) d n p f'"
proof -
  let ?c = "sp_ring s"
  define np where "np = place_pad (dsize ?c) (wpos ?c) (write_size (payload_len a) (data_len a))"
  define nl where "nl = place_len (dsize ?c) (wpos ?c) (write_size (payload_len a) (data_len a))"
  note wf = spsc_partsD(1) [OF inv]
  note pl = plan_place [OF wf a plan, folded np_def nl_def]
  define c1 where "c1 = ring_fill ?c off pad len (ra_type a) (ra_flags a) (ra_payload a)
         (payload_len a) (ra_data a) (data_len a) (ra_time a)"
  note ok = idle_ring_ok [OF inv pend]
  define R where "R = rec_bytes (word_of_nat nl) (ra_type a) (ra_flags a) (NextSequence c1) (ra_time a)
      (opt_bytes (ra_payload a) @ opt_bytes (ra_data a))"
  obtain w where w: "visible w = []" and fill: "filled ?c (np + nl) ((d @ n @ p) @ w @ [R]) c1"
    using fill_chain [OF ok(1) pl(1,2), of "ra_type a" "ra_flags a" "ra_time a"]
    unfolding c1_def R_def pl(3-5) np_def nl_def by blast
  note place = write_place [OF wf pl(2), folded np_def nl_def]
  have lt: "nl < 2 ^ 32" using place(1) ring_wf_size_bounds [OF wf] by simp
  have pos: "(wpos ?c + (np + nl)) mod dsize ?c + 24 \<le> dsize ?c" "8 dvd np + nl"
    "wpos ?c + (np + nl) \<le> rpos ?c + dsize ?c" "wpos ?c + (np + nl) < 2 ^ 64"
    using place top by (simp_all add: add.assoc)
  note c1 = filled_wf [OF wf fill pos(1,2,4)]
  have R: "args_record a R"
    unfolding args_record_def R_def using rec_bytes_facts(3) [OF pl(1) place(3) lt] pl(1)
    by (intro is_record_rec_bytes) (simp add: write_args_def)
  have "visible (w @ [R]) = [R]"
    using w R a is_record_visible unfolding args_record_def args_ok_def by (simp add: visible_def)
  with R have new: "\<exists>r. visible (w @ [R]) = [r] \<and> args_record a r" by blast
  have chain: "ring_chain (rmem c1) (dsize ?c) (wpos ?c + (np + nl)) (rpos ?c) (d @ n @ p @ w @ [R])"
    using fill by (simp add: filled_def)
  show ?thesis
    using inv new chain c1 pos(3) unfolding c1_def [symmetric]
    by (intro exI [of _ "w @ [R]"]) (simp add: spsc_parts_def Let_def del: visible_append)
qed

lemma keep_publish:
  assumes inv: "spsc_parts s d n p f" and pend: "sp_pending s = Some (tot, a)"
  shows "spsc_parts (s\<lparr>sp_ring := ring_publish (sp_ring s) tot, sp_pending := None, sp_sent := sp_sent s @ [a]\<rparr>)
     d n (p @ f) []"
proof -
  let ?c = "sp_ring s"
  note D = spsc_partsD [OF inv]
  obtain r where r: "visible f = [r]" "args_record a r"
    using inv pend by (auto simp: spsc_parts_def Let_def)
  have wf: "ring_wf (ring_publish ?c tot)" using D(1) by (auto simp: ring_wf_def)
  have chain: "ring_chain (rmem (ring_publish ?c tot)) (dsize ?c) (wpos ?c) (rpos ?c) (d @ n @ p @ f)"
    by (rule chain_cong [OF D(3)]) (rule ring_publish_data)
  have "list_all2 args_record (sp_sent s @ [a]) ((sp_got s @ visible n @ visible p) @ visible f)"
    using D(5) r by (intro list_all2_appendI) simp_all
  then show ?thesis
    using inv wf chain chain_end [OF D(3)]
    by (simp add: spsc_parts_def Let_def ring_publish_header)
qed

lemma keep_drop:
  assumes "spsc_parts s d n p f"
  shows "spsc_parts (s\<lparr>sp_ring := ring_drop (sp_ring s) t\<rparr>) d n p f"
proof -
  let ?c = "sp_ring s"
  have "ring_chain (rmem (ring_drop ?c t)) (dsize ?c) (wpos ?c) (rpos ?c) (d @ n @ p @ f)"
    by (rule chain_cong [OF spsc_partsD(3) [OF assms]]) (rule ring_drop_data)
  with assms show ?thesis by (simp add: spsc_parts_def Let_def ring_drop_header)
qed

lemma keep_load:
  assumes inv: "spsc_parts s d n p f" and idle: "sp_reader s = None"
  shows "spsc_parts (s\<lparr>sp_reader := Some (ld64 (rmem (sp_ring s)) hdr_writePos, ld64 (rmem (sp_ring s)) hdr_readPos)\<rparr>)
    [] p [] f"
proof -
  have "d = []" "n = []" using inv idle by (simp_all add: spsc_parts_def Let_def)
  with inv show ?thesis by (simp add: spsc_parts_def Let_def)
qed

text \<open>The record at the consumer's position is the first of its snapshot.\<close>

lemma reader_head:
  assumes inv: "spsc_parts s d n p f" and rd: "sp_reader s = Some (wp, rp)" and lt: "rp < wp"
  obtains r n' where "n = r # n'" "record_at (sp_ring s) rp = data_addr (unat rp mod dsize (sp_ring s))"
    "r = mem_read (rmem (sp_ring s)) (record_at (sp_ring s) rp) (length r)"
    "unat (ld32 (rmem (sp_ring s)) (record_at (sp_ring s) rp)) = length r"
    "\<not> bad_length (sp_ring s) (ld32 (rmem (sp_ring s)) (record_at (sp_ring s) rp))"
    "unat (rp + word_of_nat (length r)) = unat rp + length r" "6 \<le> length r"
proof -
  let ?c = "sp_ring s" and ?m = "rmem (sp_ring s)"
  have rp: "unat rp = rpos ?c + bytes_of d" "unat wp = unat rp + bytes_of n"
    using inv rd by (simp_all add: spsc_parts_def Let_def)
  have "n \<noteq> []" using rp lt by (auto simp: word_less_nat_alt)
  then obtain r n' where n: "n = r # n'" by (cases n) auto
  note D = spsc_partsD [OF inv]
  have "ring_chain ?m (dsize ?c) (wpos ?c) (unat rp) (r # (n' @ p @ f))"
    using chain_suffix [OF D(3)] n rp by simp
  note h = chain_head [OF this]
  obtain k where k: "k \<le> 31" "RingDataSize ?c = 2 ^ k" using ring_wf_size [OF D(1)] by metis
  have at: "record_at ?c rp = data_addr (unat rp mod dsize ?c)"
    unfolding record_at_def by (simp only: mask_offset [OF k])
  have len: "unat (ld32 ?m (record_at ?c rp)) = length r" using h(2) by (simp add: at)
  then have "\<not> bad_length ?c (ld32 ?m (record_at ?c rp))"
    using h(3-5) by (simp add: bad_length_def and_7 word_less_nat_alt sizeof_RECORD_def)
  moreover have "unat rp + length r < 2 ^ 64"
    using le_less_trans [OF h(6) unat_u64_lt] by simp
  then have "unat (rp + word_of_nat (length r)) = unat rp + length r"
    by (simp add: unat_word_ariths unat_of_nat)
  moreover have "r = mem_read ?m (record_at ?c rp) (length r)" using h(1) by (simp only: at)
  ultimately show thesis using n at len h(3) by (intro that [of r n']) (simp_all add: sizeof_RECORD_def)
qed

lemma keep_read:
  assumes inv: "spsc_parts s d n p f" and rd: "sp_reader s = Some (wp, rp)" and lt: "rp < wp"
    and len: "len = ld32 (rmem (sp_ring s)) (record_at (sp_ring s) rp)"
  shows "\<exists>d' n'. spsc_parts (s\<lparr>sp_reader := Some (wp, rp + ucast len),
         sp_got := sp_got s @ (if ld16 (rmem (sp_ring s)) (record_at (sp_ring s) rp + 4) \<noteq> KND_REC_WRAP
           then [mem_read (rmem (sp_ring s)) (record_at (sp_ring s) rp) (unat len)] else [])\<rparr>) d' n' p f"
proof -
  let ?c = "sp_ring s" and ?m = "rmem (sp_ring s)"
  obtain r n' where r: "n = r # n'" "r = mem_read ?m (record_at ?c rp) (length r)"
    "unat (ld32 ?m (record_at ?c rp)) = length r"
    "unat (rp + word_of_nat (length r)) = unat rp + length r" "6 \<le> length r"
    using reader_head [OF inv rd lt] by metis
  have ul: "unat len = length r" using r(3) len by simp
  then have "(ucast len :: u64) = word_of_nat (length r)"
    by (simp add: word_eq_iff_unsigned [where ?'a = nat] unat_of_nat flip: ul)
  then have pos: "unat (rp + ucast len) = unat rp + length r" using r(4) by simp
  have "rec_visible r \<longleftrightarrow> ld16 ?m (record_at ?c rp + 4) \<noteq> KND_REC_WRAP"
    by (subst r(2)) (simp add: rec_visible_def mem_read_type r(5))
  then have got: "(if ld16 ?m (record_at ?c rp + 4) \<noteq> KND_REC_WRAP
      then [mem_read ?m (record_at ?c rp) (unat len)] else []) = visible [r]"
    using r(2) ul by (simp add: visible_def)
  show ?thesis
    unfolding got using inv rd r(1) pos
    by (intro exI [of _ "d @ [r]"] exI [of _ n'])
      (simp add: spsc_parts_def Let_def visible_def split: if_splits)
qed

lemma keep_store:
  assumes inv: "spsc_parts s d n p f" and rd: "sp_reader s = Some (wp, rp)" and ge: "\<not> rp < wp"
  shows "spsc_parts (s\<lparr>sp_ring := (sp_ring s)\<lparr>rmem := st64 (rmem (sp_ring s)) hdr_readPos rp\<rparr>, sp_reader := None\<rparr>)
    [] [] p f"
proof -
  let ?c = "sp_ring s" and ?m = "rmem (sp_ring s)"
  note D = spsc_partsD [OF inv]
  have rp: "unat rp = rpos ?c + bytes_of d" "unat wp = unat rp + bytes_of n"
    using inv rd by (simp_all add: spsc_parts_def Let_def)
  then have z: "bytes_of n = 0" using ge by (simp add: word_less_nat_alt)
  have suf: "ring_chain ?m (dsize ?c) (wpos ?c) (unat rp) (n @ p @ f)"
    using chain_suffix [OF D(3)] rp by simp
  have "n = []"
  proof (rule ccontr)
    assume "n \<noteq> []"
    then obtain r n' where "n = r # n'" by (cases n) auto
    with suf z show False using chain_head(3) [of ?m _ _ _ r] by (auto simp: sizeof_RECORD_def)
  qed
  then have suf': "ring_chain ?m (dsize ?c) (wpos ?c) (unat rp) (p @ f)" using suf by simp
  have same: "st64 ?m hdr_readPos rp (data_addr i) = ?m (data_addr i)" for i
    by (simp add: mem_simps layout_defs const_defs)
  have "ring_chain (st64 ?m hdr_readPos rp) (dsize ?c) (wpos ?c) (unat rp) (p @ f)"
    by (rule chain_cong [OF suf' same])
  moreover have "ld64 (st64 ?m hdr_readPos rp) hdr_writePos = ld64 ?m hdr_writePos"
    by (simp add: mem_simps layout_defs)
  ultimately show ?thesis
    using inv rp \<open>n = []\<close> by (simp add: spsc_parts_def Let_def)
qed


lemma spsc_inv_step:
  assumes "spsc_inv s" "spsc_step s s'"
  shows "spsc_inv s'"
proof -
  obtain d n p f where inv: "spsc_parts s d n p f" using assms(1) by (auto simp: spsc_inv_def)
  from assms(2) show ?thesis
  proof cases
    case (fill a off pad len tot)
    with keep_fill [OF inv] show ?thesis unfolding spsc_inv_def by blast
  next
    case (drop a t)
    with keep_drop [OF inv] show ?thesis unfolding spsc_inv_def by blast
  next
    case (publish tot a)
    with keep_publish [OF inv] show ?thesis unfolding spsc_inv_def by blast
  next
    case load
    with keep_load [OF inv] show ?thesis unfolding spsc_inv_def by blast
  next
    case (resync wp rp)
    with reader_head [OF inv] show ?thesis by metis
  next
    case (read_record wp rp len)
    with keep_read [OF inv] show ?thesis unfolding spsc_inv_def by blast
  next
    case (store wp rp)
    with keep_store [OF inv] show ?thesis unfolding spsc_inv_def by blast
  qed
qed

interpretation spsc: transition_system spsc_step spsc_inv
  by unfold_locales (rule spsc_inv_step)

definition spsc_init :: "knd_ring \<Rightarrow> spsc" where
  "spsc_init c = \<lparr>sp_ring = c, sp_pending = None, sp_reader = None, sp_sent = [], sp_got = []\<rparr>"

lemma spsc_init_inv: "ring_ok c [] \<Longrightarrow> spsc_inv (spsc_init c)"
proof -
  assume ok: "ring_ok c []"
  have "wpos c = rpos c" using chain_end [OF ring_okD(4) [OF ok]] by simp
  with ok have "spsc_parts (spsc_init c) [] [] [] []"
    by (simp add: spsc_parts_def spsc_init_def Let_def ring_ok_def)
  then show ?thesis unfolding spsc_inv_def by blast
qed

text \<open>
  C4. Lock-free delivery is correct under interleaving. Starting from an empty ring, after any
  interleaving of fills, publications and drops by the producer with loads, record reads and
  stores by the consumer, the records delivered so far are the published appends in order,
  without the ones still pending: what the consumer has got is always a prefix of what was
  sent. The consumer's defensive resynchronisation is never taken.
\<close>

theorem spsc_delivery:
  assumes "ring_ok c []" "spsc_step\<^sup>*\<^sup>* (spsc_init c) s"
  shows "(\<exists>pending. list_all2 args_record (sp_sent s) (sp_got s @ pending))
    \<and> (\<forall>wp rp. sp_reader s = Some (wp, rp) \<and> rp < wp \<longrightarrow>
         \<not> bad_length (sp_ring s) (ld32 (rmem (sp_ring s)) (record_at (sp_ring s) rp)))"
proof -
  have "spsc_inv s" by (rule spsc.inv_reach [OF assms(2) spsc_init_inv [OF assms(1)]])
  then obtain d n p f where inv: "spsc_parts s d n p f" by (auto simp: spsc_inv_def)
  have "\<not> bad_length (sp_ring s) (ld32 (rmem (sp_ring s)) (record_at (sp_ring s) rp))"
    if "sp_reader s = Some (wp, rp)" "rp < wp" for wp rp
    using reader_head [OF inv that] by metis
  with spsc_partsD(5) [OF inv] show ?thesis by blast
qed

theorem spsc_delivery_witness:
  "spsc_step\<^sup>*\<^sup>* (spsc_init small_ring) ((spsc_init small_ring)\<lparr>sp_reader := Some (0, 0)\<rparr>)
   \<and> (\<exists>pending. list_all2 args_record (sp_sent ((spsc_init small_ring)\<lparr>sp_reader := Some (0, 0)\<rparr>))
        (sp_got ((spsc_init small_ring)\<lparr>sp_reader := Some (0, 0)\<rparr>) @ pending))"
proof -
  have wp: "ld64 (rmem small_ring) hdr_writePos = 0" using ring_okD(2) [OF small_ring_ok] by simp
  have "spsc_step (spsc_init small_ring) ((spsc_init small_ring)\<lparr>sp_reader := Some (0, 0)\<rparr>)"
    using load [of "spsc_init small_ring"] wp by (simp add: spsc_init_def)
  then have r: "spsc_step\<^sup>*\<^sup>* (spsc_init small_ring) ((spsc_init small_ring)\<lparr>sp_reader := Some (0, 0)\<rparr>)" by blast
  with spsc_delivery [OF small_ring_ok r] show ?thesis by blast
qed

subsection \<open>Progress of the consumer\<close>

text \<open>A step of the consumer: the producer's part of the state stays, the consumer's own changes.\<close>

definition reader_step :: "spsc \<Rightarrow> spsc \<Rightarrow> bool" where
  "reader_step s s' \<longleftrightarrow> spsc_step s s' \<and> sp_pending s' = sp_pending s \<and> sp_sent s' = sp_sent s
     \<and> sp_reader s' \<noteq> sp_reader s"

definition idle_after :: "spsc \<Rightarrow> spsc \<Rightarrow> bool" where
  "idle_after s s' \<longleftrightarrow> reader_step\<^sup>*\<^sup>* s s' \<and> sp_reader s' = None \<and> sp_sent s' = sp_sent s"

lemma idle_after_trans:
  assumes "idle_after s s1" "idle_after s1 s2"
  shows "idle_after s s2"
proof -
  have "reader_step\<^sup>*\<^sup>* s s1" "reader_step\<^sup>*\<^sup>* s1 s2" using assms by (simp_all only: idle_after_def)
  then have "reader_step\<^sup>*\<^sup>* s s2" by (rule rtranclp_trans)
  moreover have "sp_reader s2 = None" "sp_sent s2 = sp_sent s" using assms by (simp_all only: idle_after_def)
  ultimately show ?thesis unfolding idle_after_def by blast
qed

lemma idle_after_step:
  assumes "reader_step s s1" "idle_after s1 s2"
  shows "idle_after s s2"
proof -
  have "reader_step\<^sup>*\<^sup>* s1 s2" using assms(2) by (simp only: idle_after_def)
  with assms(1) have "reader_step\<^sup>*\<^sup>* s s2" by (rule converse_rtranclp_into_rtranclp)
  moreover have "sp_reader s2 = None" "sp_sent s2 = sp_sent s1" using assms(2) by (simp_all only: idle_after_def)
  moreover have "sp_sent s1 = sp_sent s" using assms(1) by (simp only: reader_step_def)
  ultimately show ?thesis unfolding idle_after_def by simp
qed

text \<open>One read moves the local position forward by the length of the record.\<close>

lemma read_advances:
  assumes inv: "spsc_parts s d n p f" and rd: "sp_reader s = Some (wp, rp)" and lt: "rp < wp"
  shows "\<exists>s1 d' n' rp'. reader_step s s1 \<and> spsc_parts s1 d' n' p f \<and> sp_reader s1 = Some (wp, rp')
    \<and> unat wp - unat rp' < unat wp - unat rp"
proof -
  let ?c = "sp_ring s"
  define len where "len = ld32 (rmem ?c) (record_at ?c rp)"
  define s1 where "s1 = s\<lparr>sp_reader := Some (wp, rp + ucast len),
     sp_got := sp_got s @ (if ld16 (rmem ?c) (record_at ?c rp + 4) \<noteq> KND_REC_WRAP
       then [mem_read (rmem ?c) (record_at ?c rp) (unat len)] else [])\<rparr>"
  obtain r n' where h: "n = r # n'" "record_at ?c rp = data_addr (unat rp mod dsize ?c)"
    "r = mem_read (rmem ?c) (record_at ?c rp) (length r)"
    "unat (ld32 (rmem ?c) (record_at ?c rp)) = length r" "\<not> bad_length ?c (ld32 (rmem ?c) (record_at ?c rp))"
    "unat (rp + word_of_nat (length r)) = unat rp + length r" "6 \<le> length r"
    by (rule reader_head [OF inv rd lt])
  note r = h(4,5) [folded len_def] h(6,7)
  have "(ucast len :: u64) = word_of_nat (length r)"
    by (simp add: word_eq_iff_unsigned [where ?'a = nat] unat_of_nat flip: r(1))
  then have pos: "unat (rp + ucast len) = unat rp + length r" using r(3) by simp
  have step: "spsc_step s s1"
    unfolding s1_def by (rule read_record [OF rd lt len_def r(2)])
  have "rp + ucast len \<noteq> rp" using pos r(4) by auto
  then have "reader_step s s1" using step rd by (simp add: reader_step_def s1_def)
  moreover obtain d' n' where "spsc_parts s1 d' n' p f"
    using keep_read [OF inv rd lt len_def] unfolding s1_def by blast
  moreover have "sp_reader s1 = Some (wp, rp + ucast len)" by (simp add: s1_def)
  moreover have "unat wp - unat (rp + ucast len) < unat wp - unat rp"
    using pos r(4) lt by (simp add: word_less_nat_alt)
  ultimately show ?thesis by blast
qed

text \<open>A poll that has loaded its snapshot reads all of it and gives the space back.\<close>

lemma reader_finishes:
  assumes "spsc_parts s d n p f" "sp_reader s = Some (wp, rp)"
  shows "\<exists>s'. idle_after s s' \<and> spsc_parts s' [] [] p f"
  using assms
proof (induction "unat wp - unat rp" arbitrary: s d n rp rule: less_induct)
  case less
  show ?case
  proof (cases "rp < wp")
    case False
    define s1 where "s1 = s\<lparr>sp_ring := (sp_ring s)\<lparr>rmem := st64 (rmem (sp_ring s)) hdr_readPos rp\<rparr>, sp_reader := None\<rparr>"
    have "reader_step s s1"
      using store [OF less.prems(2) False] less.prems(2) by (simp add: reader_step_def s1_def)
    moreover have "spsc_parts s1 [] [] p f"
      unfolding s1_def by (rule keep_store [OF less.prems False])
    moreover have "idle_after s1 s1" by (simp add: idle_after_def s1_def)
    ultimately show ?thesis using idle_after_step by blast
  next
    case True
    obtain s1 d' n' rp' where s1: "reader_step s s1" "spsc_parts s1 d' n' p f"
      "sp_reader s1 = Some (wp, rp')" "unat wp - unat rp' < unat wp - unat rp"
      using read_advances [OF less.prems True] by blast
    from less.hyps [OF s1(4) s1(2) s1(3)] s1(1) idle_after_step show ?thesis by blast
  qed
qed

lemma reader_idle:
  assumes "spsc_parts s d n p f"
  shows "\<exists>s'. idle_after s s' \<and> spsc_parts s' [] [] p f"
proof (cases "sp_reader s")
  case None
  with assms have "d = []" "n = []" by (simp_all add: spsc_parts_def Let_def)
  with assms None have "idle_after s s \<and> spsc_parts s [] [] p f" by (simp add: idle_after_def)
  then show ?thesis ..
next
  case (Some q)
  then obtain wp rp where "sp_reader s = Some (wp, rp)" by (cases q) auto
  from reader_finishes [OF assms this] show ?thesis .
qed

lemma reader_drains:
  assumes "spsc_parts s [] [] p f" "sp_reader s = None"
  shows "\<exists>s'. idle_after s s' \<and> spsc_parts s' [] [] [] f"
proof -
  define s1 where "s1 = s\<lparr>sp_reader := Some (ld64 (rmem (sp_ring s)) hdr_writePos, ld64 (rmem (sp_ring s)) hdr_readPos)\<rparr>"
  have step: "reader_step s s1"
    using load [OF assms(2)] assms(2) by (simp add: reader_step_def s1_def)
  have "spsc_parts s1 [] p [] f" unfolding s1_def by (rule keep_load [OF assms])
  from reader_idle [OF this] obtain s2 where "idle_after s1 s2" "spsc_parts s2 [] [] [] f" by blast
  with idle_after_step [OF step] show ?thesis by blast
qed



end
