(* ===== verification/Knd_Ca.thy ===== *)
theory Knd_Ca
  imports Knd_Text
begin

text \<open>
  The certificate authority of the interception proxy (\<^verbatim>\<open>src/app/src/mitm_ca.h\<close>,
  \<^verbatim>\<open>src/app/src/mitm_ca.cpp\<close>): creating or loading the root, minting and caching a certificate per host.
  Keys are values of a type parameter. The certificate library is a parameter: the return codes
  of its setters, the encoding of a certificate and of a key, the parser of keys; what its
  random generator yields is an argument of each call. Files are a map from paths to contents.
\<close>

section \<open>Files\<close>

type_synonym files = "string \<rightharpoonup> string"

text \<open>Which files can be created, and how many bytes of the data are written to one.\<close>

record disk =
  dk_creates :: "string \<Rightarrow> bool"
  dk_written :: "string \<Rightarrow> nat \<Rightarrow> nat"

definition ReadFile :: "files \<Rightarrow> string \<Rightarrow> string" where
  "ReadFile fs name = (case fs name of None \<Rightarrow> [] | Some s \<Rightarrow> s)"

definition WriteFile :: "disk \<Rightarrow> string \<Rightarrow> string \<Rightarrow> files \<Rightarrow> bool \<times> files" where
  "WriteFile dk name data fs =
     (if \<not> dk_creates dk name then (False, fs)
      else (let wr = dk_written dk name (length data) in (wr = length data, fs(name \<mapsto> take wr data))))"

section \<open>The certificate library\<close>

record 'k x509_cert =
  xc_subject_key :: 'k
  xc_issuer_key :: 'k
  xc_subject :: string
  xc_issuer :: string
  xc_serial :: bytes
  xc_from :: string
  xc_to :: string
  xc_is_ca :: int
  xc_pathlen :: int
  xc_san :: "string option"

record 'k x509_lib =
  xl_seed :: int
  xl_subject_name :: "string \<Rightarrow> int"
  xl_issuer_name :: "string \<Rightarrow> int"
  xl_serial_raw :: "bytes \<Rightarrow> int"
  xl_validity :: "string \<Rightarrow> string \<Rightarrow> int"
  xl_constraints :: "int \<Rightarrow> int \<Rightarrow> int"
  xl_san_names :: "string \<Rightarrow> int"
  xl_crt_pem :: "'k x509_cert \<Rightarrow> int \<times> string"
  xl_key_pem :: "'k \<Rightarrow> int \<times> string"
  xl_parse_key :: "string \<Rightarrow> 'k option"

text \<open>Setting up a key and generating it, with the return codes of the two calls.\<close>

type_synonym 'k keygen = "int \<times> int \<times> 'k"

definition GenRsaKey :: "'k keygen \<Rightarrow> 'k option" where
  "GenRsaKey g = (case g of (setup, gen, k) \<Rightarrow>
     if setup \<noteq> 0 then None else if gen = 0 then Some k else None)"

definition and_then :: "int \<Rightarrow> int \<Rightarrow> int" where
  "and_then rc next_rc = (if rc = 0 then next_rc else rc)"

section \<open>State and operations\<close>

record minted_cert =
  mc_certChainPem :: string
  mc_keyPem :: string

record 'k mitm_ca =
  ca_key :: "'k option"
  ca_serial :: u64
  ca_ready :: bool
  ca_certPem :: string
  ca_cache :: "string \<rightharpoonup> minted_cert"

definition kCaDn :: string where
  "kCaDn = ''CN=knetdbg Root CA,O=knetdbg,OU=MITM''"

definition new_ca :: "'k mitm_ca" where
  "new_ca = \<lparr>ca_key = None, ca_serial = 0x1000, ca_ready = False, ca_certPem = [], ca_cache = Map.empty\<rparr>"

definition ca_cert :: "'k \<Rightarrow> 'k x509_cert" where
  "ca_cert k = \<lparr>xc_subject_key = k, xc_issuer_key = k, xc_subject = kCaDn, xc_issuer = kCaDn, xc_serial = [1],
     xc_from = ''20240101000000'', xc_to = ''20340101000000'', xc_is_ca = 1, xc_pathlen = 0, xc_san = None\<rparr>"

definition write_ca_cert :: "'k x509_lib \<Rightarrow> 'k \<Rightarrow> int \<times> string" where
  "write_ca_cert lib k =
     (let c = ca_cert k;
          rc = xl_subject_name lib kCaDn;
          rc = and_then rc (xl_issuer_name lib kCaDn);
          rc = and_then rc (xl_serial_raw lib (xc_serial c));
          rc = and_then rc (xl_validity lib (xc_from c) (xc_to c));
          rc = and_then rc (xl_constraints lib 1 0) in
      if rc = 0 then xl_crt_pem lib c else (rc, []))"

text \<open>The result is an error or the success, with the authority and the files after the call.\<close>

definition create_ca ::
  "'k x509_lib \<Rightarrow> disk \<Rightarrow> 'k keygen \<Rightarrow> string \<Rightarrow> string \<Rightarrow> files \<Rightarrow> 'k mitm_ca \<Rightarrow> (string + unit) \<times> 'k mitm_ca \<times> files" where
  "create_ca lib dk gen caCertPath caKeyPath fs ca =
     (case GenRsaKey gen of
        None \<Rightarrow> (Inl ''CA key generation failed'', ca\<lparr>ca_key := None\<rparr>, fs)
      | Some k \<Rightarrow> (case write_ca_cert lib k of (rc, pem) \<Rightarrow>
          if rc \<noteq> 0 then (Inl ''CA cert creation failed'', ca\<lparr>ca_key := Some k\<rparr>, fs)
          else (let ca1 = ca\<lparr>ca_key := Some k, ca_certPem := pem\<rparr> in
            case xl_key_pem lib k of (krc, keyOut) \<Rightarrow>
            if krc \<noteq> 0 then (Inl ''CA key export failed'', ca1, fs)
            else (case WriteFile dk caCertPath pem fs of (ok1, fs1) \<Rightarrow>
              if \<not> ok1 then (Inl ''failed to persist CA files'', ca1, fs1)
              else (case WriteFile dk caKeyPath keyOut fs1 of (ok2, fs2) \<Rightarrow>
                if \<not> ok2 then (Inl ''failed to persist CA files'', ca1, fs2)
                else (Inr (), ca1\<lparr>ca_ready := True\<rparr>, fs2))))))"

definition loadOrCreate ::
  "'k x509_lib \<Rightarrow> disk \<Rightarrow> 'k keygen \<Rightarrow> string \<Rightarrow> string \<Rightarrow> files \<Rightarrow> 'k mitm_ca \<Rightarrow> (string + unit) \<times> 'k mitm_ca \<times> files" where
  "loadOrCreate lib dk gen caCertPath caKeyPath fs ca =
     (if xl_seed lib \<noteq> 0 then (Inl ''RNG seed failed'', ca, fs)
      else (let certPem = ReadFile fs caCertPath; keyPem = ReadFile fs caKeyPath in
        case (if certPem \<noteq> [] \<and> keyPem \<noteq> [] then xl_parse_key lib keyPem else None) of
          Some k \<Rightarrow> (Inr (), ca\<lparr>ca_key := Some k, ca_certPem := certPem, ca_ready := True\<rparr>, fs)
        | None \<Rightarrow> create_ca lib dk gen caCertPath caKeyPath fs ca))"

definition serial_bytes :: "u64 \<Rightarrow> bytes" where
  "serial_bytes s = map (\<lambda>i. ucast (drop_bit (8 * (7 - i)) s)) [0..<8]"

definition leaf_cert :: "'k \<Rightarrow> 'k \<Rightarrow> string \<Rightarrow> u64 \<Rightarrow> 'k x509_cert" where
  "leaf_cert leafKey caKey host s = \<lparr>xc_subject_key = leafKey, xc_issuer_key = caKey, xc_subject = ''CN='' @ host,
     xc_issuer = kCaDn, xc_serial = serial_bytes s, xc_from = ''20240101000000'', xc_to = ''20340101000000'',
     xc_is_ca = 0, xc_pathlen = -1, xc_san = Some host\<rparr>"

definition write_leaf_cert :: "'k x509_lib \<Rightarrow> 'k x509_cert \<Rightarrow> string \<Rightarrow> int \<times> string" where
  "write_leaf_cert lib c host =
     (let rc = xl_subject_name lib (c_str (xc_subject c));
          rc = and_then rc (xl_issuer_name lib kCaDn);
          rc = and_then rc (xl_serial_raw lib (xc_serial c));
          rc = and_then rc (xl_validity lib (xc_from c) (xc_to c));
          rc = and_then rc (xl_constraints lib 0 (-1));
          rc = and_then rc (xl_san_names lib host) in
      if rc = 0 then xl_crt_pem lib c else (rc, []))"

definition certForHost ::
  "'k x509_lib \<Rightarrow> 'k keygen \<Rightarrow> string \<Rightarrow> 'k mitm_ca \<Rightarrow> (string + minted_cert) \<times> 'k mitm_ca" where
  "certForHost lib gen host ca =
     (case (ca_ready ca, ca_key ca) of
        (True, Some caKey) \<Rightarrow>
          (case ca_cache ca host of
             Some mc \<Rightarrow> (Inr mc, ca)
           | None \<Rightarrow> (case GenRsaKey gen of
               None \<Rightarrow> (Inl ''leaf key gen failed'', ca)
             | Some leafKey \<Rightarrow>
                 (let s = ca_serial ca; ca1 = ca\<lparr>ca_serial := s + 1\<rparr> in
                  case write_leaf_cert lib (leaf_cert leafKey caKey host s) host of (rc, pem) \<Rightarrow>
                  if rc \<noteq> 0 then (Inl ''leaf cert creation failed'', ca1)
                  else (case xl_key_pem lib leafKey of (krc, keyOut) \<Rightarrow>
                    if krc \<noteq> 0 then (Inl ''leaf key export failed'', ca1)
                    else (let mc = \<lparr>mc_certChainPem = pem @ ca_certPem ca1, mc_keyPem = keyOut\<rparr> in
                      (Inr mc, ca1\<lparr>ca_cache := (ca_cache ca1)(host \<mapsto> mc)\<rparr>))))))
      | _ \<Rightarrow> (Inl ''CA not ready'', ca))"

section \<open>What a source of certificates promises\<close>

text \<open>A sequence of requests, each with the randomness it draws, and their answers.\<close>

fun issue_all :: "('g \<Rightarrow> string \<Rightarrow> 'ca \<Rightarrow> (string + minted_cert) \<times> 'ca) \<Rightarrow> ('g \<times> string) list \<Rightarrow> 'ca
    \<Rightarrow> (string + minted_cert) list \<times> 'ca" where
  "issue_all issue [] ca = ([], ca)"
| "issue_all issue ((g, host) # calls) ca =
     (let (r, ca1) = issue g host ca; (rs, ca2) = issue_all issue calls ca1 in (r # rs, ca2))"

lemma issue_all_Cons:
  "issue_all issue ((g, host) # calls) ca =
     (fst (issue g host ca) # fst (issue_all issue calls (snd (issue g host ca))), snd (issue_all issue calls (snd (issue g host ca))))"
  by (cases "issue g host ca"; cases "issue_all issue calls (snd (issue g host ca))") auto

declare issue_all.simps(2) [simp del]

locale cert_source =
  fixes issue :: "'g \<Rightarrow> string \<Rightarrow> 'ca \<Rightarrow> (string + minted_cert) \<times> 'ca"
    and inv :: "'ca \<Rightarrow> bool"
    and keeps :: "'ca \<Rightarrow> string \<Rightarrow> minted_cert \<Rightarrow> bool"
  assumes issue_inv: "inv ca \<Longrightarrow> inv (snd (issue g host ca))"
    and issue_keeps: "inv ca \<Longrightarrow> fst (issue g host ca) = Inr mc \<Longrightarrow> keeps (snd (issue g host ca)) host mc"
    and keeps_mono: "inv ca \<Longrightarrow> keeps ca host mc \<Longrightarrow> keeps (snd (issue g other ca)) host mc"
    and keeps_issue: "inv ca \<Longrightarrow> keeps ca host mc \<Longrightarrow> issue g host ca = (Inr mc, ca)"
begin

lemma issue_all_keeps: "inv ca \<Longrightarrow> keeps ca host mc \<Longrightarrow> keeps (snd (issue_all issue calls ca)) host mc"
proof (induction calls arbitrary: ca)
  case (Cons c calls)
  obtain g h where c: "c = (g, h)" by (cases c)
  have "keeps (snd (issue_all issue calls (snd (issue g h ca)))) host mc"
    using Cons.prems by (intro Cons.IH issue_inv keeps_mono)
  then show ?case by (simp add: c issue_all_Cons)
qed simp

lemma issue_all_inv: "inv ca \<Longrightarrow> inv (snd (issue_all issue calls ca))"
proof (induction calls arbitrary: ca)
  case (Cons c calls)
  obtain g h where c: "c = (g, h)" by (cases c)
  have "inv (snd (issue_all issue calls (snd (issue g h ca))))" using Cons.prems by (intro Cons.IH issue_inv)
  then show ?case by (simp add: c issue_all_Cons)
qed simp

lemma issue_all_answers:
  "inv ca \<Longrightarrow> i < length calls \<Longrightarrow> fst (issue_all issue calls ca) ! i = Inr mc \<Longrightarrow>
   keeps (snd (issue_all issue calls ca)) (snd (calls ! i)) mc"
proof (induction calls arbitrary: ca i)
  case (Cons c calls)
  obtain g h where c: "c = (g, h)" by (cases c)
  let ?ca1 = "snd (issue g h ca)"
  have inv1: "inv ?ca1" using Cons.prems(1) by (rule issue_inv)
  have all: "issue_all issue (c # calls) ca = (fst (issue g h ca) # fst (issue_all issue calls ?ca1), snd (issue_all issue calls ?ca1))"
    by (simp add: c issue_all_Cons)
  show ?case
  proof (cases i)
    case 0
    then have "keeps ?ca1 h mc" using Cons.prems(1,3) all by (intro issue_keeps) auto
    then show ?thesis using issue_all_keeps [OF inv1] all 0 c by simp
  next
    case (Suc j)
    then show ?thesis using Cons.IH [OF inv1, of j] Cons.prems(2,3) all by simp
  qed
qed simp

text \<open>A host that got a certificate gets that certificate whenever it asks again.\<close>

lemma issue_stable:
  assumes "inv ca" "i < length calls" "fst (issue_all issue calls ca) ! i = Inr mc"
  shows "issue g (snd (calls ! i)) (snd (issue_all issue calls ca)) = (Inr mc, snd (issue_all issue calls ca))"
  by (rule keeps_issue [OF issue_all_inv [OF assms(1)] issue_all_answers [OF assms]])

end

definition ca_ok :: "'k mitm_ca \<Rightarrow> bool" where
  "ca_ok ca \<longleftrightarrow> ca_ready ca \<and> ca_key ca \<noteq> None"

lemma certForHost_cases:
  assumes "ca_ready ca" "ca_key ca = Some caKey"
  obtains (cached) mc where "ca_cache ca host = Some mc" "certForHost lib gen host ca = (Inr mc, ca)"
  | (failed) e s where "certForHost lib gen host ca = (Inl e, ca\<lparr>ca_serial := s\<rparr>)" "s = ca_serial ca \<or> s = ca_serial ca + 1"
  | (issued) leafKey pem keyOut where "ca_cache ca host = None"
      "write_leaf_cert lib (leaf_cert leafKey caKey host (ca_serial ca)) host = (0, pem)" "xl_key_pem lib leafKey = (0, keyOut)"
      "certForHost lib gen host ca = (Inr \<lparr>mc_certChainPem = pem @ ca_certPem ca, mc_keyPem = keyOut\<rparr>,
         ca\<lparr>ca_serial := ca_serial ca + 1, ca_cache := (ca_cache ca)(host \<mapsto> \<lparr>mc_certChainPem = pem @ ca_certPem ca, mc_keyPem = keyOut\<rparr>)\<rparr>)"
proof (cases "ca_cache ca host")
  case (Some mc)
  with assms show thesis by (intro cached) (simp_all add: certForHost_def)
next
  case None
  note uncached = None
  show thesis
  proof (cases "GenRsaKey gen")
    case None
    then have "certForHost lib gen host ca = (Inl ''leaf key gen failed'', ca\<lparr>ca_serial := ca_serial ca\<rparr>)"
      using assms uncached by (simp add: certForHost_def)
    then show thesis by (rule failed) simp
  next
    case (Some leafKey)
    obtain rc pem where w: "write_leaf_cert lib (leaf_cert leafKey caKey host (ca_serial ca)) host = (rc, pem)" by fastforce
    obtain krc keyOut where k: "xl_key_pem lib leafKey = (krc, keyOut)" by fastforce
    note simps = certForHost_def assms uncached Some w k
    consider "rc \<noteq> 0" | "rc = 0" "krc \<noteq> 0" | "rc = 0" "krc = 0" by blast
    then show thesis
    proof cases
      case 1
      then have "certForHost lib gen host ca = (Inl ''leaf cert creation failed'', ca\<lparr>ca_serial := ca_serial ca + 1\<rparr>)"
        by (simp add: simps)
      then show thesis by (rule failed) simp
    next
      case 2
      then have "certForHost lib gen host ca = (Inl ''leaf key export failed'', ca\<lparr>ca_serial := ca_serial ca + 1\<rparr>)"
        by (simp add: simps)
      then show thesis by (rule failed) simp
    next
      case 3
      then show thesis by (intro issued [OF uncached w [unfolded 3] k [unfolded 3]]) (simp add: simps Let_def)
    qed
  qed
qed

interpretation ca_source: cert_source "certForHost lib" ca_ok "\<lambda>ca host mc. ca_cache ca host = Some mc"
proof
  fix ca :: "'a mitm_ca" and g host mc other
  assume "ca_ok ca"
  then obtain k where k: "ca_ready ca" "ca_key ca = Some k" by (auto simp: ca_ok_def)
  show "ca_ok (snd (certForHost lib g host ca))"
    by (cases rule: certForHost_cases [OF k, of host lib g]) (use k in \<open>auto simp: ca_ok_def\<close>)
  show "ca_cache (snd (certForHost lib g host ca)) host = Some mc" if "fst (certForHost lib g host ca) = Inr mc"
    by (cases rule: certForHost_cases [OF k, of host lib g]) (use that in auto)
  show "ca_cache (snd (certForHost lib g other ca)) host = Some mc" if "ca_cache ca host = Some mc"
    by (cases rule: certForHost_cases [OF k, of other lib g]) (use that in auto)
  show "certForHost lib g host ca = (Inr mc, ca)" if "ca_cache ca host = Some mc"
    using that k by (simp add: certForHost_def)
qed

section \<open>Serial numbers and the chain\<close>

lemma serial_bytes_inj:
  assumes "serial_bytes s = serial_bytes t"
  shows "s = t"
proof (rule bit_eqI)
  fix n :: nat
  assume n: "possible_bit TYPE(u64) n"
  then have n64: "n < 64" by simp
  let ?i = "7 - n div 8"
  have i: "?i < 8" "8 * (7 - ?i) = 8 * (n div 8)" using n64 by auto
  have "(serial_bytes s) ! ?i = (serial_bytes t) ! ?i" using assms by simp
  then have "(ucast (drop_bit (8 * (n div 8)) s) :: u8) = ucast (drop_bit (8 * (n div 8)) t)"
    using i by (simp add: serial_bytes_def)
  then have "bit (ucast (drop_bit (8 * (n div 8)) s) :: u8) (n mod 8) = bit (ucast (drop_bit (8 * (n div 8)) t) :: u8) (n mod 8)"
    by simp
  then show "bit s n = bit t n" by (simp add: bit_simps)
qed

text \<open>A certificate in the cache: minted for its host under a serial number, chained to the authority's certificate.\<close>

definition minted :: "'k x509_lib \<Rightarrow> 'k \<Rightarrow> string \<Rightarrow> string \<Rightarrow> u64 \<Rightarrow> minted_cert \<Rightarrow> bool" where
  "minted lib caKey caPem host s mc \<longleftrightarrow> (\<exists>leafKey pem. write_leaf_cert lib (leaf_cert leafKey caKey host s) host = (0, pem)
     \<and> xl_key_pem lib leafKey = (0, mc_keyPem mc) \<and> mc_certChainPem mc = pem @ caPem)"

definition ca_inv :: "'k x509_lib \<Rightarrow> 'k \<Rightarrow> nat \<Rightarrow> 'k mitm_ca \<Rightarrow> bool" where
  "ca_inv lib caKey n ca \<longleftrightarrow> ca_ready ca \<and> ca_key ca = Some caKey \<and> unat (ca_serial ca) + n < 2 ^ 64
     \<and> (\<exists>\<sigma>. inj_on \<sigma> (dom (ca_cache ca)) \<and> (\<forall>host mc. ca_cache ca host = Some mc \<longrightarrow>
          \<sigma> host < ca_serial ca \<and> minted lib caKey (ca_certPem ca) host (\<sigma> host) mc))"

lemma ca_inv_ok: "ca_inv lib caKey n ca \<Longrightarrow> ca_ok ca"
  by (simp add: ca_inv_def ca_ok_def)

lemma word_less_Suc:
  fixes s :: u64
  assumes "unat s + Suc n < 2 ^ 64"
  shows "unat (s + 1) = Suc (unat s)" "t < s \<Longrightarrow> t < s + 1" "s < s + 1"
proof -
  show u: "unat (s + 1) = Suc (unat s)" using assms by (subst unat_plus_no_wrap) simp_all
  show "t < s \<Longrightarrow> t < s + 1" "s < s + 1" by (simp_all add: word_less_nat_alt u)
qed

lemma certForHost_inv:
  assumes "ca_inv lib caKey (Suc n) ca"
  shows "ca_inv lib caKey n (snd (certForHost lib gen host ca)) \<and> ca_certPem (snd (certForHost lib gen host ca)) = ca_certPem ca"
proof -
  obtain \<sigma> where k: "ca_ready ca" "ca_key ca = Some caKey" and w: "unat (ca_serial ca) + Suc n < 2 ^ 64"
    and inj: "inj_on \<sigma> (dom (ca_cache ca))"
    and m: "\<And>h mc. ca_cache ca h = Some mc \<Longrightarrow> \<sigma> h < ca_serial ca \<and> minted lib caKey (ca_certPem ca) h (\<sigma> h) mc"
    using assms by (auto simp: ca_inv_def)
  note up = word_less_Suc [OF w]
  show ?thesis
  proof (rule certForHost_cases [OF k, of host lib gen], goal_cases)
    case (1 mc)
    then show ?case using k w inj m by (auto simp: ca_inv_def)
  next
    case (2 e s)
    then have "unat s + n < 2 ^ 64" "\<And>t. t < ca_serial ca \<Longrightarrow> t < s" using w up by auto
    then show ?case using 2 k inj m by (auto simp: ca_inv_def intro!: exI [of _ \<sigma>])
  next
    case (3 leafKey pem keyOut)
    let ?\<sigma> = "\<sigma>(host := ca_serial ca)"
    have ne: "\<sigma> h \<noteq> ca_serial ca" "ca_serial ca \<noteq> \<sigma> h" if "h \<in> dom (ca_cache ca)" for h
      using m [of h "the (ca_cache ca h)"] that by auto
    have "inj_on ?\<sigma> (insert host (dom (ca_cache ca)))"
    proof (rule inj_onI)
      fix x y
      assume "x \<in> insert host (dom (ca_cache ca))" "y \<in> insert host (dom (ca_cache ca))" "?\<sigma> x = ?\<sigma> y"
      then show "x = y" using ne [of x] ne [of y] inj_onD [OF inj, of x y] by (cases "x = host"; cases "y = host") simp_all
    qed
    then show ?case using 3 k w up m
      by (auto simp: ca_inv_def minted_def intro!: exI [of _ ?\<sigma>])
  qed
qed

lemma issue_all_ca_inv:
  assumes "ca_inv lib caKey (length calls + n) ca"
  shows "ca_inv lib caKey n (snd (issue_all (certForHost lib) calls ca))
    \<and> ca_certPem (snd (issue_all (certForHost lib) calls ca)) = ca_certPem ca"
  using assms
proof (induction calls arbitrary: ca)
  case (Cons c calls)
  obtain g h where c: "c = (g, h)" by (cases c)
  have "ca_inv lib caKey (Suc (length calls + n)) ca" using Cons.prems by simp
  note step = certForHost_inv [OF this, of g h]
  then show ?case using Cons.IH [of "snd (certForHost lib g h ca)"] by (simp add: c issue_all_Cons)
qed simp

lemma load_parsed:
  "xl_seed lib = 0 \<Longrightarrow> ReadFile fs cp \<noteq> [] \<Longrightarrow> ReadFile fs kp \<noteq> [] \<Longrightarrow> xl_parse_key lib (ReadFile fs kp) = Some k \<Longrightarrow>
   loadOrCreate lib dk gen cp kp fs ca = (Inr (), ca\<lparr>ca_key := Some k, ca_certPem := ReadFile fs cp, ca_ready := True\<rparr>, fs)"
  by (simp add: loadOrCreate_def)

lemma WriteFile_ok: "WriteFile dk name data fs = (True, fs') \<Longrightarrow> fs' = fs(name \<mapsto> data)"
  by (auto simp: WriteFile_def Let_def split: if_splits)

lemma create_ca_Inr:
  assumes "create_ca lib dk gen cp kp fs ca = (Inr (), ca', fs')"
  obtains k pem keyOut where "write_ca_cert lib k = (0, pem)" "xl_key_pem lib k = (0, keyOut)"
    "fs' = fs(cp \<mapsto> pem, kp \<mapsto> keyOut)" "ca' = ca\<lparr>ca_key := Some k, ca_certPem := pem, ca_ready := True\<rparr>"
  using assms WriteFile_ok [of dk] by (auto simp: create_ca_def Let_def split: option.splits prod.splits if_splits)

section \<open>Properties\<close>


text \<open>A library for the witnesses: every call succeeds, a key is a number and its text.\<close>

definition sample_lib :: "nat x509_lib" where
  "sample_lib = \<lparr>xl_seed = 0, xl_subject_name = (\<lambda>_. 0), xl_issuer_name = (\<lambda>_. 0), xl_serial_raw = (\<lambda>_. 0),
     xl_validity = (\<lambda>_ _. 0), xl_constraints = (\<lambda>_ _. 0), xl_san_names = (\<lambda>_. 0),
     xl_crt_pem = (\<lambda>c. (0, ''cert'' @ xc_subject c)), xl_key_pem = (\<lambda>k. (0, dec_text k)),
     xl_parse_key = (\<lambda>s. Some (digits_val 10 s))\<rparr>"

definition sample_ca :: "nat mitm_ca" where
  "sample_ca = new_ca\<lparr>ca_key := Some 7, ca_ready := True, ca_certPem := ''root''\<rparr>"

lemma sample_ca_inv: "n \<le> 1000 \<Longrightarrow> ca_inv sample_lib 7 n sample_ca"
  by (simp add: ca_inv_def sample_ca_def new_ca_def)


text \<open>
  C31. The authority persists. After a successful call, loading or creating, another instance on the files that the
  call left finds the same key and the same certificate, leaves the files alone and is ready,
  whatever it draws, provided that the library reads back the keys it writes.
\<close>

theorem loadOrCreate_persists:
  assumes "\<And>k s. xl_key_pem lib k = (0, s) \<Longrightarrow> s \<noteq> [] \<and> xl_parse_key lib s = Some k"
    and "\<And>c s. xl_crt_pem lib c = (0, s) \<Longrightarrow> s \<noteq> []" "caCertPath \<noteq> caKeyPath"
    and "loadOrCreate lib dk gen caCertPath caKeyPath fs ca = (Inr (), ca', fs')"
  shows "ca_ready ca' \<and> loadOrCreate lib dk2 gen2 caCertPath caKeyPath fs' ca2
    = (Inr (), ca2\<lparr>ca_key := ca_key ca', ca_certPem := ca_certPem ca', ca_ready := True\<rparr>, fs')"
proof (cases "ReadFile fs caCertPath \<noteq> [] \<and> ReadFile fs caKeyPath \<noteq> [] \<and> xl_parse_key lib (ReadFile fs caKeyPath) \<noteq> None")
  case True
  then obtain k where k: "xl_parse_key lib (ReadFile fs caKeyPath) = Some k" by blast
  have seed: "xl_seed lib = 0" using assms(4) by (auto simp: loadOrCreate_def split: if_splits)
  note l = load_parsed [OF seed _ _ k]
  show ?thesis using assms(4) True l by auto
next
  case False
  then have seed: "xl_seed lib = 0" and "create_ca lib dk gen caCertPath caKeyPath fs ca = (Inr (), ca', fs')"
    using assms(4) by (auto simp: loadOrCreate_def Let_def split: if_splits option.splits)
  from create_ca_Inr [OF this(2)] obtain k pem keyOut where c: "write_ca_cert lib k = (0, pem)" "xl_key_pem lib k = (0, keyOut)"
    "fs' = fs(caCertPath \<mapsto> pem, caKeyPath \<mapsto> keyOut)" "ca' = ca\<lparr>ca_key := Some k, ca_certPem := pem, ca_ready := True\<rparr>" .
  have "pem \<noteq> []" using c(1) assms(2) by (auto simp: write_ca_cert_def Let_def split: if_splits)
  then show ?thesis using c(3,4) assms(1) [OF c(2)] assms(3) by (simp add: load_parsed seed ReadFile_def)
qed

definition sample_disk :: disk where
  "sample_disk = \<lparr>dk_creates = (\<lambda>_. True), dk_written = (\<lambda>_ n. n)\<rparr>"

theorem loadOrCreate_persists_witness:
  "\<exists>ca' fs'. loadOrCreate sample_lib sample_disk (0, 0, 42) ''ca.crt'' ''ca.key'' Map.empty new_ca = (Inr (), ca', fs')
     \<and> loadOrCreate sample_lib sample_disk (0, 0, 43) ''ca.crt'' ''ca.key'' fs' new_ca
       = (Inr (), new_ca\<lparr>ca_key := Some 42, ca_certPem := ''cert'' @ kCaDn, ca_ready := True\<rparr>, fs')"
proof -
  let ?ca = "(new_ca :: nat mitm_ca)\<lparr>ca_key := Some 42, ca_certPem := ''cert'' @ kCaDn, ca_ready := True\<rparr>"
  let ?fs = "[''ca.crt'' \<mapsto> ''cert'' @ kCaDn, ''ca.key'' \<mapsto> dec_text 42]"
  have c: "loadOrCreate sample_lib sample_disk (0, 0, 42) ''ca.crt'' ''ca.key'' Map.empty new_ca = (Inr (), ?ca, ?fs)"
    by (simp add: loadOrCreate_def create_ca_def ReadFile_def WriteFile_def GenRsaKey_def sample_lib_def sample_disk_def
        write_ca_cert_def ca_cert_def and_then_def Let_def)
  have "loadOrCreate sample_lib sample_disk (0, 0, 43) ''ca.crt'' ''ca.key'' ?fs new_ca =
      (Inr (), new_ca\<lparr>ca_key := ca_key ?ca, ca_certPem := ca_certPem ?ca, ca_ready := True\<rparr>, ?fs)"
    by (rule conjunct2 [OF loadOrCreate_persists [OF _ _ _ c]])
      (auto simp: sample_lib_def digits_val_numeral_text numeral_text_nonempty)
  with c show ?thesis by auto
qed

end
