(* ===== verification/Knd_Mitm.thy ===== *)
theory Knd_Mitm
  imports Knd_Feed Knd_Ca
begin

text \<open>
  The intercepting proxy (\<^verbatim>\<open>src/app/src/mitm_proxy.h\<close>, \<^verbatim>\<open>src/app/src/mitm_proxy.cpp\<close>): the records it
  synthesizes, the preamble of an explicit proxy connection, the recovery of a redirected
  destination, the server name of a ClientHello, starting, stopping, the listener, the queue to the
  user interface, and one connection from its first byte to its last. What sockets and the TLS
  library answer is an argument: a list holds the answers of successive calls.
\<close>

section \<open>Records\<close>

definition BuildConnOpen :: "widen_fun \<Rightarrow> u32 \<times> u32 \<Rightarrow> u64 \<Rightarrow> string \<Rightarrow> u16 \<Rightarrow> bytes" where
  "BuildConnOpen widen ft flow host port =
     (let r = \<lparr>rec_length = word_of_nat (sizeof_RECORD + sizeof_CONN_PAYLOAD), rec_type = KND_REC_CONN_OPEN,
               rec_flags = 0, rec_sequence = 0, rec_timestamp = NowTicks ft\<rparr>;
          (n, wpath) = widen (c_str (host @ '' (MITM)''));
          p = zero_conn\<lparr>cp_flowId := flow, cp_processId := 0, cp_protocol := KND_PROTO_TCP,
                cp_ipVersion := KND_IPV4, cp_direction := KND_DIR_OUTBOUND, cp_remotePort := port,
                cp_processPath := wpath\<rparr> in
      enc_record r @ enc_conn (if 0 < n then p\<lparr>cp_processPathChars := word_of_nat (n - 1)\<rparr> else p))"

definition BuildData :: "u32 \<times> u32 \<Rightarrow> u64 \<Rightarrow> u8 \<Rightarrow> bytes \<Rightarrow> bytes" where
  "BuildData ft flow dir data =
     (let r = \<lparr>rec_length = word_of_nat (sizeof_RECORD + sizeof_DATA_PAYLOAD + length data), rec_type = KND_REC_DATA,
               rec_flags = 0, rec_sequence = 0, rec_timestamp = NowTicks ft\<rparr>;
          p = \<lparr>dp_flowId = flow, dp_direction = dir, dp_dataKind = KND_DATA_PLAINTEXT, dp_reserved0 = 0,
               dp_dataLength = word_of_nat (length data)\<rparr> in
      enc_record r @ enc_data p @ data)"

definition BuildConnClose :: "u32 \<times> u32 \<Rightarrow> u64 \<Rightarrow> bytes" where
  "BuildConnClose ft flow =
     (let r = \<lparr>rec_length = word_of_nat (sizeof_RECORD + sizeof_CONN_PAYLOAD), rec_type = KND_REC_CONN_CLOSE,
               rec_flags = 0, rec_sequence = 0, rec_timestamp = NowTicks ft\<rparr> in
      enc_record r @ enc_conn (zero_conn\<lparr>cp_flowId := flow\<rparr>))"

section \<open>The target of a connection\<close>

text \<open>Reads byte by byte from what the client has sent; a read behind it fails.\<close>

function ReadPreamble :: "string \<Rightarrow> string \<Rightarrow> string option" where
  "ReadPreamble inp out =
     (if length out < 8192
      then (case inp of
         [] \<Rightarrow> None
       | c # rest \<Rightarrow>
           (let out2 = out @ [c] in
            if 4 \<le> length out2 \<and> drop (length out2 - 4) out2 = CRLF @ CRLF then Some out2
            else ReadPreamble rest out2))
      else None)"
  by auto
termination by (relation "measure (length \<circ> fst)") auto

declare ReadPreamble.simps [simp del]

definition ParseConnect :: "string \<Rightarrow> (string \<times> u16) option" where
  "ParseConnect pre =
     (if substr 0 8 pre \<noteq> ''CONNECT '' then None
      else (case find_text '' '' pre 8 of
         None \<Rightarrow> None
       | Some sp \<Rightarrow>
           (let hp = substr 8 (sp - 8) pre in
            case rfind_char (CHR '':'') hp of
              None \<Rightarrow> Some (hp, 443)
            | Some colon \<Rightarrow>
                (let port = word_of_int (atoi (c_str (drop (colon + 1) hp))) in
                 Some (substr 0 colon hp, if port = 0 then 443 else port)))))"

text \<open>The answer of the query is the bytes returned, or that it failed.\<close>

definition QueryOriginalDest :: "bytes option \<Rightarrow> knd_redirect_ctx option" where
  "QueryOriginalDest answer = (case answer of
     None \<Rightarrow> None
   | Some buf \<Rightarrow> if length buf < sizeof_REDIRECT_CTX then None else Some (dec_redirect_ctx buf))"

text \<open>A read outside the peeked bytes is the result \<open>None\<close>.\<close>

definition byte_at :: "bytes \<Rightarrow> nat \<Rightarrow> nat option" where
  "byte_at d i = (if i < length d then Some (unat (d ! i)) else None)"

definition word_at :: "bytes \<Rightarrow> nat \<Rightarrow> nat option" where
  "word_at d i = Option.bind (byte_at d i) (\<lambda>a. Option.bind (byte_at d (i + 1)) (\<lambda>b. Some (a * 256 + b)))"

function sni_loop :: "bytes \<Rightarrow> nat \<Rightarrow> nat \<Rightarrow> string option" where
  "sni_loop d extEnd p =
     (if p + 4 \<le> extEnd
      then Option.bind (word_at d p) (\<lambda>et. Option.bind (word_at d (p + 2)) (\<lambda>el.
        if et = 0
        then (if p + 4 + 5 \<le> extEnd
              then Option.bind (word_at d (p + 4 + 3)) (\<lambda>nameLen.
                if p + 4 + 5 + nameLen \<le> extEnd
                then (if p + 4 + 5 + nameLen \<le> length d
                      then Some (text_of (take nameLen (drop (p + 4 + 5) d))) else None)
                else Some [])
              else Some [])
        else sni_loop d extEnd (p + 4 + el)))
      else Some [])"
  by auto
termination by (relation "measure (\<lambda>(d, extEnd, p). extEnd - p)") auto

declare sni_loop.simps [simp del]

definition ParseSni :: "bytes \<Rightarrow> string option" where
  "ParseSni d =
     (let n = length d in
      if n < 43 \<or> d ! 0 \<noteq> 0x16 then Some []
      else if n < 5 + 4 then Some []
      else Option.bind (byte_at d 5) (\<lambda>hs. if hs \<noteq> 1 then Some []
      else (let p = 5 + (4 + 2 + 32) in if n \<le> p then Some []
      else Option.bind (byte_at d p) (\<lambda>sid. let p = p + (1 + sid) in if n < p + 2 then Some []
      else Option.bind (word_at d p) (\<lambda>cs. let p = p + (2 + cs) in if n \<le> p then Some []
      else Option.bind (byte_at d p) (\<lambda>cm. let p = p + (1 + cm) in if n < p + 2 then Some []
      else Option.bind (word_at d p) (\<lambda>el. let extEnd = p + 2 + el in
        sni_loop d (if n < extEnd then n else extEnd) (p + 2))))))))"

section \<open>The proxy\<close>

record mitm_proxy =
  mp_caSet :: bool
  mp_port :: u16
  mp_running :: bool
  mp_conns :: u64
  mp_active :: u64
  mp_nextFlow :: u64
  mp_listenFd :: int
  mp_listener :: bool
  mp_queue :: "bytes list"
  mp_threads :: "int list"

definition new_proxy :: mitm_proxy where
  "new_proxy = \<lparr>mp_caSet = False, mp_port = 0, mp_running = False, mp_conns = 0, mp_active = 0, mp_nextFlow = 0,
     mp_listenFd = -1, mp_listener = False, mp_queue = [], mp_threads = []\<rparr>"

text \<open>\<open>ca\<close> tells whether there is an authority and whether it is ready; \<open>bind\<close> is the library's call with its
  return code and the descriptor.\<close>

definition start :: "u16 \<Rightarrow> bool option \<Rightarrow> (string \<Rightarrow> string \<Rightarrow> int \<times> int) \<Rightarrow> mitm_proxy \<Rightarrow> (string + unit) \<times> mitm_proxy" where
  "start port ca bind p =
     (if mp_running p then (Inr (), p)
      else if ca \<noteq> Some True then (Inl ''CA not ready'', p)
      else (let portStr = snprintf 8 (dec_text (unat port)); (rc, fd) = bind ''127.0.0.1'' portStr in
        if rc \<noteq> 0 then (Inl (''bind failed on 127.0.0.1:'' @ portStr), p\<lparr>mp_caSet := True\<rparr>)
        else (Inr (), p\<lparr>mp_caSet := True, mp_listenFd := fd, mp_port := port, mp_running := True, mp_listener := True\<rparr>)))"

text \<open>The second result is the descriptors closed and the connection threads joined.\<close>

definition stop :: "mitm_proxy \<Rightarrow> mitm_proxy \<times> int list \<times> int list" where
  "stop p =
     (if \<not> mp_running p then (p, [], [])
      else (p\<lparr>mp_running := False, mp_listenFd := -1, mp_listener := False, mp_threads := []\<rparr>,
            (if mp_listenFd p \<noteq> -1 then [mp_listenFd p] else []), mp_threads p))"

definition pushRecord :: "bytes \<Rightarrow> mitm_proxy \<Rightarrow> mitm_proxy" where
  "pushRecord r p = p\<lparr>mp_queue := mp_queue p @ [r]\<rparr>"

definition drain :: "(u16 list \<Rightarrow> string) \<Rightarrow> 't \<Rightarrow> mitm_proxy \<times> 't knd_model \<Rightarrow> (mitm_proxy \<times> 't knd_model) option" where
  "drain utf8 now pm = (case pm of (p, mdl) \<Rightarrow>
     map_option (Pair (p\<lparr>mp_queue := []\<rparr>)) (ingest_all utf8 (mp_queue p) now mdl))"

text \<open>One turn of the listener: the flag before and after the wait, what the wait and the accept return.\<close>

record listen_answer =
  la_running :: bool
  la_select :: int
  la_still :: bool
  la_accept :: int

fun listenLoop :: "listen_answer list \<Rightarrow> mitm_proxy \<Rightarrow> mitm_proxy" where
  "listenLoop [] p = p"
| "listenLoop (a # as) p =
     (if \<not> la_running a then p
      else if \<not> la_still a then p
      else if la_select a \<le> 0 then listenLoop as p
      else if la_accept a = -1 then listenLoop as p
      else listenLoop as (p\<lparr>mp_conns := mp_conns p + 1, mp_threads := mp_threads p @ [la_accept a]\<rparr>))"

section \<open>One connection\<close>

definition MBEDTLS_ERR_SSL_WANT_READ :: int where "MBEDTLS_ERR_SSL_WANT_READ = -0x6900"
definition MBEDTLS_ERR_SSL_WANT_WRITE :: int where "MBEDTLS_ERR_SSL_WANT_WRITE = -0x6880"

definition want :: "int \<Rightarrow> bool" where
  "want n \<longleftrightarrow> n = MBEDTLS_ERR_SSL_WANT_READ \<or> n = MBEDTLS_ERR_SSL_WANT_WRITE"

text \<open>A handshake that still waits when the answers end has no result.\<close>

fun handshake :: "int list \<Rightarrow> int option" where
  "handshake [] = None"
| "handshake (hs # rest) = (if hs = 0 then Some 0 else if \<not> want hs then Some hs else handshake rest)"

text \<open>Writing all of the data: what was sent, whether no write failed, and the answers left over; no result
  while the library keeps asking to wait.\<close>

fun write_all :: "int list \<Rightarrow> bytes \<Rightarrow> bytes \<Rightarrow> (bytes \<times> bool \<times> int list) option" where
  "write_all ws [] sent = Some (sent, True, ws)"
| "write_all [] (b # bs) sent = None"
| "write_all (w # ws) (b # bs) sent =
     (if want w then write_all ws (b # bs) sent
      else if w \<le> 0 then Some (sent, False, ws)
      else write_all ws (drop (nat w) (b # bs)) (sent @ take (nat w) (b # bs)))"

text \<open>One direction until the source has no more: a read is a code or data, and the end of the answers is that
  nothing more can be read now. \<open>done\<close> only ends the relay after this loop.\<close>

fun pump :: "(nat \<Rightarrow> u32 \<times> u32) \<Rightarrow> u64 \<Rightarrow> u8 \<Rightarrow> (int + bytes) list \<Rightarrow> int list \<Rightarrow> bool \<Rightarrow> bytes list \<Rightarrow> bytes
    \<Rightarrow> (bool \<times> bytes list \<times> bytes) option" where
  "pump clock flow dir [] ws done recs sent = Some (done, recs, sent)"
| "pump clock flow dir (Inl n # rs) ws done recs sent = Some (if want n then done else True, recs, sent)"
| "pump clock flow dir (Inr data # rs) ws done recs sent =
     (case write_all ws data sent of
        None \<Rightarrow> None
      | Some (sent2, ok, ws2) \<Rightarrow>
          pump clock flow dir rs ws2 (done \<or> \<not> ok) (recs @ [BuildData (clock (length recs)) flow dir data]) sent2)"

record relay_round =
  rr_client_reads :: "(int + bytes) list"
  rr_up_writes :: "int list"
  rr_up_reads :: "(int + bytes) list"
  rr_client_writes :: "int list"

text \<open>The rounds end when the proxy is stopped.\<close>

fun relay :: "(nat \<Rightarrow> u32 \<times> u32) \<Rightarrow> u64 \<Rightarrow> relay_round list \<Rightarrow> bytes list \<Rightarrow> bytes \<Rightarrow> bytes
    \<Rightarrow> (bytes list \<times> bytes \<times> bytes) option" where
  "relay clock flow [] recs up down = Some (recs, up, down)"
| "relay clock flow (r # rs) recs up down =
     (case pump clock flow KND_DIR_OUTBOUND (rr_client_reads r) (rr_up_writes r) False recs up of
        None \<Rightarrow> None
      | Some (done, recs1, up1) \<Rightarrow>
          if done then Some (recs1, up1, down)
          else (case pump clock flow KND_DIR_INBOUND (rr_up_reads r) (rr_client_writes r) False recs1 down of
             None \<Rightarrow> None
           | Some (done2, recs2, down2) \<Rightarrow>
               if done2 then Some (recs2, up1, down2) else relay clock flow rs recs2 up1 down2))"

record 'k conn_env =
  ce_input :: bytes
  ce_peeked :: bytes
  ce_dest :: "bytes option"
  ce_keygen :: "'k keygen"
  ce_parse_crt :: "string \<Rightarrow> int"
  ce_parse_key :: "string \<Rightarrow> int"
  ce_server_defaults :: int
  ce_own_cert :: int
  ce_server_setup :: int
  ce_client_hs :: "int list"
  ce_connect :: "string \<Rightarrow> string \<Rightarrow> int"
  ce_client_defaults :: int
  ce_client_setup :: int
  ce_up_hs :: "string \<Rightarrow> int list"
  ce_clock :: "nat \<Rightarrow> u32 \<times> u32"
  ce_rounds :: "relay_round list"

record conn_target =
  ct_host :: string
  ct_certHost :: string
  ct_port :: u16

text \<open>The reply sent in the clear and the target, if the connection goes on.\<close>

definition find_target :: "'k conn_env \<Rightarrow> (string \<times> conn_target option) option" where
  "find_target e = (case ce_input e of
     [] \<Rightarrow> Some ([], None)
   | first # _ \<Rightarrow>
       if first = 0x16
       then (if ce_peeked e = [] then Some ([], None)
         else Option.bind (ParseSni (ce_peeked e)) (\<lambda>sni.
           case QueryOriginalDest (ce_dest e) of
             None \<Rightarrow> Some ([], None)
           | Some rc \<Rightarrow>
               (let ip = snprintf 64 (join ''.'' (map (\<lambda>i. dec_text (unat (rx_origAddr rc ! i))) [0, 1, 2, 3])) in
                Some ([], Some \<lparr>ct_host = ip, ct_certHost = (if sni = [] then ip else sni), ct_port = rx_origPort rc\<rparr>))))
       else (case ReadPreamble (text_of (ce_input e)) [] of
           None \<Rightarrow> Some ([], None)
         | Some pre \<Rightarrow> (case ParseConnect pre of
             None \<Rightarrow> Some (''HTTP/1.1 501 Not Implemented'' @ CRLF @ CRLF, None)
           | Some (host, port) \<Rightarrow> Some (''HTTP/1.1 200 Connection Established'' @ CRLF @ CRLF,
               Some \<lparr>ct_host = host, ct_certHost = host, ct_port = port\<rparr>))))"

text \<open>From the minted certificate to two established TLS sessions.\<close>

definition conn_setup :: "'k conn_env \<Rightarrow> minted_cert \<Rightarrow> conn_target \<Rightarrow> bool option" where
  "conn_setup e mc t =
     (if ce_parse_crt e (c_str (mc_certChainPem mc)) \<noteq> 0 then Some False
      else if ce_parse_key e (c_str (mc_keyPem mc)) \<noteq> 0 then Some False
      else if ce_server_defaults e \<noteq> 0 then Some False
      else if ce_own_cert e \<noteq> 0 then Some False
      else if ce_server_setup e \<noteq> 0 then Some False
      else Option.bind (handshake (ce_client_hs e)) (\<lambda>hs. if hs \<noteq> 0 then Some False
      else (let portStr = snprintf 8 (dec_text (unat (ct_port t))) in
        if ce_connect e (c_str (ct_host t)) portStr \<noteq> 0 then Some False
        else if ce_client_defaults e \<noteq> 0 then Some False
        else if ce_client_setup e \<noteq> 0 then Some False
        else Option.bind (handshake (ce_up_hs e (c_str (ct_certHost t)))) (\<lambda>hs. Some (hs = 0)))))"

record conn_log =
  cl_flow :: u64
  cl_reply :: string
  cl_opened :: bool
  cl_records :: "bytes list"
  cl_up :: bytes
  cl_down :: bytes

definition new_log :: "u64 \<Rightarrow> conn_log" where
  "new_log flow = \<lparr>cl_flow = flow, cl_reply = [], cl_opened = False, cl_records = [], cl_up = [], cl_down = []\<rparr>"

text \<open>The body of the connection, up to the point where the code breaks out of it.\<close>

definition conn_body ::
  "widen_fun \<Rightarrow> 'k x509_lib \<Rightarrow> 'k conn_env \<Rightarrow> u64 \<Rightarrow> 'k mitm_ca \<Rightarrow> (conn_log \<times> 'k mitm_ca) option" where
  "conn_body widen lib e flow ca =
     Option.bind (find_target e) (\<lambda>(reply, target).
       let l = (new_log flow)\<lparr>cl_reply := reply\<rparr> in
       case target of
         None \<Rightarrow> Some (l, ca)
       | Some t \<Rightarrow> (case certForHost lib (ce_keygen e) (ct_certHost t) ca of
           (Inl _, ca1) \<Rightarrow> Some (l, ca1)
         | (Inr mc, ca1) \<Rightarrow> Option.bind (conn_setup e mc t) (\<lambda>ok.
             if \<not> ok then Some (l, ca1)
             else map_option (\<lambda>(recs, up, down). (l\<lparr>cl_opened := True, cl_records := recs, cl_up := up, cl_down := down\<rparr>, ca1))
               (relay (ce_clock e) flow (ce_rounds e)
                  [BuildConnOpen widen (ce_clock e 0) flow (ct_certHost t) (ct_port t)] [] []))))"

definition handleConn ::
  "widen_fun \<Rightarrow> 'k x509_lib \<Rightarrow> 'k conn_env \<Rightarrow> mitm_proxy \<times> 'k mitm_ca \<Rightarrow> (conn_log \<times> mitm_proxy \<times> 'k mitm_ca) option" where
  "handleConn widen lib e pc = (case pc of (p, ca) \<Rightarrow>
     (let flow = push_bit 63 1 OR mp_nextFlow p;
          p1 = p\<lparr>mp_active := mp_active p + 1, mp_nextFlow := mp_nextFlow p + 1\<rparr> in
      map_option (\<lambda>(l, ca1).
        (let recs = cl_records l @
               (if cl_opened l then [BuildConnClose (ce_clock e (length (cl_records l))) flow] else []) in
         (l\<lparr>cl_records := recs\<rparr>, (fold pushRecord recs p1)\<lparr>mp_active := mp_active p1 - 1\<rparr>, ca1)))
        (conn_body widen lib e flow ca)))"

section \<open>Parsing stays in bounds and finds the target\<close>

lemma byte_at_Some: "i < length d \<Longrightarrow> byte_at d i = Some (unat (d ! i))"
  by (simp add: byte_at_def)

lemma word_at_Some: "i + 1 < length d \<Longrightarrow> word_at d i = Some (unat (d ! i) * 256 + unat (d ! (i + 1)))"
  by (simp add: word_at_def byte_at_Some)

lemma sni_loop_total: "extEnd \<le> length d \<Longrightarrow> \<exists>s. sni_loop d extEnd p = Some s"
proof (induction d extEnd p rule: sni_loop.induct)
  case (1 d extEnd p)
  show ?case
  proof (cases "p + 4 \<le> extEnd")
    case True
    obtain et el where w: "word_at d p = Some et" "word_at d (p + 2) = Some el"
      using True 1(2) by (simp add: word_at_Some)
    have n: "p + 4 + 5 \<le> extEnd \<Longrightarrow> \<exists>k. word_at d (p + 4 + 3) = Some k" using 1(2) by (simp add: word_at_Some)
    show ?thesis
    proof (cases "et = 0")
      case True
      then show ?thesis using w n 1(2) by (subst sni_loop.simps) auto
    next
      case False
      then have "\<exists>s. sni_loop d extEnd (p + 4 + el) = Some s" using 1(1) [OF True, of et el] 1(2) w by simp
      then show ?thesis using w False True by (subst sni_loop.simps) simp
    qed
  qed (simp add: sni_loop.simps)
qed

lemma ParseSni_returns: "\<exists>s. ParseSni d = Some s"
  using sni_loop_total [of _ d]
  by (auto simp: ParseSni_def Let_def byte_at_Some word_at_Some)

text \<open>A ClientHello as the client writes it: header, version and random, session, suites, compression,
  extensions.\<close>

definition be2 :: "nat \<Rightarrow> bytes" where
  "be2 n = [word_of_nat (n div 256), word_of_nat n]"

definition enc_ext :: "u16 \<times> bytes \<Rightarrow> bytes" where
  "enc_ext x = (case x of (ty, body) \<Rightarrow> be2 (unat ty) @ be2 (length body) @ body)"

definition sni_body :: "string \<Rightarrow> bytes" where
  "sni_body host = be2 (length host + 3) @ [0] @ be2 (length host) @ bytes_of_text host"

definition client_hello :: "bytes \<Rightarrow> bytes \<Rightarrow> bytes \<Rightarrow> bytes \<Rightarrow> bytes \<Rightarrow> (u16 \<times> bytes) list \<Rightarrow> bytes" where
  "client_hello hdr verRandom sid suites methods exts =
     (let xs = concat (map enc_ext exts) in
      hdr @ verRandom @ [word_of_nat (length sid)] @ sid @ be2 (length suites) @ suites
      @ [word_of_nat (length methods)] @ methods @ be2 (length xs) @ xs)"

lemma unat_be2: "n < 65536 \<Longrightarrow> unat (be2 n ! 0) * 256 + unat (be2 n ! 1) = n"
  by (simp add: be2_def unat_of_nat)

lemma word_at_be2: "n < 65536 \<Longrightarrow> length pre = i \<Longrightarrow> word_at (pre @ be2 n @ post) i = Some n"
proof -
  assume n: "n < 65536" and i: "length pre = i"
  have "i + 1 < length (pre @ be2 n @ post)" using i by (simp add: be2_def)
  then show ?thesis using word_at_Some [of i "pre @ be2 n @ post"] unat_be2 [OF n] i by (simp add: nth_append be2_def)
qed

lemma byte_at_mid: "length pre = i \<Longrightarrow> byte_at (pre @ b # post) i = Some (unat b)"
  by (auto simp: byte_at_def)

lemma sni_loop_skip:
  assumes "length pre = p" "ty \<noteq> 0" "length body < 65536" "p + 4 \<le> extEnd"
  shows "sni_loop (pre @ enc_ext (ty, body) @ post) extEnd p = sni_loop (pre @ enc_ext (ty, body) @ post) extEnd (p + 4 + length body)"
proof -
  let ?d = "pre @ enc_ext (ty, body) @ post"
  have "unat ty < 65536" by simp
  then have "word_at ?d p = Some (unat ty)"
    using word_at_be2 [of "unat ty" pre p "be2 (length body) @ body @ post"] assms(1) by (simp add: enc_ext_def)
  moreover have "word_at ?d (p + 2) = Some (length body)"
    using word_at_be2 [OF assms(3), of "pre @ be2 (unat ty)" "p + 2" "body @ post"] assms(1) by (simp add: enc_ext_def be2_def)
  ultimately show ?thesis using assms(2,4) by (subst sni_loop.simps) (simp add: unat_eq_0)
qed

lemma sni_loop_found:
  assumes "length pre = p" "length host + 5 < 65536" "p + 9 + length host \<le> extEnd"
  shows "sni_loop (pre @ enc_ext (0, sni_body host) @ post) extEnd p = Some host"
proof -
  let ?d = "pre @ enc_ext (0, sni_body host) @ post"
  have b: "length (sni_body host) = length host + 5" by (simp add: sni_body_def be2_def)
  have "word_at ?d p = Some 0"
    using word_at_be2 [of 0 pre p] assms(1) by (simp add: enc_ext_def)
  moreover have "word_at ?d (p + 2) = Some (length host + 5)"
    using word_at_be2 [OF assms(2), of "pre @ be2 0" "p + 2"] assms(1) b by (simp add: enc_ext_def be2_def)
  moreover have "word_at ?d (p + 4 + 3) = Some (length host)"
    using word_at_be2 [of "length host" "pre @ be2 0 @ be2 (length host + 5) @ be2 (length host + 3) @ [0]" "p + 7" "bytes_of_text host @ post"] assms(1,2) b
    by (simp add: enc_ext_def sni_body_def be2_def add.commute)
  moreover have "take (length host) (drop (p + 4 + 5) ?d) = bytes_of_text host" "p + 4 + 5 + length host \<le> length ?d"
    using assms(1) by (simp_all add: enc_ext_def sni_body_def be2_def)
  ultimately show ?thesis using assms(3) by (subst sni_loop.simps) simp
qed

lemma length_enc_ext: "length (enc_ext (ty, body)) = 4 + length body"
  by (simp add: enc_ext_def be2_def)

lemma sni_loop_exts:
  assumes "length pre = p" "\<forall>x \<in> set before. fst x \<noteq> 0 \<and> length (snd x) < 65536" "length host + 5 < 65536"
    "p + length (concat (map enc_ext before)) + 9 + length host \<le> extEnd"
  shows "sni_loop (pre @ concat (map enc_ext before) @ enc_ext (0, sni_body host) @ post) extEnd p = Some host"
  using assms
proof (induction before arbitrary: pre p)
  case Nil
  then show ?case using sni_loop_found [of pre p host extEnd post] by simp
next
  case (Cons x xs)
  obtain ty body where x: "x = (ty, body)" by (cases x)
  let ?rest = "concat (map enc_ext xs) @ enc_ext (0, sni_body host) @ post"
  have "sni_loop (pre @ enc_ext (ty, body) @ ?rest) extEnd p = sni_loop (pre @ enc_ext (ty, body) @ ?rest) extEnd (p + 4 + length body)"
    using Cons.prems x by (intro sni_loop_skip) (simp_all add: length_enc_ext)
  also have "\<dots> = Some host"
    using Cons.IH [of "pre @ enc_ext (ty, body)" "p + 4 + length body"] Cons.prems x by (simp add: length_enc_ext)
  finally show ?case by (simp add: x)
qed

lemma ParseSni_path:
  assumes "43 < length d" "d ! 0 = 0x16" "byte_at d 5 = Some 1" "byte_at d 43 = Some a" "44 + a + 2 \<le> length d"
    "word_at d (44 + a) = Some b" "44 + a + 2 + b < length d" "byte_at d (44 + a + 2 + b) = Some c"
    "44 + a + 2 + b + 1 + c + 2 \<le> length d" "word_at d (44 + a + 2 + b + 1 + c) = Some e"
    "44 + a + 2 + b + 1 + c + 2 + e \<le> length d"
  shows "ParseSni d = sni_loop d (44 + a + 2 + b + 1 + c + 2 + e) (44 + a + 2 + b + 1 + c + 2)"
proof -
  have pos: "5 + (4 + 2 + 32) = (43 :: nat)" "43 + (1 + a) = 44 + a" "44 + a + (2 + b) = 44 + a + 2 + b"
    "44 + a + 2 + b + (1 + c) = 44 + a + 2 + b + 1 + c" by simp_all
  show ?thesis unfolding ParseSni_def Let_def pos using assms by (simp only: pos bind.simps if_False not_less not_le if_True refl simp_thms)
      (simp add: not_less)
qed

lemma ParseSni_client_hello:
  assumes "length hdr = 9" "hdr ! 0 = 0x16" "hdr ! 5 = 1" "length verRandom = 34" "length sid < 256" "length methods < 256"
    "length suites < 65536" "length host + 5 < 65536" "\<forall>x \<in> set before. fst x \<noteq> 0 \<and> length (snd x) < 65536"
    and "length (concat (map enc_ext (before @ (0, sni_body host) # after))) < 65536"
  shows "ParseSni (client_hello hdr verRandom sid suites methods (before @ (0, sni_body host) # after)) = Some host"
proof -
  define xs where "xs = concat (map enc_ext (before @ (0, sni_body host) # after))"
  define d where "d = client_hello hdr verRandom sid suites methods (before @ (0, sni_body host) # after)"
  define p1 where "p1 = 44 + length sid"
  define p2 where "p2 = p1 + 2 + length suites"
  define p3 where "p3 = p2 + 1 + length methods"
  have d: "d = hdr @ verRandom @ [word_of_nat (length sid)] @ sid @ be2 (length suites) @ suites
      @ [word_of_nat (length methods)] @ methods @ be2 (length xs) @ xs"
    by (simp add: d_def client_hello_def xs_def Let_def)
  have n: "length d = p3 + 2 + length xs" using assms(1,4) by (simp add: d p1_def p2_def p3_def be2_def)
  have "byte_at d 43 = Some (length sid)"
    using byte_at_mid [of "hdr @ verRandom" 43] assms(1,4,5) by (simp add: d unat_of_nat)
  moreover have "byte_at d 5 = Some 1" using assms(1,3) by (simp add: d byte_at_def nth_append)
  moreover have "word_at d p1 = Some (length suites)"
    using word_at_be2 [OF assms(7), of "hdr @ verRandom @ [word_of_nat (length sid)] @ sid" p1] assms(1,4) by (simp add: d p1_def)
  moreover have "byte_at d p2 = Some (length methods)"
    using byte_at_mid [of "hdr @ verRandom @ [word_of_nat (length sid)] @ sid @ be2 (length suites) @ suites" p2] assms(1,4,6)
    by (simp add: d p1_def p2_def be2_def unat_of_nat)
  moreover have "word_at d p3 = Some (length xs)"
    using word_at_be2 [of "length xs" "hdr @ verRandom @ [word_of_nat (length sid)] @ sid @ be2 (length suites) @ suites
      @ [word_of_nat (length methods)] @ methods" p3 xs] assms(1,4,10) by (simp add: d p1_def p2_def p3_def be2_def xs_def)
  moreover have "sni_loop d (p3 + 2 + length xs) (p3 + 2) = Some host"
  proof -
    define pre where "pre = hdr @ verRandom @ [word_of_nat (length sid)] @ sid @ be2 (length suites) @ suites
      @ [word_of_nat (length methods)] @ methods @ be2 (length xs)"
    have "length pre = p3 + 2" using assms(1,4) by (simp add: pre_def p1_def p2_def p3_def be2_def)
    moreover have "d = pre @ concat (map enc_ext before) @ enc_ext (0, sni_body host) @ concat (map enc_ext after)"
      by (simp add: d pre_def xs_def)
    moreover have "length (concat (map enc_ext before)) + 9 + length host \<le> length xs"
      by (simp add: xs_def length_enc_ext sni_body_def be2_def)
    ultimately show ?thesis using sni_loop_exts [of pre "p3 + 2" before host "p3 + 2 + length xs"] assms(8,9) by simp
  qed
  moreover have "d ! 0 = 0x16" using assms(1,2) by (simp add: d nth_append)
  ultimately have "ParseSni d = Some host"
    using ParseSni_path [of d "length sid" "length suites" "length methods" "length xs"] n
    by (simp add: p1_def p2_def p3_def)
  then show ?thesis by (simp add: d_def)
qed

text \<open>The preamble ends at the first blank line.\<close>

definition blank_at :: "string \<Rightarrow> nat \<Rightarrow> bool" where
  "blank_at s k \<longleftrightarrow> 4 \<le> k \<and> take 4 (drop (k - 4) s) = CRLF @ CRLF"

definition first_blank :: "string \<Rightarrow> bool" where
  "first_blank pre \<longleftrightarrow> blank_at pre (length pre) \<and> (\<forall>k < length pre. \<not> blank_at pre k)"

lemma blank_at_take: "length out \<ge> k \<Longrightarrow> blank_at (out @ rest) k = (4 \<le> k \<and> drop (k - 4) (take k out) = CRLF @ CRLF)"
  by (auto simp: blank_at_def drop_take)

lemma ReadPreamble_first:
  "length out < length pre \<Longrightarrow> length pre \<le> 8192 \<Longrightarrow> pre @ tail = out @ inp \<Longrightarrow> blank_at pre (length pre) \<Longrightarrow>
   \<forall>k < length pre. length out < k \<longrightarrow> \<not> blank_at pre k \<Longrightarrow> ReadPreamble inp out = Some pre"
proof (induction inp arbitrary: out)
  case Nil
  then show ?case by (metis append_Nil2 length_append not_add_less1)
next
  case (Cons c inp)
  let ?out = "out @ [c]"
  have o: "take (length ?out) pre = ?out"
  proof -
    have "take (length ?out) (pre @ tail) = ?out" using Cons.prems(3) by simp
    then show ?thesis using Cons.prems(1) by simp
  qed
  then have w: "blank_at pre (length ?out) \<longleftrightarrow> 4 \<le> length ?out \<and> drop (length ?out - 4) ?out = CRLF @ CRLF"
    using blank_at_take [of "length ?out" pre "[]"] Cons.prems(1) by simp
  show ?case
  proof (cases "length ?out = length pre")
    case True
    then have "pre = ?out" using o by simp
    then show ?thesis using w Cons.prems(1,2,4) by (subst ReadPreamble.simps) simp
  next
    case False
    then have l: "length ?out < length pre" using Cons.prems(1) by simp
    then have "\<not> blank_at pre (length ?out)" using Cons.prems(5) by simp
    moreover have "ReadPreamble inp ?out = Some pre"
      using l Cons.prems by (intro Cons.IH) simp_all
    ultimately show ?thesis using w Cons.prems(1,2) by (subst ReadPreamble.simps) (auto simp: Let_def)
  qed
qed

lemma find_skip: "List.find P xs = None \<Longrightarrow> List.find P (xs @ ys) = List.find P ys"
  by (induction xs) (auto split: if_splits)

lemma rfind_char_last:
  assumes "c \<notin> set post"
  shows "rfind_char c (pre @ c # post) = Some (length pre)"
proof -
  let ?s = "pre @ c # post"
  have "[0..<length ?s] = [0..<length pre] @ [length pre..<length pre + Suc (length post)]"
    using upt_add_eq_append [of 0 "length pre" "Suc (length post)"] by (simp del: upt_Suc)
  also have "[length pre..<length pre + Suc (length post)] = length pre # [Suc (length pre)..<length ?s]"
    by (subst upt_conv_Cons) (simp_all del: upt_Suc)
  finally have "rev [0..<length ?s] = rev [Suc (length pre)..<length ?s] @ length pre # rev [0..<length pre]"
    by (simp del: upt_Suc)
  moreover have "?s ! i \<noteq> c" if "Suc (length pre) \<le> i" "i < length ?s" for i
  proof -
    have "?s ! i = post ! (i - Suc (length pre))" "i - Suc (length pre) < length post" using that by (auto simp: nth_append nth_Cons')
    then show ?thesis using assms nth_mem by metis
  qed
  then have "List.find (\<lambda>i. ?s ! i = c) (rev [Suc (length pre)..<length ?s]) = None"
    by (auto simp: find_None_iff simp del: upt_Suc)
  ultimately show ?thesis by (simp add: rfind_char_def find_skip del: upt_Suc)
qed

lemma ParseConnect_line:
  assumes "CHR '' '' \<notin> set host"
  shows "ParseConnect (''CONNECT '' @ host @ '':'' @ dec_text (unat port) @ '' '' @ rest) = Some (host, if port = 0 then 443 else port)"
proof -
  let ?hp = "host @ CHR '':'' # dec_text (unat port)" and ?pre = "''CONNECT '' @ host @ '':'' @ dec_text (unat port) @ '' '' @ rest"
  have dig: "\<exists>d < 10. x = digit d" if "x \<in> set (dec_text (unat port))" for x
    using numeral_text_digits [OF _ _ that] by simp
  have sep: "CHR '' '' \<notin> set ?hp" "CHR '':'' \<notin> set (dec_text (unat port))" "c_str (dec_text (unat port)) = dec_text (unat port)"
  proof -
    have d: "x \<noteq> CHR '' '' \<and> x \<noteq> CHR '':'' \<and> x \<noteq> CHR 0x00" if x: "x \<in> set (dec_text (unat port))" for x
    proof -
      obtain d where "d < 10" "x = digit d" using dig [OF x] by auto
      then show ?thesis using of_char_digit [of d] by auto
    qed
    show "CHR '' '' \<notin> set ?hp" "CHR '':'' \<notin> set (dec_text (unat port))" using d assms by auto
    show "c_str (dec_text (unat port)) = dec_text (unat port)"
      unfolding c_str_def by (rule iffD2 [OF takeWhile_eq_all_conv]) (use d in auto)
  qed
  have "find_text '' '' ?pre 8 = Some (8 + length ?hp)"
    using find_char_split [OF sep(1), of "''CONNECT ''" 8 rest] by simp
  moreover have "substr 8 (8 + length ?hp - 8) ?pre = ?hp" by (simp add: substr_def)
  moreover have "substr 0 8 ?pre = ''CONNECT ''" by (simp add: substr_def)
  moreover have "rfind_char (CHR '':'') ?hp = Some (length host)" by (rule rfind_char_last [OF sep(2)])
  moreover have "word_of_int (atoi (dec_text (unat port))) = port"
  proof -
    have "unat port < 2 ^ 31" by (rule less_trans [OF unat_u16_lt]) simp
    then show ?thesis by (simp add: atoi_numeral)
  qed
  ultimately show ?thesis
    unfolding ParseConnect_def using sep(3) by (simp add: Let_def substr_def)
qed

section \<open>The records and the bytes of a connection\<close>

definition open_msg :: "widen_fun \<Rightarrow> u32 \<times> u32 \<Rightarrow> u64 \<Rightarrow> string \<Rightarrow> u16 \<Rightarrow> app_msg" where
  "open_msg widen ft flow host port =
     (let (n, wpath) = widen (c_str (host @ '' (MITM)''));
          p = zero_conn\<lparr>cp_flowId := flow, cp_processId := 0, cp_protocol := KND_PROTO_TCP,
                cp_ipVersion := KND_IPV4, cp_direction := KND_DIR_OUTBOUND, cp_remotePort := port,
                cp_processPath := wpath\<rparr> in
      MConn \<lparr>rec_length = word_of_nat (sizeof_RECORD + sizeof_CONN_PAYLOAD), rec_type = KND_REC_CONN_OPEN,
             rec_flags = 0, rec_sequence = 0, rec_timestamp = NowTicks ft\<rparr>
        (if 0 < n then p\<lparr>cp_processPathChars := word_of_nat (n - 1)\<rparr> else p))"

definition data_msg :: "u32 \<times> u32 \<Rightarrow> u64 \<Rightarrow> u8 \<Rightarrow> bytes \<Rightarrow> app_msg" where
  "data_msg ft flow dir data =
     MData \<lparr>rec_length = word_of_nat (sizeof_RECORD + sizeof_DATA_PAYLOAD + length data), rec_type = KND_REC_DATA,
            rec_flags = 0, rec_sequence = 0, rec_timestamp = NowTicks ft\<rparr>
       \<lparr>dp_flowId = flow, dp_direction = dir, dp_dataKind = KND_DATA_PLAINTEXT, dp_reserved0 = 0,
        dp_dataLength = word_of_nat (length data)\<rparr> data"

definition close_msg :: "u32 \<times> u32 \<Rightarrow> u64 \<Rightarrow> app_msg" where
  "close_msg ft flow =
     MConn \<lparr>rec_length = word_of_nat (sizeof_RECORD + sizeof_CONN_PAYLOAD), rec_type = KND_REC_CONN_CLOSE,
            rec_flags = 0, rec_sequence = 0, rec_timestamp = NowTicks ft\<rparr> (zero_conn\<lparr>cp_flowId := flow\<rparr>)"

lemma Build_make:
  "BuildConnOpen widen ft flow host port = app_make (open_msg widen ft flow host port)"
  "BuildData ft flow dir data = app_make (data_msg ft flow dir data)"
  "BuildConnClose ft flow = app_make (close_msg ft flow)"
  by (simp_all add: BuildConnOpen_def open_msg_def BuildData_def data_msg_def BuildConnClose_def close_msg_def Let_def
      split: prod.split)

lemma zero_conn_wf: "wf_conn zero_conn" "cp_processPathChars zero_conn = 0"
  by (simp_all add: wf_conn_def zero_conn_def)

lemma open_msg_valid: "widen_ok widen \<Longrightarrow> app_valid (open_msg widen ft flow host port)"
proof -
  assume w: "widen_ok widen"
  obtain n wpath where e: "widen (c_str (host @ '' (MITM)'')) = (n, wpath)" by fastforce
  have "n \<le> 260" "length wpath = 260" using w e unfolding widen_ok_def const_defs by (metis fst_conv snd_conv)+
  then show ?thesis
    by (auto simp: open_msg_def e Let_def wf_conn_def zero_conn_def const_defs unat_of_nat simp del: of_nat_diff)
qed

lemma data_msg_valid: "length data < 2 ^ 32 \<Longrightarrow> app_valid (data_msg ft flow dir data)"
  by (simp add: data_msg_def unat_of_nat)

lemma close_msg_valid: "app_valid (close_msg ft flow)"
  by (simp add: close_msg_def wf_conn_def zero_conn_def)

lemma msg_parts [simp]:
  "app_part (open_msg widen ft flow host port) fid d = []"
  "app_part (data_msg ft flow dir data) fid d = (if fid = flow \<and> d = flow_dir dir then data else [])"
  "app_part (close_msg ft flow) fid d = []"
  by (simp_all add: open_msg_def data_msg_def close_msg_def Let_def split: prod.split)

definition writes_ok :: "int list \<Rightarrow> bool" where
  "writes_ok ws \<longleftrightarrow> (\<forall>w \<in> set ws. want w \<or> 0 < w)"

definition reads_ok :: "(int + bytes) list \<Rightarrow> bool" where
  "reads_ok rs \<longleftrightarrow> (\<forall>x \<in> set rs. case x of Inl n \<Rightarrow> n \<le> 0 | Inr data \<Rightarrow> 0 < length data \<and> length data \<le> 16384)"

lemma write_all_ok: "write_all ws data sent = Some (sent2, ok, ws2) \<Longrightarrow> writes_ok ws \<Longrightarrow> ok \<and> sent2 = sent @ data \<and> writes_ok ws2"
proof (induction ws data sent rule: write_all.induct)
  case (3 w ws b bs sent)
  have ws: "writes_ok ws" using 3(4) by (simp add: writes_ok_def)
  consider "want w" | "\<not> want w" "0 < w" using 3(4) by (auto simp: writes_ok_def)
  then show ?case
  proof cases
    case 1
    then show ?thesis using 3(1) [OF 1 _ ws] 3(3) by simp
  next
    case 2
    then have "ok \<and> sent2 = (sent @ take (nat w) (b # bs)) @ drop (nat w) (b # bs) \<and> writes_ok ws2"
      using 3(2,3) ws by simp
    then show ?thesis by (metis append.assoc append_take_drop_id)
  qed
qed auto

definition relay_msg :: "u64 \<Rightarrow> u8 \<Rightarrow> app_msg \<Rightarrow> bool" where
  "relay_msg flow dir m \<longleftrightarrow> (\<exists>ft ch. m = data_msg ft flow dir ch \<and> length ch \<le> 16384)"

definition carried :: "u64 \<Rightarrow> nat \<Rightarrow> app_msg list \<Rightarrow> bytes" where
  "carried flow d msgs = concat (map (\<lambda>m. app_part m flow d) msgs)"

lemma carried_simps [simp]: "carried flow d [] = []" "carried flow d (m # ms) = app_part m flow d @ carried flow d ms"
  "carried flow d (ms @ ns) = carried flow d ms @ carried flow d ns"
  by (simp_all add: carried_def)

lemma pump_spec:
  "pump clock flow dir rs ws done recs sent = Some (done2, recs2, sent2) \<Longrightarrow> reads_ok rs \<Longrightarrow>
   \<exists>msgs. recs2 = recs @ map app_make msgs \<and> (\<forall>m \<in> set msgs. relay_msg flow dir m)
     \<and> (writes_ok ws \<longrightarrow> sent2 = sent @ carried flow (flow_dir dir) msgs)"
proof (induction rs arbitrary: ws "done" recs sent)
  case Nil
  then show ?case by (auto intro: exI [of _ "[]"])
next
  case (Cons x rs)
  have rs: "reads_ok rs" using Cons.prems(2) by (simp add: reads_ok_def)
  show ?case
  proof (cases x)
    case (Inl n)
    then show ?thesis using Cons.prems(1) by (auto intro: exI [of _ "[]"])
  next
    case (Inr data)
    obtain sent1 ok ws1 where w: "write_all ws data sent = Some (sent1, ok, ws1)"
      using Cons.prems(1) Inr by (auto split: option.splits)
    let ?m = "data_msg (clock (length recs)) flow dir data"
    have "pump clock flow dir rs ws1 (done \<or> \<not> ok) (recs @ [app_make ?m]) sent1 = Some (done2, recs2, sent2)"
      using Cons.prems(1) Inr w by (simp add: Build_make)
    from Cons.IH [OF this rs] obtain msgs where m: "recs2 = (recs @ [app_make ?m]) @ map app_make msgs"
      "\<forall>m \<in> set msgs. relay_msg flow dir m" "writes_ok ws1 \<longrightarrow> sent2 = sent1 @ carried flow (flow_dir dir) msgs" by blast
    have "length data \<le> 16384" using Cons.prems(2) Inr by (simp add: reads_ok_def)
    then have "relay_msg flow dir ?m" unfolding relay_msg_def by blast
    moreover have "writes_ok ws \<longrightarrow> sent2 = sent @ carried flow (flow_dir dir) (?m # msgs)"
      using m(3) write_all_ok [OF w] by auto
    ultimately show ?thesis using m by (intro exI [of _ "?m # msgs"]) simp
  qed
qed

definition round_ok :: "relay_round \<Rightarrow> bool" where
  "round_ok r \<longleftrightarrow> reads_ok (rr_client_reads r) \<and> reads_ok (rr_up_reads r)"

definition round_sends :: "relay_round \<Rightarrow> bool" where
  "round_sends r \<longleftrightarrow> writes_ok (rr_up_writes r) \<and> writes_ok (rr_client_writes r)"

lemma relay_msg_carried:
  assumes "\<forall>m \<in> set msgs. relay_msg flow dir m"
  shows "carried fid d msgs = (if fid = flow \<and> d = flow_dir dir then carried flow (flow_dir dir) msgs else [])"
  using assms
proof (induction msgs)
  case (Cons m ms)
  then obtain ft ch where "m = data_msg ft flow dir ch" by (auto simp: relay_msg_def)
  with Cons show ?case by auto
qed simp

lemma relay_spec:
  "relay clock flow rounds recs up down = Some (recs2, up2, down2) \<Longrightarrow> \<forall>r \<in> set rounds. round_ok r \<Longrightarrow>
   \<exists>msgs. recs2 = recs @ map app_make msgs
     \<and> (\<forall>m \<in> set msgs. relay_msg flow KND_DIR_OUTBOUND m \<or> relay_msg flow KND_DIR_INBOUND m)
     \<and> ((\<forall>r \<in> set rounds. round_sends r) \<longrightarrow> up2 = up @ carried flow 0 msgs \<and> down2 = down @ carried flow 1 msgs)"
proof (induction rounds arbitrary: recs up down)
  case Nil
  then show ?case by (auto intro: exI [of _ "[]"])
next
  case (Cons r rounds)
  have ok: "reads_ok (rr_client_reads r)" "reads_ok (rr_up_reads r)" "\<forall>r \<in> set rounds. round_ok r"
    using Cons.prems(2) by (simp_all add: round_ok_def)
  obtain done1 recs1 up1 where p1: "pump clock flow KND_DIR_OUTBOUND (rr_client_reads r) (rr_up_writes r) False recs up = Some (done1, recs1, up1)"
    using Cons.prems(1) by (auto split: option.splits)
  from pump_spec [OF p1 ok(1)] obtain m1 where m1: "recs1 = recs @ map app_make m1" "\<forall>m \<in> set m1. relay_msg flow KND_DIR_OUTBOUND m"
    "writes_ok (rr_up_writes r) \<longrightarrow> up1 = up @ carried flow 0 m1" by (auto simp: flow_dir_def const_defs)
  have c1: "carried flow 1 m1 = []" using relay_msg_carried [OF m1(2), of flow 1] by (simp add: flow_dir_def const_defs)
  show ?case
  proof (cases done1)
    case True
    then show ?thesis using Cons.prems(1) p1 m1 c1 by (intro exI [of _ m1]) (auto simp: round_sends_def)
  next
    case False
    obtain done2 recs3 down1 where p2: "pump clock flow KND_DIR_INBOUND (rr_up_reads r) (rr_client_writes r) False recs1 down = Some (done2, recs3, down1)"
      using Cons.prems(1) p1 False by (auto split: option.splits)
    from pump_spec [OF p2 ok(2)] obtain m2 where m2: "recs3 = recs1 @ map app_make m2" "\<forall>m \<in> set m2. relay_msg flow KND_DIR_INBOUND m"
      "writes_ok (rr_client_writes r) \<longrightarrow> down1 = down @ carried flow 1 m2" by (auto simp: flow_dir_def const_defs)
    have c2: "carried flow 0 m2 = []" using relay_msg_carried [OF m2(2), of flow 0] by (simp add: flow_dir_def const_defs)
    show ?thesis
    proof (cases done2)
      case True
      then show ?thesis using Cons.prems(1) p1 p2 False m1 m2 c1 c2
        by (intro exI [of _ "m1 @ m2"]) (auto simp: round_sends_def)
    next
      case more: False
      have "relay clock flow rounds recs3 up1 down1 = Some (recs2, up2, down2)"
        using Cons.prems(1) p1 p2 False more by simp
      from Cons.IH [OF this ok(3)] obtain ms where ms: "recs2 = recs3 @ map app_make ms"
        "\<forall>m \<in> set ms. relay_msg flow KND_DIR_OUTBOUND m \<or> relay_msg flow KND_DIR_INBOUND m"
        "(\<forall>r \<in> set rounds. round_sends r) \<longrightarrow> up2 = up1 @ carried flow 0 ms \<and> down2 = down1 @ carried flow 1 ms" by blast
      show ?thesis using m1 m2 ms c1 c2
        by (intro exI [of _ "m1 @ m2 @ ms"]) (auto simp: round_sends_def)
    qed
  qed
qed

section \<open>Connections\<close>

abbreviation conn_flow :: "mitm_proxy \<Rightarrow> u64" where
  "conn_flow p \<equiv> push_bit 63 1 OR mp_nextFlow p"

lemma fold_pushRecord: "fold pushRecord recs p = p\<lparr>mp_queue := mp_queue p @ recs\<rparr>"
  by (induction recs arbitrary: p) (simp_all add: pushRecord_def)

lemma conn_body_cases:
  assumes "conn_body widen lib e flow ca = Some (l, ca')"
  obtains (quiet) reply target where "find_target e = Some (reply, target)" "l = (new_log flow)\<lparr>cl_reply := reply\<rparr>"
      "ca' = ca \<or> (\<exists>host. ca' = snd (certForHost lib (ce_keygen e) host ca))"
  | (served) reply t recs up down where "find_target e = Some (reply, Some t)"
      "relay (ce_clock e) flow (ce_rounds e) [BuildConnOpen widen (ce_clock e 0) flow (ct_certHost t) (ct_port t)] [] [] = Some (recs, up, down)"
      "l = (new_log flow)\<lparr>cl_reply := reply, cl_opened := True, cl_records := recs, cl_up := up, cl_down := down\<rparr>"
      "ca' = snd (certForHost lib (ce_keygen e) (ct_certHost t) ca)"
proof -
  obtain reply target where f: "find_target e = Some (reply, target)"
    using assms by (auto simp: conn_body_def bind_eq_Some_conv)
  show thesis
  proof (cases target)
    case None
    then show thesis using assms f by (intro quiet) (auto simp: conn_body_def)
  next
    case (Some t)
    obtain r ca1 where c: "certForHost lib (ce_keygen e) (ct_certHost t) ca = (r, ca1)" by fastforce
    then have snd: "ca1 = snd (certForHost lib (ce_keygen e) (ct_certHost t) ca)" by simp
    show thesis
    proof (cases r)
      case (Inl x)
      then have "l = (new_log flow)\<lparr>cl_reply := reply\<rparr>" "ca' = ca1" using assms f Some c by (auto simp: conn_body_def)
      then show thesis using f snd by (intro quiet) auto
    next
      case (Inr mc)
      obtain ok where ok: "conn_setup e mc t = Some ok"
        using assms f Some c Inr by (auto simp: conn_body_def Let_def bind_eq_Some_conv)
      show thesis
      proof (cases ok)
        case True
        then obtain recs up down where "relay (ce_clock e) flow (ce_rounds e)
            [BuildConnOpen widen (ce_clock e 0) flow (ct_certHost t) (ct_port t)] [] [] = Some (recs, up, down)"
          "l = (new_log flow)\<lparr>cl_reply := reply, cl_opened := True, cl_records := recs, cl_up := up, cl_down := down\<rparr>" "ca' = ca1"
          using assms f Some c Inr ok by (auto simp: conn_body_def)
        then show thesis using f Some snd by (intro served) auto
      next
        case False
        then have "l = (new_log flow)\<lparr>cl_reply := reply\<rparr>" "ca' = ca1" using assms f Some c Inr ok by (auto simp: conn_body_def)
        then show thesis using f snd by (intro quiet) auto
      qed
    qed
  qed
qed

lemma handleConn_body:
  assumes "handleConn widen lib e (p, ca) = Some (l, p', ca')"
  obtains l0 where "conn_body widen lib e (conn_flow p) ca = Some (l0, ca')"
    "l = l0\<lparr>cl_records := cl_records l0 @ (if cl_opened l0 then [BuildConnClose (ce_clock e (length (cl_records l0))) (conn_flow p)] else [])\<rparr>"
    "p' = p\<lparr>mp_nextFlow := mp_nextFlow p + 1, mp_queue := mp_queue p @ cl_records l\<rparr>"
proof -
  obtain l0 where b: "conn_body widen lib e (conn_flow p) ca = Some (l0, ca')"
    "l = l0\<lparr>cl_records := cl_records l0 @ (if cl_opened l0 then [BuildConnClose (ce_clock e (length (cl_records l0))) (conn_flow p)] else [])\<rparr>"
    "p' = (fold pushRecord (cl_records l) (p\<lparr>mp_active := mp_active p + 1, mp_nextFlow := mp_nextFlow p + 1\<rparr>))\<lparr>mp_active := mp_active p\<rparr>"
    using assms by (auto simp: handleConn_def Let_def)
  moreover have "p' = p\<lparr>mp_nextFlow := mp_nextFlow p + 1, mp_queue := mp_queue p @ cl_records l\<rparr>"
    using b(3) by (simp add: fold_pushRecord)
  ultimately show thesis by (intro that)
qed

text \<open>A served connection: one open record, data records of either direction, one close record.\<close>

definition served_by :: "widen_fun \<Rightarrow> 'k conn_env \<Rightarrow> u64 \<Rightarrow> conn_log \<Rightarrow> conn_target \<Rightarrow> app_msg list \<Rightarrow> bool" where
  "served_by widen e flow l t msgs \<longleftrightarrow> find_target e = Some (cl_reply l, Some t)
     \<and> cl_records l = map app_make (open_msg widen (ce_clock e 0) flow (ct_certHost t) (ct_port t) # msgs
          @ [close_msg (ce_clock e (Suc (length msgs))) flow])
     \<and> (\<forall>m \<in> set msgs. relay_msg flow KND_DIR_OUTBOUND m \<or> relay_msg flow KND_DIR_INBOUND m)
     \<and> ((\<forall>r \<in> set (ce_rounds e). round_sends r) \<longrightarrow> cl_up l = carried flow 0 msgs \<and> cl_down l = carried flow 1 msgs)"

lemma handleConn_messages:
  assumes "handleConn widen lib e (p, ca) = Some (l, p', ca')" "\<forall>r \<in> set (ce_rounds e). round_ok r"
  shows "p' = p\<lparr>mp_nextFlow := mp_nextFlow p + 1, mp_queue := mp_queue p @ cl_records l\<rparr> \<and> cl_flow l = conn_flow p"
    "\<not> cl_opened l \<Longrightarrow> cl_records l = [] \<and> cl_up l = [] \<and> cl_down l = []"
    "cl_opened l \<Longrightarrow> \<exists>t msgs. served_by widen e (conn_flow p) l t msgs"
proof -
  from assms(1) obtain l0 where b: "conn_body widen lib e (conn_flow p) ca = Some (l0, ca')"
    "l = l0\<lparr>cl_records := cl_records l0 @ (if cl_opened l0 then [BuildConnClose (ce_clock e (length (cl_records l0))) (conn_flow p)] else [])\<rparr>"
    "p' = p\<lparr>mp_nextFlow := mp_nextFlow p + 1, mp_queue := mp_queue p @ cl_records l\<rparr>" by (rule handleConn_body)
  from b(1) have fl: "cl_flow l0 = conn_flow p" by (rule conn_body_cases) (simp_all add: new_log_def)
  then show "p' = p\<lparr>mp_nextFlow := mp_nextFlow p + 1, mp_queue := mp_queue p @ cl_records l\<rparr> \<and> cl_flow l = conn_flow p"
    using b by simp
  show "cl_records l = [] \<and> cl_up l = [] \<and> cl_down l = []" if "\<not> cl_opened l"
    using b(1) that b(2) by (elim conn_body_cases) (simp_all add: new_log_def)
  show "\<exists>t msgs. served_by widen e (conn_flow p) l t msgs" if "cl_opened l"
    using b(1)
  proof (cases rule: conn_body_cases)
    case (quiet reply target)
    then show ?thesis using that b(2) by (simp add: new_log_def)
  next
    case (served reply t recs up down)
    from relay_spec [OF served(2) assms(2)] obtain msgs where
      "recs = app_make (open_msg widen (ce_clock e 0) (conn_flow p) (ct_certHost t) (ct_port t)) # map app_make msgs"
      "\<forall>m \<in> set msgs. relay_msg (conn_flow p) KND_DIR_OUTBOUND m \<or> relay_msg (conn_flow p) KND_DIR_INBOUND m"
      "(\<forall>r \<in> set (ce_rounds e). round_sends r) \<longrightarrow> up = carried (conn_flow p) 0 msgs \<and> down = carried (conn_flow p) 1 msgs"
      by (auto simp: Build_make)
    then show ?thesis using served b(2) by (intro exI [of _ t] exI [of _ msgs]) (simp add: Build_make served_by_def)
  qed
qed

lemma relay_msg_valid: "relay_msg flow dir m \<Longrightarrow> app_valid m"
  by (auto simp: relay_msg_def intro!: data_msg_valid)

lemma relay_msgs_carried:
  assumes "\<forall>m \<in> set msgs. relay_msg flow KND_DIR_OUTBOUND m \<or> relay_msg flow KND_DIR_INBOUND m" "fid \<noteq> flow"
  shows "carried fid d msgs = []"
  using assms
proof (induction msgs)
  case (Cons m ms)
  then show ?case by (auto simp: relay_msg_def)
qed simp

lemma carried_other:
  assumes "\<forall>m \<in> set msgs. relay_msg flow KND_DIR_OUTBOUND m \<or> relay_msg flow KND_DIR_INBOUND m" "d < 2"
  shows "concat (map (\<lambda>m. app_part m fid d) (open_msg widen ft flow host port # msgs @ [close_msg ft2 flow]))
    = (if fid = flow then (if d = 0 then carried flow 0 msgs else carried flow 1 msgs) else [])"
proof -
  have "d = 0 \<or> d = 1" using assms(2) by auto
  then show ?thesis using relay_msgs_carried [OF assms(1), of fid d] by (auto simp: carried_def)
qed

lemma served_valid:
  assumes "widen_ok widen" "\<forall>m \<in> set msgs. relay_msg flow KND_DIR_OUTBOUND m \<or> relay_msg flow KND_DIR_INBOUND m"
  shows "\<forall>m \<in> set (open_msg widen ft flow host port # msgs @ [close_msg ft2 flow]). app_valid m"
  using assms relay_msg_valid open_msg_valid close_msg_valid by auto

section \<open>Interleaving\<close>

text \<open>The connections' threads push, the user interface drains: any order of the steps.\<close>

definition record_flow :: "bytes \<Rightarrow> u64" where
  "record_flow r = get64 r sizeof_RECORD"

inductive queue_step :: "(nat \<Rightarrow> bytes list) \<times> mitm_proxy \<times> bytes list \<Rightarrow> (nat \<Rightarrow> bytes list) \<times> mitm_proxy \<times> bytes list \<Rightarrow> bool" where
  queue_push: "todo i = r # rest \<Longrightarrow> queue_step (todo, p, seen) (todo(i := rest), pushRecord r p, seen)"
| queue_drain: "queue_step (todo, p, seen) (todo, p\<lparr>mp_queue := []\<rparr>, seen @ mp_queue p)"

definition queue_inv :: "(nat \<Rightarrow> bytes list) \<Rightarrow> (nat \<Rightarrow> bytes list) \<times> mitm_proxy \<times> bytes list \<Rightarrow> bool" where
  "queue_inv all s \<longleftrightarrow> (case s of (todo, p, seen) \<Rightarrow>
     \<forall>i flow. (\<forall>r \<in> set (all i). record_flow r = flow) \<and> (\<forall>j r. j \<noteq> i \<and> r \<in> set (all j) \<longrightarrow> record_flow r \<noteq> flow) \<longrightarrow>
       filter (\<lambda>r. record_flow r = flow) (seen @ mp_queue p) @ todo i = all i)
   \<and> (case s of (todo, p, seen) \<Rightarrow> \<forall>i. set (todo i) \<subseteq> set (all i))"

lemma queue_inv_step:
  assumes "queue_inv all s" "queue_step s s'"
  shows "queue_inv all s'"
  using assms(2)
proof (cases rule: queue_step.cases)
  case (queue_push todo i r rest p seen)
  have sub: "set (todo j) \<subseteq> set (all j)" for j using assms(1) queue_push by (simp add: queue_inv_def)
  then have r: "r \<in> set (all i)" "set rest \<subseteq> set (all i)" using queue_push(3) by (metis list.set_intros(1) subsetD, metis insert_subset list.simps(15))
  have "filter (\<lambda>r. record_flow r = flow) (seen @ mp_queue (pushRecord r p)) @ (todo(i := rest)) k = all k"
    if k: "\<forall>r \<in> set (all k). record_flow r = flow" "\<forall>j r. j \<noteq> k \<and> r \<in> set (all j) \<longrightarrow> record_flow r \<noteq> flow" for k flow
  proof -
    have "filter (\<lambda>r. record_flow r = flow) (seen @ mp_queue p) @ todo k = all k"
      using assms(1) queue_push(1) k by (simp add: queue_inv_def)
    then show ?thesis using k r(1) queue_push(3) by (cases "k = i") (auto simp: pushRecord_def)
  qed
  then show ?thesis using sub r(2) queue_push(2) by (auto simp: queue_inv_def)
next
  case (queue_drain todo p seen)
  then show ?thesis using assms(1) by (simp add: queue_inv_def)
qed

interpretation queue: transition_system queue_step "queue_inv all" for all
  by unfold_locales (rule queue_inv_step)

text \<open>Stopping takes several steps, and the listener may still accept while it does.\<close>

datatype stop_phase = Idle | Flagged | Joined

inductive proxy_step :: "mitm_proxy \<times> 'k mitm_ca \<times> 't knd_model \<times> stop_phase
    \<Rightarrow> mitm_proxy \<times> 'k mitm_ca \<times> 't knd_model \<times> stop_phase \<Rightarrow> bool" where
  step_start: "start port (Some (ca_ready ca)) bnd p = (r, p') \<Longrightarrow> proxy_step (p, ca, mdl, Idle) (p', ca, mdl, Idle)"
| step_listen: "mp_listener p \<Longrightarrow> proxy_step (p, ca, mdl, ph) (listenLoop as p, ca, mdl, ph)"
| step_conn: "handleConn widen lib e (p, ca) = Some (l, p', ca') \<Longrightarrow> widen_ok widen \<Longrightarrow> \<forall>r \<in> set (ce_rounds e). round_ok r \<Longrightarrow>
    proxy_step (p, ca, mdl, ph) (p', ca', mdl, ph)"
| step_drain: "drain utf8 now (p, mdl) = Some (p', mdl') \<Longrightarrow> proxy_step (p, ca, mdl, ph) (p', ca, mdl', ph)"
| stop_flag: "mp_running p \<Longrightarrow> proxy_step (p, ca, mdl, Idle) (p\<lparr>mp_running := False\<rparr>, ca, mdl, Flagged)"
| stop_join: "proxy_step (p, ca, mdl, Flagged) (p\<lparr>mp_listenFd := -1, mp_listener := False\<rparr>, ca, mdl, Joined)"
| stop_threads: "proxy_step (p, ca, mdl, Joined) (p\<lparr>mp_threads := []\<rparr>, ca, mdl, Idle)"

definition made :: "bytes \<Rightarrow> bool" where
  "made r \<longleftrightarrow> (\<exists>m. r = app_make m \<and> app_valid m)"

definition proxy_inv :: "mitm_proxy \<times> 'k mitm_ca \<times> 't knd_model \<times> stop_phase \<Rightarrow> bool" where
  "proxy_inv s \<longleftrightarrow> (case s of (p, ca, mdl, ph) \<Rightarrow>
     (mp_running p \<longrightarrow> ph = Idle \<and> mp_listener p \<and> mp_caSet p \<and> ca_ready ca)
   \<and> (\<not> mp_running p \<and> ph \<noteq> Flagged \<longrightarrow> mp_listenFd p = -1 \<and> \<not> mp_listener p)
   \<and> (\<not> mp_running p \<and> ph = Idle \<longrightarrow> mp_threads p = [])
   \<and> (ca_ready ca \<longrightarrow> ca_key ca \<noteq> None) \<and> (\<forall>r \<in> set (mp_queue p). made r) \<and> model_wf mdl)"

lemma listenLoop_fields [simp]:
  "mp_running (listenLoop as p) = mp_running p" "mp_listener (listenLoop as p) = mp_listener p"
  "mp_listenFd (listenLoop as p) = mp_listenFd p" "mp_caSet (listenLoop as p) = mp_caSet p"
  "mp_queue (listenLoop as p) = mp_queue p"
  by (induction as arbitrary: p) simp_all

lemma certForHost_ready:
  assumes "ca_ready ca \<longrightarrow> ca_key ca \<noteq> None"
  shows "ca_ready (snd (certForHost lib g host ca)) = ca_ready ca \<and> ca_key (snd (certForHost lib g host ca)) = ca_key ca"
proof (cases "ca_ready ca")
  case True
  then obtain k where k: "ca_key ca = Some k" using assms by auto
  show ?thesis by (rule certForHost_cases [OF True k, of host lib g]) simp_all
next
  case False
  then show ?thesis by (simp add: certForHost_def)
qed

lemma conn_body_ready:
  assumes "conn_body widen lib e flow ca = Some (l, ca')" "ca_ready ca \<longrightarrow> ca_key ca \<noteq> None"
  shows "ca_ready ca' = ca_ready ca \<and> ca_key ca' = ca_key ca"
  using assms(1) by (rule conn_body_cases) (use certForHost_ready [OF assms(2)] in metis)+

lemma handleConn_made:
  assumes "handleConn widen lib e (p, ca) = Some (l, p', ca')" "widen_ok widen" "\<forall>r \<in> set (ce_rounds e). round_ok r"
  shows "\<forall>r \<in> set (cl_records l). made r"
proof (cases "cl_opened l")
  case True
  from handleConn_messages(3) [OF assms(1,3) True] obtain t msgs where s: "served_by widen e (conn_flow p) l t msgs" by blast
  define ms where "ms = open_msg widen (ce_clock e 0) (conn_flow p) (ct_certHost t) (ct_port t) # msgs
     @ [close_msg (ce_clock e (Suc (length msgs))) (conn_flow p)]"
  have "cl_records l = map app_make ms" using s by (simp add: served_by_def ms_def)
  moreover have "\<forall>m \<in> set ms. app_valid m"
    unfolding ms_def using s by (intro served_valid [OF assms(2)]) (simp add: served_by_def)
  ultimately show ?thesis by (auto simp: made_def)
next
  case False
  then show ?thesis using handleConn_messages(2) [OF assms(1,3)] by simp
qed

lemma made_list: "\<forall>r \<in> set rs. made r \<Longrightarrow> \<exists>ms. rs = map app_make ms \<and> (\<forall>m \<in> set ms. app_valid m)"
proof (induction rs)
  case (Cons r rs)
  then obtain m ms where "r = app_make m" "app_valid m" "rs = map app_make ms" "\<forall>m \<in> set ms. app_valid m"
    by (auto simp: made_def)
  then show ?case by (intro exI [of _ "m # ms"]) simp
qed simp

lemma made_ingested:
  fixes mdl :: "'t knd_model"
  assumes "\<forall>r \<in> set rs. made r" "model_wf mdl"
  shows "\<exists>m'. ingest_all utf8 rs now mdl = Some m' \<and> model_wf m'"
proof -
  obtain ms where "rs = map app_make ms" "\<forall>m \<in> set ms. app_valid m" using made_list [OF assms(1)] by blast
  then show ?thesis using app_source.source_ingested [OF _ assms(2), of ms utf8 now] by auto
qed

lemma proxy_inv_step:
  assumes "proxy_inv s" "proxy_step s s'"
  shows "proxy_inv s'"
  using assms(2)
proof (cases rule: proxy_step.cases)
  case (step_start port ca bnd p r p' mdl)
  then show ?thesis using assms(1) by (auto simp: proxy_inv_def start_def Let_def split: if_splits prod.splits)
next
  case (step_listen p ca mdl ph as)
  then show ?thesis using assms(1) by (auto simp: proxy_inv_def)
next
  case (step_conn widen lib e p ca l p' ca' mdl ph)
  have "p' = p\<lparr>mp_nextFlow := mp_nextFlow p + 1, mp_queue := mp_queue p @ cl_records l\<rparr>"
    using handleConn_messages(1) [OF step_conn(3,5)] by simp
  moreover have "ca_ready ca' = ca_ready ca \<and> ca_key ca' = ca_key ca"
    using step_conn(3) assms(1) step_conn(1) by (elim handleConn_body) (auto simp: proxy_inv_def dest: conn_body_ready)
  ultimately show ?thesis
    using assms(1) step_conn(1,2) handleConn_made [OF step_conn(3-5)] by (auto simp: proxy_inv_def)
next
  case (step_drain utf8 now p mdl p' mdl' ca ph)
  then obtain "model_wf mdl" "\<forall>r \<in> set (mp_queue p). made r" using assms(1) by (auto simp: proxy_inv_def)
  then have "model_wf mdl'" using made_ingested [of "mp_queue p" mdl utf8 now] step_drain(3) by (auto simp: drain_def)
  then show ?thesis using assms(1) step_drain by (auto simp: proxy_inv_def drain_def)
qed (use assms(1) in \<open>auto simp: proxy_inv_def\<close>)

interpretation proxy: transition_system proxy_step proxy_inv
  by unfold_locales (rule proxy_inv_step)

lemma find_target_line:
  assumes "ce_input e = bytes_of_text (pre @ tail)" "pre = ''CONNECT '' @ host @ '':'' @ dec_text (unat port) @ '' '' @ rest"
    "CHR '' '' \<notin> set host" "first_blank pre" "length pre \<le> 8192"
  shows "find_target e = Some (''HTTP/1.1 200 Connection Established'' @ CRLF @ CRLF,
    Some \<lparr>ct_host = host, ct_certHost = host, ct_port = (if port = 0 then 443 else port)\<rparr>)"
proof -
  have ne: "pre \<noteq> []" using assms(2) by simp
  have "ReadPreamble (pre @ tail) [] = Some pre"
    using assms(4,5) ne by (intro ReadPreamble_first [where tail = tail]) (auto simp: first_blank_def)
  moreover have "ParseConnect pre = Some (host, if port = 0 then 443 else port)"
    unfolding assms(2) by (rule ParseConnect_line [OF assms(3)])
  moreover have "ce_input e = 67 # tl (ce_input e)"
  proof -
    have "byte (CHR ''C'') = 67" by (simp add: byte_def)
    then show ?thesis using assms(1,2) by (simp add: bytes_of_text_def)
  qed
  ultimately show ?thesis using assms(1) unfolding find_target_def by (auto split: list.splits)
qed

lemma stop_steps: "proxy_step\<^sup>*\<^sup>* (p, ca, mdl, Idle) (fst (stop p), ca, mdl, Idle)"
proof (cases "mp_running p")
  case True
  have "proxy_step (p, ca, mdl, Idle) (p\<lparr>mp_running := False\<rparr>, ca, mdl, Flagged)" using True by (rule stop_flag)
  moreover note stop_join [of "p\<lparr>mp_running := False\<rparr>" ca mdl]
  moreover note stop_threads [of "p\<lparr>mp_running := False, mp_listenFd := -1, mp_listener := False\<rparr>" ca mdl]
  ultimately have "proxy_step\<^sup>*\<^sup>* (p, ca, mdl, Idle)
      (p\<lparr>mp_running := False, mp_listenFd := -1, mp_listener := False, mp_threads := []\<rparr>, ca, mdl, Idle)"
    by (meson converse_rtranclp_into_rtranclp rtranclp.rtrancl_refl)
  then show ?thesis using True by (simp add: stop_def)
qed (simp add: stop_def)

section \<open>Properties\<close>

text \<open>
  C27. The server name of a ClientHello. The parser reads only inside the peeked bytes and returns for any of
  them; and for every well-formed hello, whatever its session, suites, compression methods and
  the extensions around it, it returns exactly the host of the server_name extension.
\<close>

theorem ParseSni_correct:
  "(\<exists>s. ParseSni d = Some s)
   \<and> (\<forall>hdr verRandom sid suites methods before after host.
        length hdr = 9 \<and> hdr ! 0 = 0x16 \<and> hdr ! 5 = 1 \<and> length verRandom = 34 \<and> length sid < 256
        \<and> length methods < 256 \<and> length suites < 65536 \<and> length host + 5 < 65536
        \<and> (\<forall>x \<in> set before. fst x \<noteq> 0 \<and> length (snd x) < 65536)
        \<and> length (concat (map enc_ext (before @ (0, sni_body host) # after))) < 65536 \<longrightarrow>
        ParseSni (client_hello hdr verRandom sid suites methods (before @ (0, sni_body host) # after)) = Some host)"
  using ParseSni_returns [of d] by (auto intro!: ParseSni_client_hello)

theorem ParseSni_correct_witness:
  "ParseSni (client_hello [0x16, 3, 1, 0, 90, 1, 0, 0, 86] (replicate 34 7) [1, 2] [0x13, 1] [0]
     ([(10, [0, 0])] @ (0, sni_body ''a.b'') # [(16, [])])) = Some ''a.b''"
proof -
  have "length (concat (map enc_ext ([(10, [0, 0])] @ (0, sni_body ''a.b'') # [(16, [])]))) < 65536"
    by (simp add: enc_ext_def sni_body_def be2_def)
  then show ?thesis
    using ParseSni_correct [of "[]", THEN conjunct2, rule_format, of "[0x16, 3, 1, 0, 90, 1, 0, 0, 86]" "replicate 34 7" "[1, 2]" "[0]" "[0x13, 1]" "''a.b''"
        "[(10, [0, 0])]" "[(16, [])]"] by simp
qed

text \<open>
  An explicit proxy request reaches its target. When the first blank line ends a preamble of at
  most 8192 bytes that starts with \<open>CONNECT host:port\<close>, the connection is answered with 200 and goes on
  to that host, also for the certificate, and that port, 443 for port 0; nothing behind the blank
  line has been consumed or matters.
\<close>

theorem find_target_connect:
  assumes "ce_input e = bytes_of_text (pre @ tail)" "pre = ''CONNECT '' @ host @ '':'' @ dec_text (unat port) @ '' '' @ rest"
    "CHR '' '' \<notin> set host" "first_blank pre" "length pre \<le> 8192"
  shows "find_target e = Some (''HTTP/1.1 200 Connection Established'' @ CRLF @ CRLF,
    Some \<lparr>ct_host = host, ct_certHost = host, ct_port = (if port = 0 then 443 else port)\<rparr>)"
  by (rule find_target_line [OF assms])

definition sample_pre :: string where
  "sample_pre = ''CONNECT a:443 HTTP/1.1'' @ CRLF @ CRLF"

definition sample_env :: "nat conn_env" where
  "sample_env = \<lparr>ce_input = bytes_of_text (sample_pre @ ''x''), ce_peeked = [], ce_dest = None, ce_keygen = (0, 0, 8),
     ce_parse_crt = (\<lambda>_. 0), ce_parse_key = (\<lambda>_. 0), ce_server_defaults = 0, ce_own_cert = 0, ce_server_setup = 0,
     ce_client_hs = [-0x6900, 0], ce_connect = (\<lambda>_ _. 0), ce_client_defaults = 0, ce_client_setup = 0,
     ce_up_hs = (\<lambda>_. [0]), ce_clock = (\<lambda>k. (0, word_of_nat k)),
     ce_rounds = [\<lparr>rr_client_reads = [Inr [1, 2], Inl (-0x6900)], rr_up_writes = [1, -0x6880, 7],
                   rr_up_reads = [Inr [3]], rr_client_writes = [1]\<rparr>,
                  \<lparr>rr_client_reads = [Inl 0], rr_up_writes = [], rr_up_reads = [], rr_client_writes = []\<rparr>]\<rparr>"

lemma sample_pre_line: "sample_pre = ''CONNECT '' @ ''a'' @ '':'' @ dec_text (unat (443 :: u16)) @ '' '' @ (''HTTP/1.1'' @ CRLF @ CRLF)"
  by code_simp

lemma sample_pre_blank: "first_blank sample_pre"
  by code_simp

theorem find_target_connect_witness:
  "find_target sample_env = Some (''HTTP/1.1 200 Connection Established'' @ CRLF @ CRLF,
     Some \<lparr>ct_host = ''a'', ct_certHost = ''a'', ct_port = 443\<rparr>)"
  using find_target_connect [OF _ sample_pre_line _ sample_pre_blank, of sample_env "''x''"]
  by (simp add: sample_env_def sample_pre_def)

text \<open>
  C7. An intercepted connection reaches the model. When a connection ends, the user interface's next
  drain of the queue ingests its records in bounds and keeps the model's invariant; a connection
  that was opened has left one open record, its data, and one close record, one that was not has
  left nothing; and as long as no write failed, its flow's outbound stream grows by exactly
  the bytes delivered to the server, its inbound stream by exactly those delivered to the
  client, and no other stream changes.
\<close>

theorem handleConn_reaches_model:
  fixes mdl :: "'t knd_model"
  assumes "handleConn widen lib e (p, ca) = Some (l, p', ca')" "widen_ok widen" "mp_queue p = []" "model_wf mdl"
    and "\<forall>r \<in> set (ce_rounds e). round_ok r \<and> round_sends r"
  shows "\<exists>mdl'. drain utf8 now (p', mdl) = Some (p'\<lparr>mp_queue := []\<rparr>, mdl') \<and> model_wf mdl'
    \<and> (if cl_opened l then \<exists>t datas ft. find_target e = Some (cl_reply l, Some t)
          \<and> mp_queue p' = BuildConnOpen widen (ce_clock e 0) (cl_flow l) (ct_certHost t) (ct_port t) # datas @ [BuildConnClose ft (cl_flow l)]
          \<and> (\<forall>r \<in> set datas. \<exists>ft dir ch. r = BuildData ft (cl_flow l) dir ch)
       else mp_queue p' = [])
    \<and> bit (cl_flow l) 63 \<and> mp_active p' = mp_active p
    \<and> (\<forall>fid d S. d < 2 \<and> model_stream mdl fid d S \<longrightarrow>
         model_stream mdl' fid d (S @ (if fid = cl_flow l then (if d = 0 then cl_up l else cl_down l) else [])))"
proof -
  have ok: "\<forall>r \<in> set (ce_rounds e). round_ok r" "\<forall>r \<in> set (ce_rounds e). round_sends r" using assms(5) by auto
  note m = handleConn_messages [OF assms(1) ok(1)]
  have q: "mp_queue p' = cl_records l" "mp_active p' = mp_active p" and fl: "cl_flow l = conn_flow p"
    using m(1) assms(3) by simp_all
  have b: "bit (cl_flow l) 63" unfolding fl by (simp add: bit_simps)
  show ?thesis
  proof (cases "cl_opened l")
    case False
    then show ?thesis using m(2) q b assms(4) by (simp add: drain_def)
  next
    case True
    from m(3) [OF True] obtain t msgs where s: "served_by widen e (conn_flow p) l t msgs" by blast
    define ms where "ms = open_msg widen (ce_clock e 0) (conn_flow p) (ct_certHost t) (ct_port t) # msgs
       @ [close_msg (ce_clock e (Suc (length msgs))) (conn_flow p)]"
    have r: "cl_records l = map app_make ms" using s by (simp add: served_by_def ms_def)
    have rel: "\<forall>m \<in> set msgs. relay_msg (conn_flow p) KND_DIR_OUTBOUND m \<or> relay_msg (conn_flow p) KND_DIR_INBOUND m"
      and sent: "cl_up l = carried (conn_flow p) 0 msgs" "cl_down l = carried (conn_flow p) 1 msgs"
      using s ok(2) by (simp_all add: served_by_def)
    have v: "\<forall>m \<in> set ms. app_valid m" unfolding ms_def by (rule served_valid [OF assms(2) rel])
    obtain mdl' where i: "ingest_all utf8 (map app_make ms) now mdl = Some mdl'" "model_wf mdl'"
      "\<forall>fid d S. d < 2 \<and> model_stream mdl fid d S \<longrightarrow> model_stream mdl' fid d (S @ concat (map (\<lambda>a. app_part a fid d) ms))"
      using app_source.source_ingested [OF v assms(4), of utf8 now] by blast
    have "\<forall>fid d S. d < 2 \<and> model_stream mdl fid d S \<longrightarrow>
         model_stream mdl' fid d (S @ (if fid = cl_flow l then (if d = 0 then cl_up l else cl_down l) else []))"
      using i(3) carried_other [OF rel] unfolding ms_def fl sent by simp
    moreover have "\<exists>t datas ft. find_target e = Some (cl_reply l, Some t)
          \<and> mp_queue p' = BuildConnOpen widen (ce_clock e 0) (cl_flow l) (ct_certHost t) (ct_port t) # datas @ [BuildConnClose ft (cl_flow l)]
          \<and> (\<forall>r \<in> set datas. \<exists>ft dir ch. r = BuildData ft (cl_flow l) dir ch)"
    proof (intro exI conjI)
      show "find_target e = Some (cl_reply l, Some t)" using s by (simp add: served_by_def)
      show "mp_queue p' = BuildConnOpen widen (ce_clock e 0) (cl_flow l) (ct_certHost t) (ct_port t) # map app_make msgs
          @ [BuildConnClose (ce_clock e (Suc (length msgs))) (cl_flow l)]"
        by (simp add: q r ms_def fl Build_make)
      show "\<forall>r \<in> set (map app_make msgs). \<exists>ft dir ch. r = BuildData ft (cl_flow l) dir ch"
        using rel unfolding relay_msg_def fl Build_make by fastforce
    qed
    ultimately show ?thesis using True i(1,2) q b r by (simp add: drain_def)
  qed
qed

definition sample_proxy :: mitm_proxy where
  "sample_proxy = new_proxy\<lparr>mp_caSet := True, mp_running := True, mp_listenFd := 5, mp_listener := True\<rparr>"

lemma sample_served: "\<exists>l p' ca'. handleConn plain_widen sample_lib sample_env (sample_proxy, sample_ca) = Some (l, p', ca')
    \<and> cl_opened l \<and> cl_up l = [1, 2] \<and> cl_down l = [3]"
proof -
  have t: "find_target sample_env = Some (''HTTP/1.1 200 Connection Established'' @ CRLF @ CRLF,
     Some \<lparr>ct_host = ''a'', ct_certHost = ''a'', ct_port = 443\<rparr>)"
    using find_target_line [OF _ sample_pre_line _ sample_pre_blank, of sample_env "''x''"]
    by (simp add: sample_env_def sample_pre_def)
  obtain mc ca1 where c: "certForHost sample_lib (ce_keygen sample_env) ''a'' sample_ca = (Inr mc, ca1)"
    by (simp add: sample_env_def certForHost_def sample_ca_def new_ca_def sample_lib_def GenRsaKey_def
        write_leaf_cert_def leaf_cert_def and_then_def Let_def)
  have s: "conn_setup sample_env mc \<lparr>ct_host = ''a'', ct_certHost = ''a'', ct_port = 443\<rparr> = Some True"
    by (simp add: conn_setup_def sample_env_def want_def MBEDTLS_ERR_SSL_WANT_READ_def)
  have "\<exists>recs. relay (ce_clock sample_env) flow (ce_rounds sample_env) r0 [] [] = Some (recs, [1, 2], [3])" for flow r0
    by (simp add: sample_env_def want_def MBEDTLS_ERR_SSL_WANT_READ_def MBEDTLS_ERR_SSL_WANT_WRITE_def)
  then obtain recs where "relay (ce_clock sample_env) (conn_flow sample_proxy) (ce_rounds sample_env)
      [BuildConnOpen plain_widen (ce_clock sample_env 0) (conn_flow sample_proxy) ''a'' 443] [] [] = Some (recs, [1, 2], [3])" by blast
  then show ?thesis by (simp add: handleConn_def conn_body_def t c s Let_def new_log_def)
qed

lemma sample_rounds: "\<forall>r \<in> set (ce_rounds sample_env). round_ok r \<and> round_sends r"
  by (simp add: sample_env_def round_ok_def round_sends_def reads_ok_def writes_ok_def want_def
      MBEDTLS_ERR_SSL_WANT_READ_def MBEDTLS_ERR_SSL_WANT_WRITE_def)

theorem handleConn_reaches_model_witness:
  "\<exists>l p' ca' mdl'. handleConn plain_widen sample_lib sample_env (sample_proxy, sample_ca) = Some (l, p', ca')
     \<and> drain (\<lambda>_. []) (0 :: nat) (p', new_model) = Some (p'\<lparr>mp_queue := []\<rparr>, mdl')
     \<and> model_stream mdl' (cl_flow l) 0 [1, 2] \<and> model_stream mdl' (cl_flow l) 1 [3]"
proof -
  obtain l p' ca' where h: "handleConn plain_widen sample_lib sample_env (sample_proxy, sample_ca) = Some (l, p', ca')"
    "cl_up l = [1, 2]" "cl_down l = [3]" using sample_served by blast
  have q: "mp_queue sample_proxy = []" by (simp add: sample_proxy_def new_proxy_def)
  have e: "model_stream (new_model :: nat knd_model) fid d []" for fid d
    by (simp add: model_stream_def find_flow_def new_model_def)
  from handleConn_reaches_model [OF h(1) plain_widen_ok q model_wf_new sample_rounds, of "\<lambda>_. []" 0]
  obtain mdl' where "drain (\<lambda>_. []) (0 :: nat) (p', new_model) = Some (p'\<lparr>mp_queue := []\<rparr>, mdl')"
    and st: "\<forall>fid d S. d < 2 \<and> model_stream (new_model :: nat knd_model) fid d S \<longrightarrow>
         model_stream mdl' fid d (S @ (if fid = cl_flow l then (if d = 0 then cl_up l else cl_down l) else []))" by blast
  moreover have "model_stream mdl' (cl_flow l) 0 [1, 2]" "model_stream mdl' (cl_flow l) 1 [3]"
    using st [rule_format, of 0 "cl_flow l" "[]"] st [rule_format, of 1 "cl_flow l" "[]"] e h(2,3) by auto
  ultimately show ?thesis using h(1) by blast
qed




lemma close_flow_id: "record_flow (BuildConnClose ft flow) = flow"
proof -
  have "get64 (enc_record r @ rest) 24 = get64 rest 0" for r rest
    using record_wire.enc_length [of r] by (simp add: get64_def layout_defs)
  then show ?thesis by (simp add: record_flow_def BuildConnClose_def enc_conn_def get64_def sizeof_RECORD_def)
qed


section \<open>Where the code falls short\<close>

text \<open>A failed write does not end the inner loop: what is read after it is still recorded as sent, and not delivered.\<close>

lemma relay_after_failed_write:
  "\<exists>recs. relay clock flow [\<lparr>rr_client_reads = [Inr [1], Inr [2], Inl (-0x6900)], rr_up_writes = [-0x50, -0x50],
       rr_up_reads = [], rr_client_writes = []\<rparr>] [] [] [] = Some (recs, [], [])
     \<and> recs = [BuildData (clock 0) flow KND_DIR_OUTBOUND [1], BuildData (clock 1) flow KND_DIR_OUTBOUND [2]]"
  by (simp add: want_def MBEDTLS_ERR_SSL_WANT_READ_def MBEDTLS_ERR_SSL_WANT_WRITE_def)

end
