(* ===== verification/Knd_Keys.thy ===== *)
theory Knd_Keys
  imports Knd_Protocol Knd_Tls Knd_Ca
begin

text \<open>
  The key extractor (\<^verbatim>\<open>src/app/src/knd_sslkeys.cpp\<close>), a library that hooks the system's derivation of TLS master
  secrets and appends each to a key log file: the line it writes, the hook around the derivation,
  installing and removing it, and that the application reads its file back. The key object and
  the parameter buffers are the memory behind their pointers; reading beyond it is the access
  violation that the hook catches, after which what was already written stays.
\<close>

definition progdata :: "string \<Rightarrow> string" where
  "progdata name = ''C:'' @ [CHR 0x5C] @ ''ProgramData'' @ [CHR 0x5C] @ name"

definition KEYLOG :: string where "KEYLOG = progdata ''knd_sslkeys.log''"
definition CALIB :: string where "CALIB = progdata ''knd_sslkeys_calib.log''"
definition DBG :: string where "DBG = progdata ''knd_sslkeys_dbg.log''"

record key_extractor =
  kx_files :: files
  kx_calib :: u32
  kx_hooked :: bool

text \<open>\<open>can\<close> tells which files can be opened for appending.\<close>

definition Append :: "(string \<Rightarrow> bool) \<Rightarrow> string \<Rightarrow> string \<Rightarrow> key_extractor \<Rightarrow> key_extractor" where
  "Append can name s x =
     (if can name then x\<lparr>kx_files := (kx_files x)(name \<mapsto> ReadFile (kx_files x) name @ c_str s)\<rparr> else x)"

text \<open>The hexadecimal text of the first bytes of a memory, if they are all there.\<close>

definition Hex :: "bytes \<Rightarrow> nat \<Rightarrow> string option" where
  "Hex p n = (if length p < n then None
     else Some (concat (map (\<lambda>b. [digit (unat (drop_bit 4 b)), digit (unat (b AND 0xF))]) (take n p))))"

record ncrypt_buffer =
  nb_type :: u32
  nb_data :: "bytes option"
  nb_size :: nat

definition NCRYPTBUFFER_SSL_CLIENT_RANDOM :: u32 where "NCRYPTBUFFER_SSL_CLIENT_RANDOM = 20"

text \<open>The last buffer that holds a client random.\<close>

fun client_random :: "ncrypt_buffer list \<Rightarrow> bytes option \<times> nat \<Rightarrow> bytes option \<times> nat" where
  "client_random [] r = r"
| "client_random (b # bs) r =
     client_random bs (if nb_type b = NCRYPTBUFFER_SSL_CLIENT_RANDOM then (nb_data b, nb_size b) else r)"

text \<open>Each part ends with whether it ran through, \<open>False\<close> for an access violation.\<close>

definition calib_dump :: "(string \<Rightarrow> bool) \<Rightarrow> bytes \<Rightarrow> bytes option \<times> nat \<Rightarrow> key_extractor \<Rightarrow> bool \<times> key_extractor" where
  "calib_dump can key cr x =
     (if length key < 8 then (False, x)
      else (let magic = get32 key 4 in
        case Hex key 0x80 of
          None \<Rightarrow> (False, x)
        | Some hexbuf \<Rightarrow>
            (let x1 = Append can CALIB (snprintf 420 (''[calib] magic@+4=0x'' @ pad0 8 (hex_text (unat magic))
                        @ '' first0x80='' @ hexbuf @ [CHR 0x0A])) x in
             case cr of
               (Some rnd, len) \<Rightarrow>
                 if 0 < len
                 then (case Hex rnd (if 32 < len then 32 else len) of
                    None \<Rightarrow> (False, x1)
                  | Some t \<Rightarrow> (True, Append can CALIB (snprintf 160 (''[calib] client_random='' @ t @ [CHR 0x0A])) x1))
                 else (True, x1)
             | (None, len) \<Rightarrow> (True, x1))))"

definition key_line :: "string \<Rightarrow> string \<Rightarrow> string" where
  "key_line rc sc = snprintf 256 (''CLIENT_RANDOM '' @ rc @ '' '' @ sc @ [CHR 0x0A])"

definition write_secret :: "(string \<Rightarrow> bool) \<Rightarrow> bytes \<Rightarrow> bytes option \<times> nat \<Rightarrow> key_extractor \<Rightarrow> bool \<times> key_extractor" where
  "write_secret can key cr x = (case cr of
     (Some rnd, len) \<Rightarrow>
       if 32 \<le> len
       then (case Hex rnd 32 of
          None \<Rightarrow> (False, x)
        | Some rc \<Rightarrow> (case Hex (drop 0x1c key) 48 of
            None \<Rightarrow> (False, x)
          | Some sc \<Rightarrow> (True, Append can KEYLOG (key_line rc sc) x)))
       else (True, x)
   | (None, len) \<Rightarrow> (True, x))"

definition CaptureMasterKey ::
  "(string \<Rightarrow> bool) \<Rightarrow> bytes \<Rightarrow> ncrypt_buffer list option \<Rightarrow> key_extractor \<Rightarrow> bool \<times> key_extractor" where
  "CaptureMasterKey can key params x =
     (let cr = (case params of None \<Rightarrow> (None, 0) | Some bs \<Rightarrow> client_random bs (None, 0));
          x1 = x\<lparr>kx_calib := kx_calib x + 1\<rparr>;
          (ok, x2) = (if sint (kx_calib x1) \<le> 3 then calib_dump can key cr x1 else (True, x1)) in
      if ok then write_secret can key cr x2 else (False, x2))"

text \<open>\<open>orig\<close> is what the hooked function returned, \<open>master\<close> the memory of the key it made: none for a null
  pointer or handle.\<close>

definition Hook_SslGenerateMasterKey ::
  "(string \<Rightarrow> bool) \<Rightarrow> int \<Rightarrow> bytes option \<Rightarrow> ncrypt_buffer list option \<Rightarrow> key_extractor \<Rightarrow> int \<times> key_extractor" where
  "Hook_SslGenerateMasterKey can orig master params x =
     (case master of
        Some key \<Rightarrow>
          if orig = 0
          then (case CaptureMasterKey can key params x of (ok, x1) \<Rightarrow>
            (orig, if ok then x1 else Append can DBG (''[knd] exception during key capture (offset wrong? sehed)'' @ [CHR 0x0A]) x1))
          else (orig, x)
      | None \<Rightarrow> (orig, x))"

record install_answer =
  ia_initialize :: bool
  ia_module :: bool
  ia_load :: bool
  ia_proc :: bool
  ia_create :: bool
  ia_enable :: bool

definition InstallThread :: "(string \<Rightarrow> bool) \<Rightarrow> install_answer \<Rightarrow> key_extractor \<Rightarrow> key_extractor" where
  "InstallThread can a x =
     (if \<not> ia_initialize a then Append can DBG (''[knd] MH_Initialize failed'' @ [CHR 0x0A]) x
      else if \<not> ia_module a \<and> \<not> ia_load a then Append can DBG (''[knd] ncrypt.dll not present'' @ [CHR 0x0A]) x
      else if \<not> ia_proc a then Append can DBG (''[knd] SslGenerateMasterKey not found'' @ [CHR 0x0A]) x
      else if \<not> ia_create a \<or> \<not> ia_enable a then Append can DBG (''[knd] hook install failed'' @ [CHR 0x0A]) x
      else Append can DBG (''[knd] SslGenerateMasterKey hooked - capturing TLS1.2 master secrets'' @ [CHR 0x0A]) (x\<lparr>kx_hooked := True\<rparr>))"

definition KndUnhook :: "(string \<Rightarrow> bool) \<Rightarrow> key_extractor \<Rightarrow> key_extractor" where
  "KndUnhook can x = Append can DBG (''[knd] unhooked'' @ [CHR 0x0A]) (x\<lparr>kx_hooked := False\<rparr>)"

text \<open>The library's entry point. Attaching starts the installing thread, if the system makes one (\<open>thread\<close>); here
  it has run when the call ends. Other notifications do nothing.\<close>

definition DllMain :: "(string \<Rightarrow> bool) \<Rightarrow> install_answer \<Rightarrow> bool \<Rightarrow> bool \<Rightarrow> key_extractor \<Rightarrow> bool \<times> key_extractor" where
  "DllMain can a thread attach x =
     (if attach then (if thread then (True, InstallThread can a x) else (True, x)) else (True, x))"

section \<open>The line and the file\<close>

lemma Hex_BytesToHex: "n \<le> length p \<Longrightarrow> Hex p n = Some (BytesToHex (take n p))"
proof -
  have "digit (unat (drop_bit 4 b)) = digit (unat b div 16)" "digit (unat (b AND 0xF)) = digit (unat b mod 16)" for b :: u8
    using unat_and_mask [of 4 b] by (simp_all add: drop_bit_eq_div unat_div)
  then show "n \<le> length p \<Longrightarrow> Hex p n = Some (BytesToHex (take n p))" by (simp add: Hex_def BytesToHex_def)
qed

lemma key_line_whole:
  assumes "length cr = 32" "length ms = 48"
  shows "key_line (BytesToHex cr) (BytesToHex ms) = ''CLIENT_RANDOM '' @ BytesToHex cr @ '' '' @ BytesToHex ms @ [CHR 0x0A]"
  unfolding key_line_def using assms by (intro snprintf_fits) simp

lemma hex_char_nul: "CHR 0x00 \<notin> set (BytesToHex bs)"
proof
  assume "CHR 0x00 \<in> set (BytesToHex bs)"
  then obtain d where d: "d < 16" "CHR 0x00 = digit d" using BytesToHex_digits by blast
  show False using of_char_digit [OF d(1)] unfolding d(2) [symmetric] by (simp split: if_splits)
qed

definition key_entry :: "bytes \<times> bytes \<Rightarrow> string" where
  "key_entry e = (case e of (cr, ms) \<Rightarrow> ''CLIENT_RANDOM '' @ BytesToHex cr @ '' '' @ BytesToHex ms @ [CHR 0x0A])"

definition entry_ok :: "bytes \<times> bytes \<Rightarrow> bool" where
  "entry_ok e \<longleftrightarrow> length (fst e) = 32 \<and> length (snd e) = 48"

definition add_entry :: "bytes \<times> bytes \<Rightarrow> key_log \<Rightarrow> key_log" where
  "add_entry e kl = kl(BytesToHex (fst e) \<mapsto> snd e)"

lemma load_entry:
  assumes "entry_ok e"
  shows "fgets_lines 1023 (key_entry e @ s) = key_entry e # fgets_lines 1023 s"
    "addLine (c_str (key_entry e)) kl = add_entry e kl"
proof -
  obtain cr ms where e: "e = (cr, ms)" by (cases e)
  have len: "length cr = 32" "length ms = 48" using assms e by (simp_all add: entry_ok_def)
  let ?l = "''CLIENT_RANDOM '' @ BytesToHex cr @ '' '' @ BytesToHex ms"
  have nl: "CHR 0x0A \<notin> set ?l" using hex_char(3) [of _ cr] hex_char(3) [of _ ms] by auto
  have k: "key_entry e = ?l @ [CHR 0x0A]" by (simp add: key_entry_def e)
  show "fgets_lines 1023 (key_entry e @ s) = key_entry e # fgets_lines 1023 s"
    unfolding k by (rule fgets_lines_line [OF nl]) (simp add: len)
  have "CHR 0x00 \<notin> set (key_entry e)" unfolding k using hex_char_nul [of cr] hex_char_nul [of ms] by simp
  then have c: "c_str (key_entry e) = key_entry e" by (rule c_str_plain)
  have "line_end [CHR 0x0A]" by (simp add: line_end_def)
  from addLine_client_random [OF len(1) this, of ms kl]
  show "addLine (c_str (key_entry e)) kl = add_entry e kl"
    unfolding c by (simp add: key_entry_def add_entry_def e)
qed

lemma load_entries:
  "\<forall>e \<in> set es. entry_ok e \<Longrightarrow>
   loadFile (Some (concat (map key_entry es))) kl = fold add_entry es kl"
proof (induction es arbitrary: kl)
  case Nil
  then show ?case by (simp add: loadFile_def fgets_lines.simps)
next
  case (Cons e es)
  then show ?case using load_entry [of e] by (simp add: loadFile_def)
qed

text \<open>The secret that the last of the captures with a given random has.\<close>

definition latest :: "(bytes \<times> bytes) list \<Rightarrow> bytes \<Rightarrow> bytes" where
  "latest es cr = fold (\<lambda>e acc. if fst e = cr then snd e else acc) es []"

lemma masterSecret_fold:
  "masterSecret (fold add_entry es kl) cr
     = fold (\<lambda>e acc. if fst e = cr then snd e else acc) es (masterSecret kl cr)"
proof (induction es arbitrary: kl)
  case (Cons e es)
  have "masterSecret (add_entry e kl) cr = (if fst e = cr then snd e else masterSecret kl cr)"
    using BytesToHex_inj [of "fst e" cr] by (auto simp: masterSecret_def add_entry_def)
  then show ?case using Cons.IH by simp
qed simp

section \<open>Captures\<close>

text \<open>A call of the hooked function that made a readable key for a session with a client random.\<close>

record derivation =
  dv_key :: bytes
  dv_params :: "ncrypt_buffer list"

definition derivation_ok :: "derivation \<Rightarrow> bool" where
  "derivation_ok d \<longleftrightarrow> 0x80 \<le> length (dv_key d) \<and> (case client_random (dv_params d) (None, 0) of
     (Some rnd, n) \<Rightarrow> 32 \<le> n \<and> n \<le> length rnd | (None, n) \<Rightarrow> False)"

definition derived :: "derivation \<Rightarrow> bytes \<times> bytes" where
  "derived d = (take 32 (the (fst (client_random (dv_params d) (None, 0)))), take 48 (drop 0x1c (dv_key d)))"

lemma derived_ok: "derivation_ok d \<Longrightarrow> entry_ok (derived d)"
  by (auto simp: derivation_ok_def derived_def entry_ok_def split: prod.splits option.splits)

lemma log_names: "CALIB \<noteq> KEYLOG" "DBG \<noteq> KEYLOG"
  by (simp_all add: CALIB_def KEYLOG_def DBG_def progdata_def)

lemma Append_other: "name \<noteq> KEYLOG \<Longrightarrow> kx_files (Append can name s x) KEYLOG = kx_files x KEYLOG"
  by (simp add: Append_def)

lemma capture_appends:
  assumes "derivation_ok d" "can KEYLOG"
  shows "\<exists>x'. CaptureMasterKey can (dv_key d) (Some (dv_params d)) x = (True, x')
    \<and> kx_files x' KEYLOG = Some (ReadFile (kx_files x) KEYLOG @ key_entry (derived d))"
proof -
  obtain rnd n where c: "client_random (dv_params d) (None, 0) = (Some rnd, n)" "32 \<le> n" "n \<le> length rnd" "128 \<le> length (dv_key d)"
    using assms(1) by (auto simp: derivation_ok_def split: prod.splits option.splits)
  have dump: "\<exists>x1. calib_dump can (dv_key d) (Some rnd, n) y = (True, x1) \<and> kx_files x1 KEYLOG = kx_files y KEYLOG" for y
    using c log_names by (simp add: calib_dump_def Hex_BytesToHex Let_def Append_other)
  have wr: "\<exists>x2. write_secret can (dv_key d) (Some rnd, n) y = (True, x2)
      \<and> kx_files x2 KEYLOG = Some (ReadFile (kx_files y) KEYLOG @ key_entry (derived d))" for y
  proof -
    have "c_str (key_entry (derived d)) = key_entry (derived d)"
      by (rule c_str_plain) (auto simp: key_entry_def derived_def hex_char_nul)
    moreover have "key_line (BytesToHex (take 32 rnd)) (BytesToHex (take 48 (drop 0x1c (dv_key d)))) = key_entry (derived d)"
      using c by (simp add: key_line_whole key_entry_def derived_def)
    ultimately show ?thesis using c assms(2) by (simp add: write_secret_def Hex_BytesToHex Append_def)
  qed
  show ?thesis
  proof (cases "sint (kx_calib x + 1) \<le> 3")
    case True
    obtain x1 where "calib_dump can (dv_key d) (Some rnd, n) (x\<lparr>kx_calib := kx_calib x + 1\<rparr>) = (True, x1)"
      "kx_files x1 KEYLOG = kx_files x KEYLOG" using dump [of "x\<lparr>kx_calib := kx_calib x + 1\<rparr>"] by auto
    then show ?thesis using wr [of x1] True by (simp add: CaptureMasterKey_def c(1) Let_def ReadFile_def)
  next
    case False
    then show ?thesis using wr [of "x\<lparr>kx_calib := kx_calib x + 1\<rparr>"] by (simp add: CaptureMasterKey_def c(1) Let_def)
  qed
qed

lemma hook_appends:
  assumes "derivation_ok d" "can KEYLOG"
  shows "ReadFile (kx_files (snd (Hook_SslGenerateMasterKey can 0 (Some (dv_key d)) (Some (dv_params d)) x))) KEYLOG
    = ReadFile (kx_files x) KEYLOG @ key_entry (derived d)"
    "kx_files (snd (Hook_SslGenerateMasterKey can 0 (Some (dv_key d)) (Some (dv_params d)) x)) KEYLOG \<noteq> None"
  using capture_appends [where can = can, OF assms, of x] by (auto simp: Hook_SslGenerateMasterKey_def ReadFile_def)

lemma hooks_append:
  assumes "\<forall>d \<in> set ds. derivation_ok d" "can KEYLOG"
  shows "ReadFile (kx_files (fold (\<lambda>d x. snd (Hook_SslGenerateMasterKey can 0 (Some (dv_key d)) (Some (dv_params d)) x)) ds x)) KEYLOG
    = ReadFile (kx_files x) KEYLOG @ concat (map (key_entry \<circ> derived) ds)"
  using assms(1)
proof (induction ds arbitrary: x)
  case (Cons d ds)
  then show ?case using hook_appends(1) [where can = can, OF _ assms(2), of d x] by simp
qed simp

lemma read_log: "s \<noteq> [] \<Longrightarrow> ReadFile fs name = s \<Longrightarrow> fs name = Some s"
  by (auto simp: ReadFile_def split: option.splits)

lemma DllMain_outcome:
  assumes "DllMain can a thread attach x = (ok, x')" "\<not> kx_hooked x"
  shows "ok" "kx_files x' KEYLOG = kx_files x KEYLOG"
    "kx_hooked x' \<longleftrightarrow> attach \<and> thread \<and> ia_initialize a \<and> (ia_module a \<or> ia_load a) \<and> ia_proc a \<and> ia_create a \<and> ia_enable a"
  using assms log_names by (auto simp: DllMain_def InstallThread_def Append_def split: if_splits)

section \<open>Properties\<close>

text \<open>
  Extracted keys reach the decryptor. After any number of hooked derivations, each of a readable key
  for a session whose client random is given, with the key log file empty before, the application loads from that
  file, for every client random, the master secret of its last derivation, 48 bytes at
  offset 0x1c of the key, and nothing for any other random.
\<close>

theorem extracted_keys_load:
  assumes "\<forall>d \<in> set ds. derivation_ok d" "can KEYLOG" "ReadFile (kx_files x) KEYLOG = []"
  defines "x' \<equiv> fold (\<lambda>d x. snd (Hook_SslGenerateMasterKey can 0 (Some (dv_key d)) (Some (dv_params d)) x)) ds x"
  shows "masterSecret (loadFile (kx_files x' KEYLOG) Map.empty) cr = latest (map derived ds) cr"
proof (cases ds)
  case Nil
  have "loadFile (kx_files x KEYLOG) Map.empty = Map.empty"
    using assms(3) load_entries [of "[]" Map.empty] by (cases "kx_files x KEYLOG") (simp_all add: ReadFile_def loadFile_def)
  then show ?thesis using Nil by (simp add: x'_def latest_def masterSecret_def)
next
  case (Cons d rest)
  have f: "ReadFile (kx_files x') KEYLOG = concat (map key_entry (map derived ds))"
    using hooks_append [where can = can, OF assms(1,2), of x] assms(3) by (simp add: x'_def)
  have "concat (map key_entry (map derived ds)) \<noteq> []" by (simp add: Cons key_entry_def split: prod.split)
  then have "kx_files x' KEYLOG = Some (concat (map key_entry (map derived ds)))" using f by (intro read_log)
  moreover have "\<forall>e \<in> set (map derived ds). entry_ok e" using assms(1) derived_ok by auto
  ultimately show ?thesis
    using load_entries [of "map derived ds" Map.empty] masterSecret_fold [of "map derived ds" Map.empty cr]
    by (simp add: latest_def masterSecret_def)
qed

definition sample_derivation :: derivation where
  "sample_derivation = \<lparr>dv_key = replicate 0x1c 0 @ test_master @ replicate 80 9,
     dv_params = [\<lparr>nb_type = 21, nb_data = None, nb_size = 0\<rparr>, \<lparr>nb_type = 20, nb_data = Some test_cr, nb_size = 32\<rparr>]\<rparr>"

lemma sample_derivation_ok: "derivation_ok sample_derivation"
  by (simp add: derivation_ok_def sample_derivation_def NCRYPTBUFFER_SSL_CLIENT_RANDOM_def test_master_def)

lemma sample_derived: "derived sample_derivation = (test_cr, test_master)"
  by (simp add: derived_def sample_derivation_def NCRYPTBUFFER_SSL_CLIENT_RANDOM_def test_master_def)

theorem extracted_keys_load_witness:
  "masterSecret (loadFile (kx_files (snd (Hook_SslGenerateMasterKey (\<lambda>_. True) 0 (Some (dv_key sample_derivation))
       (Some (dv_params sample_derivation)) \<lparr>kx_files = Map.empty, kx_calib = 0, kx_hooked = True\<rparr>)) KEYLOG) Map.empty) test_cr = test_master"
  using extracted_keys_load [of "[sample_derivation]" "\<lambda>_. True" "\<lparr>kx_files = Map.empty, kx_calib = 0, kx_hooked = True\<rparr>" test_cr]
    sample_derivation_ok sample_derived by (simp add: ReadFile_def latest_def)

text \<open>A file grows by nothing or by one line of 176 characters.\<close>

definition log_grows :: "key_extractor \<Rightarrow> key_extractor \<Rightarrow> bool" where
  "log_grows x y \<longleftrightarrow> (\<exists>line. ReadFile (kx_files y) KEYLOG = ReadFile (kx_files x) KEYLOG @ line
     \<and> (line = [] \<or> (\<exists>e. entry_ok e \<and> line = key_entry e \<and> length line = 176)))"

lemma log_grows_same: "kx_files y KEYLOG = kx_files x KEYLOG \<Longrightarrow> log_grows x y"
  by (simp add: log_grows_def ReadFile_def)

lemma log_grows_other: "log_grows x y \<Longrightarrow> name \<noteq> KEYLOG \<Longrightarrow> log_grows x (Append can name s y)"
  by (simp add: log_grows_def ReadFile_def Append_other)

lemma calib_dump_log: "kx_files (snd (calib_dump can key cr y)) KEYLOG = kx_files y KEYLOG"
  using log_names by (simp add: calib_dump_def Append_other Let_def split: option.split prod.split)

lemma write_secret_log:
  assumes "kx_files y KEYLOG = kx_files x KEYLOG"
  shows "log_grows x (snd (write_secret can key cr y))"
proof (cases "\<exists>rnd n. cr = (Some rnd, n) \<and> 32 \<le> n \<and> 32 \<le> length rnd \<and> 48 \<le> length (drop 0x1c key)")
  case True
  then obtain rnd n where c: "cr = (Some rnd, n)" "32 \<le> n" "32 \<le> length rnd" "48 \<le> length (drop 0x1c key)" by blast
  let ?e = "(take 32 rnd, take 48 (drop 0x1c key))"
  have e: "entry_ok ?e" using c by (simp add: entry_ok_def)
  have k: "key_line (BytesToHex (take 32 rnd)) (BytesToHex (take 48 (drop 0x1c key))) = key_entry ?e"
    using c by (simp add: key_line_whole key_entry_def)
  have n: "c_str (key_entry ?e) = key_entry ?e" by (rule c_str_plain) (auto simp: key_entry_def hex_char_nul)
  have l: "length (key_entry ?e) = 176" using c by (simp add: key_entry_def)
  have "snd (write_secret can key cr y) = Append can KEYLOG (key_entry ?e) y"
    using c Hex_BytesToHex [OF c(3)] Hex_BytesToHex [OF c(4)] k by (simp add: write_secret_def)
  then show ?thesis
    using assms e n l by (cases "can KEYLOG") (auto simp: log_grows_def Append_def ReadFile_def)
next
  case False
  then have "snd (write_secret can key cr y) = y"
    by (auto simp: write_secret_def Hex_def not_less split: prod.split option.split if_splits)
  then show ?thesis using log_grows_same [OF assms] by simp
qed

lemma CaptureMasterKey_log: "log_grows x (snd (CaptureMasterKey can key params x))"
proof -
  let ?x1 = "x\<lparr>kx_calib := kx_calib x + 1\<rparr>" and ?cr = "case params of None \<Rightarrow> (None, 0) | Some bs \<Rightarrow> client_random bs (None, 0)"
  obtain ok x2 where s: "(if sint (kx_calib ?x1) \<le> 3 then calib_dump can key ?cr ?x1 else (True, ?x1)) = (ok, x2)" by fastforce
  then have "kx_files x2 KEYLOG = kx_files x KEYLOG" using calib_dump_log [of can key ?cr ?x1] by (auto split: if_splits)
  then show ?thesis using s write_secret_log log_grows_same unfolding CaptureMasterKey_def Let_def by simp
qed

text \<open>
  C38. The hook is transparent and contained. Whatever the derivation returned and whatever memory the key and
  the buffers have, the hook returns the same status; a failed derivation leaves no trace; a
  read outside the memory is caught and noted in the debug log; and each call appends to
  the key log nothing or exactly one line of 176 characters.
\<close>

theorem hook_contained:
  "fst (Hook_SslGenerateMasterKey can orig master params x) = orig
   \<and> (orig \<noteq> 0 \<or> master = None \<longrightarrow> snd (Hook_SslGenerateMasterKey can orig master params x) = x)
   \<and> log_grows x (snd (Hook_SslGenerateMasterKey can orig master params x))"
  using CaptureMasterKey_log log_grows_other [OF _ log_names(2)] log_grows_same [OF refl]
  by (auto simp: Hook_SslGenerateMasterKey_def split: option.split prod.split) (metis snd_conv)+

theorem hook_contained_witness:
  "Hook_SslGenerateMasterKey (\<lambda>_. True) 5 (Some [1]) None \<lparr>kx_files = Map.empty, kx_calib = 0, kx_hooked = True\<rparr>
     = (5, \<lparr>kx_files = Map.empty, kx_calib = 0, kx_hooked = True\<rparr>)"
  using hook_contained [of "\<lambda>_. True" 5 "Some [1]" None "\<lparr>kx_files = Map.empty, kx_calib = 0, kx_hooked = True\<rparr>"]
  by (simp add: prod_eq_iff)

end
