(* ===== verification/Knd_Settings.thy ===== *)
theory Knd_Settings
  imports Knd_Tls
begin

text \<open>
  The persisted options (\<^verbatim>\<open>src/app/src/settings.cpp\<close>, the options of \<^verbatim>\<open>AppState\<close> in \<^verbatim>\<open>src/app/src/ui.h\<close>): writing them
  to a text of lines \<open>key=value\<close> and reading such a text. Floating point numbers are values
  of a type parameter; how the C library prints and scans one is a parameter.
\<close>

record 'f app_options =
  ao_accent :: "'f \<times> 'f \<times> 'f"
  ao_fontScale :: 'f
  ao_animations :: bool
  ao_multiViewport :: bool
  ao_payloadCapMB :: int
  ao_autoScroll :: bool
  ao_showClosed :: bool
  ao_proxyPort :: int
  ao_useSystemProxy :: bool
  ao_sysPath :: string

definition int_text :: "int \<Rightarrow> string" where
  "int_text n = (if n < 0 then ''-'' @ dec_text (nat (- n)) else dec_text (nat n))"

definition flag_text :: "bool \<Rightarrow> string" where
  "flag_text b = int_text (if b then 1 else 0)"

definition Save :: "('f \<Rightarrow> string) \<Rightarrow> 'f app_options \<Rightarrow> string" where
  "Save fprint st = (case ao_accent st of (a, b, c) \<Rightarrow>
     concat (map (\<lambda>(k, v). k @ ''='' @ v @ [CHR 0x0A])
       [(''accent'', fprint a @ '','' @ fprint b @ '','' @ fprint c),
        (''fontScale'', fprint (ao_fontScale st)),
        (''animations'', flag_text (ao_animations st)),
        (''multiViewport'', flag_text (ao_multiViewport st)),
        (''payloadCapMB'', int_text (ao_payloadCapMB st)),
        (''autoScroll'', flag_text (ao_autoScroll st)),
        (''showClosed'', flag_text (ao_showClosed st)),
        (''proxyPort'', int_text (ao_proxyPort st)),
        (''useSystemProxy'', flag_text (ao_useSystemProxy st)),
        (''sysPath'', c_str (ao_sysPath st))]))"

text \<open>\<open>scan\<close> reads a number at the start of a text and returns it with the rest; the format stores the
  numbers it gets to.\<close>

definition scan_accent :: "(string \<Rightarrow> ('f \<times> string) option) \<Rightarrow> string \<Rightarrow> 'f \<times> 'f \<times> 'f \<Rightarrow> 'f \<times> 'f \<times> 'f" where
  "scan_accent scan s acc = (case acc of (a, b, c) \<Rightarrow>
     (case scan s of
        None \<Rightarrow> (a, b, c)
      | Some (a2, r) \<Rightarrow> if take 1 r \<noteq> '','' then (a2, b, c)
          else (case scan (drop 1 r) of
             None \<Rightarrow> (a2, b, c)
           | Some (b2, r2) \<Rightarrow> if take 1 r2 \<noteq> '','' then (a2, b2, c)
               else (case scan (drop 1 r2) of None \<Rightarrow> (a2, b2, c) | Some (c2, _) \<Rightarrow> (a2, b2, c2)))))"

definition load_option ::
  "(string \<Rightarrow> ('f \<times> string) option) \<Rightarrow> (string \<Rightarrow> 'f) \<Rightarrow> string \<Rightarrow> string \<Rightarrow> 'f app_options \<Rightarrow> 'f app_options" where
  "load_option scan atof key val st =
     (if key = ''accent'' then st\<lparr>ao_accent := scan_accent scan val (ao_accent st)\<rparr>
      else if key = ''fontScale'' then st\<lparr>ao_fontScale := atof val\<rparr>
      else if key = ''animations'' then st\<lparr>ao_animations := atoi val \<noteq> 0\<rparr>
      else if key = ''multiViewport'' then st\<lparr>ao_multiViewport := atoi val \<noteq> 0\<rparr>
      else if key = ''payloadCapMB'' then st\<lparr>ao_payloadCapMB := atoi val\<rparr>
      else if key = ''autoScroll'' then st\<lparr>ao_autoScroll := atoi val \<noteq> 0\<rparr>
      else if key = ''showClosed'' then st\<lparr>ao_showClosed := atoi val \<noteq> 0\<rparr>
      else if key = ''proxyPort'' then st\<lparr>ao_proxyPort := atoi val\<rparr>
      else if key = ''useSystemProxy'' then st\<lparr>ao_useSystemProxy := atoi val \<noteq> 0\<rparr>
      else if key = ''sysPath'' then st\<lparr>ao_sysPath := take 511 val\<rparr>
      else st)"

definition load_line ::
  "(string \<Rightarrow> ('f \<times> string) option) \<Rightarrow> (string \<Rightarrow> 'f) \<Rightarrow> string \<Rightarrow> 'f app_options \<Rightarrow> 'f app_options" where
  "load_line scan atof l st =
     (let line = takeWhile (\<lambda>c. c \<noteq> CHR 0x0D \<and> c \<noteq> CHR 0x0A) (c_str l) in
      if CHR ''='' \<notin> set line then st
      else load_option scan atof (takeWhile (\<lambda>c. c \<noteq> CHR ''='') line) (drop 1 (dropWhile (\<lambda>c. c \<noteq> CHR ''='') line)) st)"

text \<open>The file's contents, \<open>None\<close> when it cannot be opened.\<close>

definition Load ::
  "(string \<Rightarrow> ('f \<times> string) option) \<Rightarrow> (string \<Rightarrow> 'f) \<Rightarrow> string option \<Rightarrow> 'f app_options \<Rightarrow> 'f app_options" where
  "Load scan atof file st = (case file of None \<Rightarrow> st | Some s \<Rightarrow> fold (load_line scan atof) (fgets_lines 1023 s) st)"

section \<open>Reading back\<close>

definition plain_text :: "string \<Rightarrow> bool" where
  "plain_text s \<longleftrightarrow> CHR 0x0D \<notin> set s \<and> CHR 0x0A \<notin> set s \<and> CHR 0x00 \<notin> set s"

lemma plain_text_append [simp]: "plain_text (a @ b) \<longleftrightarrow> plain_text a \<and> plain_text b"
  by (auto simp: plain_text_def)

lemma load_first_line:
  assumes "plain_text k" "plain_text v" "CHR ''='' \<notin> set k" "length k + length v < 1022"
  shows "fold (load_line scan atof) (fgets_lines 1023 ((k @ ''='' @ v @ [CHR 0x0A]) @ rest)) st
    = fold (load_line scan atof) (fgets_lines 1023 rest) (load_option scan atof k v st)"
proof -
  let ?l = "k @ ''='' @ v"
  have nl: "CHR 0x0A \<notin> set ?l" using assms(1,2) by (auto simp: plain_text_def)
  have f: "fgets_lines 1023 ((?l @ [CHR 0x0A]) @ rest) = (?l @ [CHR 0x0A]) # fgets_lines 1023 rest"
    using fgets_lines_line [OF nl, of 1023 rest] assms(4) by simp
  have nul: "c_str (?l @ [CHR 0x0A]) = ?l @ [CHR 0x0A]"
    using assms(1,2) by (intro c_str_plain) (auto simp: plain_text_def)
  have cut: "takeWhile (\<lambda>c. c \<noteq> CHR 0x0D \<and> c \<noteq> CHR 0x0A) (?l @ [CHR 0x0A]) = ?l"
  proof -
    have "\<forall>c \<in> set ?l. c \<noteq> CHR 0x0D \<and> c \<noteq> CHR 0x0A" using assms(1,2) by (auto simp: plain_text_def)
    then show ?thesis by (simp add: takeWhile_append2)
  qed
  have "takeWhile (\<lambda>c. c \<noteq> CHR ''='') ?l = k" "drop 1 (dropWhile (\<lambda>c. c \<noteq> CHR ''='') ?l) = v"
    using assms(3) by (simp_all add: takeWhile_append dropWhile_append)
  then have "load_line scan atof (?l @ [CHR 0x0A]) st = load_option scan atof k v st"
    unfolding load_line_def nul cut by simp
  then show ?thesis using f by simp
qed

lemma atoi_int_text: "- (2 ^ 31) \<le> n \<Longrightarrow> n < 2 ^ 31 \<Longrightarrow> atoi (int_text n) = n"
proof (cases "n < 0")
  case True
  assume n: "- (2 ^ 31) \<le> n"
  have "\<not> is_space (CHR ''-'')" by (simp add: is_space_def)
  then have "read_sign (''-'' @ dec_text (nat (- n))) = (True, dec_text (nat (- n)))" by (simp add: read_sign_def)
  moreover have "digits_val 10 (dec_text (nat (- n))) = nat (- n)" by (simp add: digits_val_numeral_text)
  ultimately show ?thesis using True n by (simp add: atoi_def int_text_def takeWhile_numeral)
qed (simp add: int_text_def atoi_numeral)

lemma atoi_flag_text [simp]: "atoi (flag_text b) \<noteq> 0 \<longleftrightarrow> b"
  by (simp add: flag_text_def atoi_int_text)

lemma dec_text_plain: "plain_text (dec_text n)"
proof -
  have "x \<noteq> CHR 0x0D \<and> x \<noteq> CHR 0x0A \<and> x \<noteq> CHR 0x00" if x: "x \<in> set (dec_text n)" for x
  proof -
    obtain d where "d < 10" "x = digit d" using numeral_text_digits [OF _ _ x] by auto
    then show ?thesis using of_char_digit [of d] by auto
  qed
  then show ?thesis by (auto simp: plain_text_def)
qed

lemma int_text_plain [simp]: "plain_text (int_text n)" "plain_text (flag_text b)"
proof -
  show "plain_text (int_text m)" for m using dec_text_plain by (auto simp: int_text_def plain_text_def)
  then show "plain_text (flag_text b)" by (simp add: flag_text_def)
qed

lemma int_text_short:
  assumes "- (2 ^ 31) \<le> n" "n < 2 ^ 31"
  shows "length (int_text n) \<le> 11"
proof -
  have "length (dec_text k) \<le> 10" if "k \<le> 2 ^ 31" for k
    using that by (intro length_numeral_text) auto
  then have "length (dec_text (nat n)) \<le> 10" "length (dec_text (nat (- n))) \<le> 10" using assms by auto
  then show ?thesis by (simp add: int_text_def)
qed

lemma flag_text_short: "length (flag_text b) \<le> 11"
  unfolding flag_text_def by (rule int_text_short) auto

text \<open>What is relied on of printing and scanning: a printed number is a short plain text, and scanning it gives
  the number as printed, up to the end or a comma.\<close>

definition float_io :: "('f \<Rightarrow> string) \<Rightarrow> (string \<Rightarrow> ('f \<times> string) option) \<Rightarrow> (string \<Rightarrow> 'f) \<Rightarrow> ('f \<Rightarrow> 'f) \<Rightarrow> bool" where
  "float_io fprint scan atof rnd \<longleftrightarrow> (\<forall>x. plain_text (fprint x) \<and> length (fprint x) \<le> 300 \<and> atof (fprint x) = rnd x
     \<and> (\<forall>r. scan (fprint x @ CHR '','' # r) = Some (rnd x, CHR '','' # r)) \<and> scan (fprint x) = Some (rnd x, []))"

definition options_ok :: "'f app_options \<Rightarrow> bool" where
  "options_ok st \<longleftrightarrow> plain_text (ao_sysPath st) \<and> length (ao_sysPath st) < 512
     \<and> - (2 ^ 31) \<le> ao_payloadCapMB st \<and> ao_payloadCapMB st < 2 ^ 31 \<and> - (2 ^ 31) \<le> ao_proxyPort st \<and> ao_proxyPort st < 2 ^ 31"

definition as_printed :: "('f \<Rightarrow> 'f) \<Rightarrow> 'f app_options \<Rightarrow> 'f app_options" where
  "as_printed rnd st = (case ao_accent st of (a, b, c) \<Rightarrow>
     st\<lparr>ao_accent := (rnd a, rnd b, rnd c), ao_fontScale := rnd (ao_fontScale st)\<rparr>)"

definition line_ok :: "string \<times> string \<Rightarrow> bool" where
  "line_ok kv \<longleftrightarrow> plain_text (fst kv) \<and> plain_text (snd kv) \<and> CHR ''='' \<notin> set (fst kv) \<and> length (fst kv) + length (snd kv) < 1022"

lemma load_lines:
  "\<forall>kv \<in> set kvs. line_ok kv \<Longrightarrow>
   fold (load_line scan atof) (fgets_lines 1023 (concat (map (\<lambda>(k, v). k @ ''='' @ v @ [CHR 0x0A]) kvs))) st
     = fold (\<lambda>(k, v). load_option scan atof k v) kvs st"
proof (induction kvs arbitrary: st)
  case Nil
  then show ?case by (simp add: fgets_lines.simps)
next
  case (Cons kv kvs)
  obtain k v where kv: "kv = (k, v)" by (cases kv)
  have "fold (load_line scan atof) (fgets_lines 1023 ((k @ ''='' @ v @ [CHR 0x0A]) @ concat (map (\<lambda>(k, v). k @ ''='' @ v @ [CHR 0x0A]) kvs))) st
      = fold (load_line scan atof) (fgets_lines 1023 (concat (map (\<lambda>(k, v). k @ ''='' @ v @ [CHR 0x0A]) kvs))) (load_option scan atof k v st)"
    using Cons.prems kv by (intro load_first_line) (simp_all add: line_ok_def)
  then show ?case using Cons kv by simp
qed

definition saved :: "('f \<Rightarrow> string) \<Rightarrow> 'f app_options \<Rightarrow> (string \<times> string) list" where
  "saved fprint st = (case ao_accent st of (a, b, c) \<Rightarrow>
     [(''accent'', fprint a @ '','' @ fprint b @ '','' @ fprint c), (''fontScale'', fprint (ao_fontScale st)),
      (''animations'', flag_text (ao_animations st)), (''multiViewport'', flag_text (ao_multiViewport st)),
      (''payloadCapMB'', int_text (ao_payloadCapMB st)), (''autoScroll'', flag_text (ao_autoScroll st)),
      (''showClosed'', flag_text (ao_showClosed st)), (''proxyPort'', int_text (ao_proxyPort st)),
      (''useSystemProxy'', flag_text (ao_useSystemProxy st)), (''sysPath'', c_str (ao_sysPath st))])"

lemma Save_saved: "Save fprint st = concat (map (\<lambda>(k, v). k @ ''='' @ v @ [CHR 0x0A]) (saved fprint st))"
  by (simp add: Save_def saved_def split: prod.split)

lemma saved_ok:
  assumes "float_io fprint scan atof rnd" "options_ok st"
  shows "\<forall>kv \<in> set (saved fprint st). line_ok kv"
proof -
  obtain a b c where acc: "ao_accent st = (a, b, c)" by (cases "ao_accent st")
  have io: "plain_text (fprint x)" "length (fprint x) \<le> 300" for x using assms(1) by (simp_all add: float_io_def)
  have keys: "plain_text ''accent''" "plain_text ''fontScale''" "plain_text ''animations''" "plain_text ''multiViewport''"
    "plain_text ''payloadCapMB''" "plain_text ''autoScroll''" "plain_text ''showClosed''" "plain_text ''proxyPort''"
    "plain_text ''useSystemProxy''" "plain_text ''sysPath''" "plain_text '',''"
    by (simp_all add: plain_text_def)
  have path: "c_str (ao_sysPath st) = ao_sysPath st" "plain_text (ao_sysPath st)" "length (ao_sysPath st) < 512"
    using assms(2) by (auto simp: options_ok_def plain_text_def intro: c_str_plain)
  have short: "length (fprint a) + (length (fprint b) + length (fprint c)) \<le> 900" "length (fprint (ao_fontScale st)) \<le> 300"
    using io(2) [of a] io(2) [of b] io(2) [of c] io(2) [of "ao_fontScale st"] by simp_all
  have nums: "length (int_text (ao_payloadCapMB st)) \<le> 11" "length (int_text (ao_proxyPort st)) \<le> 11"
    using assms(2) by (simp_all add: options_ok_def int_text_short)
  have flags: "length (flag_text b) < n" if "11 < n" for b n using flag_text_short [of b] that by simp
  have "line_ok (''accent'', fprint a @ '','' @ fprint b @ '','' @ fprint c)"
    unfolding line_ok_def fst_conv snd_conv plain_text_append using io(1) keys short(1) by simp
  then show ?thesis using io(1) short(2) nums flags path keys by (simp add: saved_def acc line_ok_def)
qed

section \<open>Properties\<close>

text \<open>
  C35. Saved options are read back. Whatever the options were before, loading the text that saving wrote gives every
  option its saved value, the floating point ones as printed, for any path without line ends that
  fits its buffer and any 32-bit numbers.
\<close>

theorem Save_Load:
  assumes "float_io fprint scan atof rnd" "options_ok st"
  shows "Load scan atof (Some (Save fprint st)) st0 = as_printed rnd st"
proof -
  obtain a b c where acc: "ao_accent st = (a, b, c)" by (cases "ao_accent st")
  have io: "atof (fprint x) = rnd x" "scan (fprint x @ CHR '','' # r) = Some (rnd x, CHR '','' # r)"
    "scan (fprint x) = Some (rnd x, [])" for x r
    using assms(1) by (simp_all add: float_io_def)
  have nums: "atoi (int_text (ao_payloadCapMB st)) = ao_payloadCapMB st" "atoi (int_text (ao_proxyPort st)) = ao_proxyPort st"
    "length (ao_sysPath st) < 512"
    using assms(2) by (simp_all add: options_ok_def atoi_int_text)
  have scan3: "scan_accent scan (fprint a @ '','' @ fprint b @ '','' @ fprint c) acc0 = (rnd a, rnd b, rnd c)" for acc0
    by (cases acc0) (simp add: scan_accent_def io(2,3))
  have path: "c_str (ao_sysPath st) = ao_sysPath st"
    using assms(2) by (auto simp: options_ok_def plain_text_def intro: c_str_plain)
  have "Load scan atof (Some (Save fprint st)) st0 = fold (\<lambda>(k, v). load_option scan atof k v) (saved fprint st) st0"
    unfolding Load_def option.case Save_saved by (rule load_lines [OF saved_ok [OF assms]])
  also have "\<dots> = as_printed rnd st"
    using nums path acc by (intro app_options.equality) (simp_all add: saved_def load_option_def scan3 [simplified] io(1) as_printed_def)
  finally show ?thesis .
qed

definition sample_scan :: "string \<Rightarrow> (u8 \<times> string) option" where
  "sample_scan s = (let d = takeWhile (\<lambda>c. digit_val c < 10) s in Some (word_of_nat (digits_val 10 d), drop (length d) s))"

definition sample_print :: "u8 \<Rightarrow> string" where
  "sample_print x = dec_text (unat x)"

definition sample_options :: "u8 app_options" where
  "sample_options = \<lparr>ao_accent = (1, 20, 255), ao_fontScale = 3, ao_animations = True, ao_multiViewport = False, ao_payloadCapMB = 4,
     ao_autoScroll = True, ao_showClosed = False, ao_proxyPort = -1, ao_useSystemProxy = True, ao_sysPath = ''knd.sys''\<rparr>"

lemma sample_float_io: "float_io sample_print sample_scan (\<lambda>s. fst (the (sample_scan s))) (\<lambda>x. x)"
proof -
  have three: "length (dec_text (unat (x :: u8))) \<le> 3" for x
    using less_trans [OF unat_u8_lt [of x], of 1000] by (intro length_numeral_text) auto
  have len: "length (dec_text (unat (x :: u8))) \<le> 300" for x using three [of x] by simp
  have comma: "takeWhile (\<lambda>c. digit_val c < 10) (dec_text n @ CHR '','' # r) = dec_text n" for n r
  proof -
    have "\<forall>c \<in> set (dec_text n). digit_val c < 10" using numeral_text_all_digits [of 10] by simp
    moreover have "\<not> digit_val (CHR '','') < 10" by (simp add: digit_val_def)
    ultimately show ?thesis by (simp add: takeWhile_append2)
  qed
  have whole: "takeWhile (\<lambda>c. digit_val c < 10) (dec_text n) = dec_text n" for n by (simp add: takeWhile_numeral)
  show ?thesis
    by (simp add: float_io_def len comma whole sample_print_def sample_scan_def dec_text_plain digits_val_numeral_text Let_def)
qed

theorem Save_Load_witness:
  "Load sample_scan (\<lambda>s. fst (the (sample_scan s))) (Some (Save sample_print sample_options))
     (sample_options\<lparr>ao_proxyPort := 8888, ao_sysPath := []\<rparr>) = sample_options"
  using Save_Load [OF sample_float_io, of sample_options]
  by (simp add: options_ok_def sample_options_def plain_text_def as_printed_def)

end
