(* ===== verification/Knd_Host.thy ===== *)
theory Knd_Host
  imports Knd_Ca
begin

text \<open>
  What the application does to the host: loading and unloading the driver's service
  (\<^verbatim>\<open>src/app/src/knd_service.cpp\<close>), injecting and removing the key extractor (\<^verbatim>\<open>src/app/src/knd_inject.cpp\<close>),
  installing the authority's certificate and the system proxy (\<^verbatim>\<open>src/app/src/win_integration.cpp\<close>). The
  answers of the system are arguments; a call that can fail answers with the error code or
  with success. Each operation yields its result, its error text and the trace of the
  resources it acquires and releases and of the effects in between.
\<close>

section \<open>Traces\<close>

datatype os_event = Acquire string | Release string | Effect string

text \<open>Resources are released in the reverse order of their acquisition.\<close>

fun run_trace :: "os_event list \<Rightarrow> string list \<Rightarrow> string list option" where
  "run_trace [] held = Some held"
| "run_trace (Acquire h # tr) held = run_trace tr (h # held)"
| "run_trace (Release h # tr) held = (case held of h' # rest \<Rightarrow> if h' = h then run_trace tr rest else None | [] \<Rightarrow> None)"
| "run_trace (Effect e # tr) held = run_trace tr held"

definition balanced :: "os_event list \<Rightarrow> bool" where
  "balanced tr \<longleftrightarrow> (\<forall>held. run_trace tr held = Some held)"

type_synonym host_result = "bool \<times> string \<times> os_event list"

text \<open>A failing call has an error code.\<close>

type_synonym answer = "u32 option"

section \<open>The driver service\<close>

definition Win32Msg :: "(u32 \<Rightarrow> string option) \<Rightarrow> string \<Rightarrow> u32 \<Rightarrow> string" where
  "Win32Msg sys what e =
     (let s = what @ '' (err '' @ dec_text (unat e) @ '': '' @ (case sys e of Some m \<Rightarrow> m | None \<Rightarrow> ''?'') @ '')'' in
      rev (dropWhile (\<lambda>c. c = CHR 0x0A \<or> c = CHR 0x0D \<or> c = CHR '' '') (rev s)))"

record token_answer =
  tk_open :: bool
  tk_query :: bool
  tk_elevated :: bool

definition IsElevated :: "token_answer \<Rightarrow> bool \<times> os_event list" where
  "IsElevated a = (if \<not> tk_open a then (False, [])
     else (tk_query a \<and> tk_elevated a, [Acquire ''token'', Release ''token'']))"

definition ERROR_SERVICE_EXISTS :: u32 where "ERROR_SERVICE_EXISTS = 1073"
definition ERROR_SERVICE_ALREADY_RUNNING :: u32 where "ERROR_SERVICE_ALREADY_RUNNING = 1056"
definition SERVICE_RUNNING :: u32 where "SERVICE_RUNNING = 4"

record service_answer =
  sv_token :: token_answer
  sv_file :: bool
  sv_manager :: answer
  sv_create :: answer
  sv_open :: answer
  sv_start :: answer
  sv_delete :: answer
  sv_state :: "u32 option"

text \<open>The service to start: the one just created, or the existing one.\<close>

definition open_or_create :: "service_answer \<Rightarrow> u32 + os_event list" where
  "open_or_create a = (case sv_create a of
     None \<Rightarrow> Inr [Effect ''create service'', Acquire ''service'']
   | Some e \<Rightarrow> if e = ERROR_SERVICE_EXISTS \<and> sv_open a = None then Inr [Acquire ''service''] else Inl e)"

definition LoadDriver :: "(u32 \<Rightarrow> string option) \<Rightarrow> service_answer \<Rightarrow> host_result" where
  "LoadDriver sys a =
     (let (elevated, tr0) = IsElevated (sv_token a) in
      if \<not> elevated then (False, ''must run elevated (Administrator) to load a driver'', tr0)
      else if \<not> sv_file a then (False, ''driver .sys not found at the configured path'', tr0)
      else (case sv_manager a of
         Some e \<Rightarrow> (False, Win32Msg sys ''OpenSCManager'' e, tr0)
       | None \<Rightarrow> (case open_or_create a of
           Inl e \<Rightarrow> (False, Win32Msg sys ''CreateService'' e, tr0 @ [Acquire ''manager'', Release ''manager''])
         | Inr tr1 \<Rightarrow>
             (let (ok, err, tr2) = (case sv_start a of
                  None \<Rightarrow> (True, [], [Effect ''start service''])
                | Some e \<Rightarrow> if e \<noteq> ERROR_SERVICE_ALREADY_RUNNING then (False, Win32Msg sys ''StartService'' e, [])
                    else (True, [], [])) in
              (ok, err, tr0 @ [Acquire ''manager''] @ tr1 @ tr2 @ [Release ''service'', Release ''manager''])))))"

definition UnloadDriver :: "(u32 \<Rightarrow> string option) \<Rightarrow> service_answer \<Rightarrow> host_result" where
  "UnloadDriver sys a =
     (let (elevated, tr0) = IsElevated (sv_token a) in
      if \<not> elevated then (False, ''must run elevated to unload a driver'', tr0)
      else (case sv_manager a of
         Some e \<Rightarrow> (False, Win32Msg sys ''OpenSCManager'' e, tr0)
       | None \<Rightarrow> (case sv_open a of
           Some e \<Rightarrow> (False, Win32Msg sys ''OpenService'' e, tr0 @ [Acquire ''manager'', Release ''manager''])
         | None \<Rightarrow>
             (let (ok, err, tr2) = (case sv_delete a of
                  None \<Rightarrow> (True, [], [Effect ''delete service''])
                | Some e \<Rightarrow> (False, Win32Msg sys ''DeleteService'' e, [])) in
              (ok, err, tr0 @ [Acquire ''manager'', Acquire ''service'', Effect ''stop service''] @ tr2
                 @ [Release ''service'', Release ''manager''])))))"

definition IsRunning :: "service_answer \<Rightarrow> bool \<times> os_event list" where
  "IsRunning a = (case sv_manager a of
     Some _ \<Rightarrow> (False, [])
   | None \<Rightarrow> (case sv_open a of
       Some _ \<Rightarrow> (False, [Acquire ''manager'', Release ''manager''])
     | None \<Rightarrow> (sv_state a = Some SERVICE_RUNNING,
         [Acquire ''manager'', Acquire ''service'', Release ''service'', Release ''manager''])))"

section \<open>Injection\<close>

definition Win32Err :: "string \<Rightarrow> u32 \<Rightarrow> string" where
  "Win32Err what e = what @ '' (err '' @ dec_text (unat e) @ '')''"

definition same_name :: "string \<Rightarrow> string \<Rightarrow> bool" where
  "same_name a b \<longleftrightarrow> map tolower a = map tolower b"

text \<open>A snapshot is the list of names with their base or id; none when it cannot be taken.\<close>

definition RemoteModuleBase :: "(string \<times> u64) list option \<Rightarrow> string \<Rightarrow> u64 \<times> os_event list" where
  "RemoteModuleBase snap dllName = (case snap of
     None \<Rightarrow> (0, [])
   | Some ms \<Rightarrow> (case List.find (\<lambda>m. same_name (fst m) dllName) ms of None \<Rightarrow> 0 | Some m \<Rightarrow> snd m,
       [Acquire ''snapshot'', Release ''snapshot'']))"

definition BaseName :: "string \<Rightarrow> string" where
  "BaseName p = (case rfind_char (CHR 0x5C) p of None \<Rightarrow> p | Some i \<Rightarrow> drop (i + 1) p)"

record privilege_answer =
  pv_open :: bool
  pv_lookup :: bool
  pv_adjust :: bool
  pv_last_error :: u32

definition EnableDebugPrivilege :: "privilege_answer \<Rightarrow> bool \<times> os_event list" where
  "EnableDebugPrivilege a = (if \<not> pv_open a then (False, [])
     else (pv_lookup a \<and> pv_adjust a \<and> pv_last_error a = 0, [Acquire ''token'', Release ''token'']))"

definition FindProcessId :: "(string \<times> u32) list option \<Rightarrow> string \<Rightarrow> u32 \<times> os_event list" where
  "FindProcessId snap exeName = (case snap of
     None \<Rightarrow> (0, [])
   | Some ps \<Rightarrow> (case List.find (\<lambda>p. same_name (fst p) exeName) ps of None \<Rightarrow> 0 | Some p \<Rightarrow> snd p,
       [Acquire ''snapshot'', Release ''snapshot'']))"

definition DefaultDllPath :: "string \<Rightarrow> string" where
  "DefaultDllPath exe =
     (let slash = List.find (\<lambda>i. exe ! i = CHR 0x5C \<or> exe ! i = CHR ''/'') (rev [0..<length exe]) in
      (case slash of None \<Rightarrow> ''.'' | Some i \<Rightarrow> take i exe) @ [CHR 0x5C] @ ''knd_sslkeys.dll'')"

record inject_answer =
  ij_file :: bool
  ij_privilege :: privilege_answer
  ij_process :: answer
  ij_alloc :: bool
  ij_write :: bool
  ij_thread :: answer
  ij_exit :: u32

definition InjectDll :: "inject_answer \<Rightarrow> u32 \<Rightarrow> host_result" where
  "InjectDll a pid =
     (if pid = 0 then (False, ''target process not found'', [])
      else if \<not> ij_file a then (False, ''knd_sslkeys.dll not found next to the app'', [])
      else (let tr0 = snd (EnableDebugPrivilege (ij_privilege a)) in
        case ij_process a of
          Some e \<Rightarrow> (False, Win32Err ''OpenProcess denied'' e
              @ '' - if this is lsass it is likely PPL-protected (RunAsPPL=1); use the kernel path'', tr0)
        | None \<Rightarrow>
            (let (ok, err, tr1) =
               (if ij_alloc a \<and> ij_write a
                then (case ij_thread a of
                   None \<Rightarrow> (ij_exit a \<noteq> 0, if ij_exit a \<noteq> 0 then [] else ''LoadLibrary in target returned NULL'',
                             [Acquire ''thread'', Effect ''load library'', Release ''thread''])
                 | Some e \<Rightarrow> (False, Win32Err ''CreateRemoteThread failed'' e, []))
                else (False, ''VirtualAllocEx/WriteProcessMemory failed'', [])) in
             (ok, err, tr0 @ [Acquire ''process''] @ (if ij_alloc a then [Acquire ''memory''] else []) @ tr1
                @ (if ij_alloc a then [Release ''memory''] else []) @ [Release ''process'']))))"

record unhook_answer =
  uh_modules :: "(string \<times> u64) list option"
  uh_local :: "u64 option"
  uh_export :: "u64 option"
  uh_process :: answer
  uh_thread :: answer
  uh_free :: answer

text \<open>The address at which the thread in the target starts is part of the trace's result.\<close>

definition UnhookDll :: "unhook_answer \<Rightarrow> string \<Rightarrow> host_result \<times> u64 option" where
  "UnhookDll a dllPath =
     (let (base, tr0) = RemoteModuleBase (uh_modules a) (BaseName dllPath) in
      if base = 0 then ((False, ''DLL not loaded in target'', tr0), None)
      else (case uh_local a of
         None \<Rightarrow> ((False, ''cannot map DLL locally to resolve export'', tr0), None)
       | Some local \<Rightarrow>
           (let tr1 = tr0 @ [Acquire ''module'', Release ''module''] in
            case uh_export a of
              None \<Rightarrow> ((False, ''KndUnhook export missing'', tr1), None)
            | Some proc \<Rightarrow>
                (let rva = proc - local in
                 case uh_process a of
                   Some e \<Rightarrow> ((False, Win32Err ''OpenProcess denied'' e, tr1), None)
                 | None \<Rightarrow> (case uh_thread a of
                     Some e \<Rightarrow> ((False, Win32Err ''CreateRemoteThread (unhook) failed'' e,
                        tr1 @ [Acquire ''process'', Release ''process'']), Some (base + rva))
                   | None \<Rightarrow> ((True, [],
                        tr1 @ [Acquire ''process'', Acquire ''thread'', Effect ''unhook'', Release ''thread'']
                        @ (if uh_free a = None then [Acquire ''thread'', Effect ''free library'', Release ''thread''] else [])
                        @ [Release ''process'']), Some (base + rva)))))))"

section \<open>Certificate store and proxy settings\<close>

record store_answer =
  st_size :: bool
  st_decode :: bool
  st_context :: bool
  st_store :: bool
  st_add :: answer

definition InstallCaToRoot :: "files \<Rightarrow> store_answer \<Rightarrow> string \<Rightarrow> host_result" where
  "InstallCaToRoot fs a caPemPath =
     (let pem = ReadFile fs caPemPath in
      if pem = [] then (False, ''CA PEM not found / empty: '' @ caPemPath, [])
      else if \<not> st_size a then (False, ''CryptStringToBinary (size) failed'', [])
      else if \<not> st_decode a then (False, ''CryptStringToBinary failed'', [])
      else if \<not> st_context a then (False, ''CertCreateCertificateContext failed'', [])
      else if \<not> st_store a
      then (False, ''open LOCAL_MACHINE'' @ [CHR 0x5C] @ ''ROOT failed (need elevation)'', [Acquire ''certificate'', Release ''certificate''])
      else (let (ok, err, tr) = (case st_add a of
                None \<Rightarrow> (True, [], [Effect ''add certificate''])
              | Some e \<Rightarrow> (False, ''CertAddCertificateContextToStore failed (err '' @ dec_text (unat e) @ '')'', [])) in
        (ok, err, [Acquire ''certificate'', Acquire ''store''] @ tr @ [Release ''store'', Release ''certificate''])))"

datatype reg_value = RegDword u32 | RegText string

text \<open>The settings of the current user; \<open>opened\<close> tells whether their key could be opened, \<open>writes\<close> which values
  could be written.\<close>

definition set_value :: "(string \<Rightarrow> bool) \<Rightarrow> string \<Rightarrow> reg_value \<Rightarrow> (string \<rightharpoonup> reg_value) \<Rightarrow> (string \<rightharpoonup> reg_value)" where
  "set_value writes name v reg = (if writes name then reg(name \<mapsto> v) else reg)"

definition SetSystemProxy ::
  "bool \<Rightarrow> (string \<Rightarrow> bool) \<Rightarrow> bool \<Rightarrow> string \<Rightarrow> (string \<rightharpoonup> reg_value) \<Rightarrow> host_result \<times> (string \<rightharpoonup> reg_value)" where
  "SetSystemProxy opened writes enable hostPort reg =
     (if \<not> opened then ((False, ''open Internet Settings key failed'', []), reg)
      else (let reg1 = set_value writes ''ProxyEnable'' (RegDword (if enable then 1 else 0)) reg;
                reg2 = (if enable then set_value writes ''ProxyServer'' (RegText (c_str hostPort)) reg1 else reg1) in
        ((True, [], [Acquire ''key'', Release ''key'', Effect ''settings changed'', Effect ''refresh'']), reg2)))"

section \<open>Resources and errors\<close>

lemma run_trace_append: "run_trace (tr @ tr') held = Option.bind (run_trace tr held) (run_trace tr')"
  by (induction tr held rule: run_trace.induct) (auto split: list.split)

lemma balanced_append: "balanced tr \<Longrightarrow> balanced tr' \<Longrightarrow> balanced (tr @ tr')"
  by (simp add: balanced_def run_trace_append)

lemma balanced_tokens [simp]: "balanced (snd (IsElevated t))" "balanced (snd (EnableDebugPrivilege p))"
  "balanced (snd (RemoteModuleBase snap name))" "balanced (snd (FindProcessId ps name))"
  by (auto simp: IsElevated_def EnableDebugPrivilege_def RemoteModuleBase_def FindProcessId_def balanced_def split: option.split)

text \<open>The system's message stays as it is: the text behind it ends in a parenthesis, so nothing is trimmed.\<close>

lemma Win32Msg_untrimmed:
  "Win32Msg sys what e = what @ '' (err '' @ dec_text (unat e) @ '': '' @ (case sys e of Some m \<Rightarrow> m | None \<Rightarrow> ''?'') @ '')''"
  by (simp add: Win32Msg_def)

lemma Win32_nonempty [simp]: "Win32Msg sys what e \<noteq> []" "Win32Err what e \<noteq> []"
  by (simp_all add: Win32Msg_untrimmed Win32Err_def)

definition settled :: "host_result \<Rightarrow> bool" where
  "settled r \<longleftrightarrow> (case r of (ok, err, tr) \<Rightarrow> balanced tr \<and> (ok \<longleftrightarrow> err = []))"

lemma run_balanced [simp]: "balanced tr \<Longrightarrow> run_trace (tr @ tr') held = run_trace tr' held"
  by (simp add: balanced_def run_trace_append)

lemma LoadDriver_settled: "settled (LoadDriver sys a)"
proof -
  obtain el tr0 where e: "IsElevated (sv_token a) = (el, tr0)" by fastforce
  then have b: "balanced tr0" using balanced_tokens(1) [of "sv_token a"] by simp
  have "balanced (tr0 @ Acquire ''manager'' # x @ Acquire ''service'' # y @ [Release ''service'', Release ''manager''])"
    if "x = [] \<or> x = [Effect ''create service'']" "y = [] \<or> y = [Effect ''start service'']" for x y
    using b that by (auto simp: balanced_def run_trace_append)
  from this [of "[]" "[]"] this [of "[]" "[Effect ''start service'']"] this [of "[Effect ''create service'']" "[]"]
    this [of "[Effect ''create service'']" "[Effect ''start service'']"]
  show ?thesis using b
    by (auto simp: LoadDriver_def e settled_def open_or_create_def balanced_append balanced_def split: option.split)
qed

lemma UnloadDriver_settled: "settled (UnloadDriver sys a)"
proof -
  obtain el tr0 where e: "IsElevated (sv_token a) = (el, tr0)" by fastforce
  then have b: "balanced tr0" using balanced_tokens(1) [of "sv_token a"] by simp
  then show ?thesis
    by (auto simp: UnloadDriver_def e settled_def balanced_def run_trace_append split: option.split)
qed

lemma IsRunning_balanced: "balanced (snd (IsRunning a))"
  by (auto simp: IsRunning_def balanced_def split: option.split)

lemma InjectDll_settled: "settled (InjectDll a pid)"
proof -
  obtain p tr0 where e: "EnableDebugPrivilege (ij_privilege a) = (p, tr0)" by fastforce
  then have b: "balanced tr0" using balanced_tokens(2) [of "ij_privilege a"] by simp
  then show ?thesis
    by (auto simp: InjectDll_def e settled_def Let_def balanced_def run_trace_append split: option.split)
qed

lemma UnhookDll_settled: "settled (fst (UnhookDll a dllPath))"
proof -
  obtain base tr0 where e: "RemoteModuleBase (uh_modules a) (BaseName dllPath) = (base, tr0)" by fastforce
  then have b: "balanced tr0" using balanced_tokens(3) [of "uh_modules a" "BaseName dllPath"] by simp
  then show ?thesis
    by (auto simp: UnhookDll_def e settled_def Let_def balanced_def run_trace_append split: option.split)
qed

lemma InstallCaToRoot_settled: "settled (InstallCaToRoot fs a path)"
  by (auto simp: InstallCaToRoot_def settled_def Let_def balanced_def split: option.split)

lemma SetSystemProxy_settled: "settled (fst (SetSystemProxy opened writes enable hostPort reg))"
  by (simp add: SetSystemProxy_def settled_def Let_def balanced_def)

section \<open>Properties\<close>

text \<open>
  C36. The host operations clean up after themselves. Whatever the system answers, each operation on services,
  processes, the certificate store and the proxy settings releases every handle, mapping and
  block of remote memory that it acquired, in reverse order, and has an error text exactly when
  it fails.
\<close>

theorem host_operations_settled:
  "settled (LoadDriver sys a) \<and> settled (UnloadDriver sys a) \<and> balanced (snd (IsRunning a))
   \<and> settled (InjectDll i pid) \<and> settled (fst (UnhookDll u dllPath))
   \<and> settled (InstallCaToRoot fs s caPath) \<and> settled (fst (SetSystemProxy opened writes enable hostPort reg))"
  by (simp add: LoadDriver_settled UnloadDriver_settled IsRunning_balanced InjectDll_settled UnhookDll_settled
      InstallCaToRoot_settled SetSystemProxy_settled)

text \<open>
  The driver is loaded exactly when it can be: elevated, with the file in place and the service manager open,
  the service created now or found existing, and started now or already running; loading again after
  a success, when the service exists and runs, succeeds again without creating or starting anything.
\<close>

theorem LoadDriver_succeeds:
  "(fst (LoadDriver sys a) \<longleftrightarrow> fst (IsElevated (sv_token a)) \<and> sv_file a \<and> sv_manager a = None
     \<and> (sv_create a = None \<or> sv_create a = Some ERROR_SERVICE_EXISTS \<and> sv_open a = None)
     \<and> (sv_start a = None \<or> sv_start a = Some ERROR_SERVICE_ALREADY_RUNNING))
   \<and> (let again = LoadDriver sys (a\<lparr>sv_create := Some ERROR_SERVICE_EXISTS, sv_open := None, sv_start := Some ERROR_SERVICE_ALREADY_RUNNING\<rparr>) in
      \<not> fst (LoadDriver sys a) \<or> fst again \<and> (\<forall>e. Effect e \<notin> set (snd (snd again))))"
proof -
  obtain el tr0 where e: "IsElevated (sv_token a) = (el, tr0)" by fastforce
  have "Effect x \<notin> set tr0" for x using e by (auto simp: IsElevated_def split: if_splits)
  then show ?thesis
    by (auto simp: LoadDriver_def e open_or_create_def Let_def split: option.split sum.split)
qed

definition sample_service :: service_answer where
  "sample_service = \<lparr>sv_token = \<lparr>tk_open = True, tk_query = True, tk_elevated = True\<rparr>, sv_file = True, sv_manager = None,
     sv_create = None, sv_open = None, sv_start = None, sv_delete = None, sv_state = None\<rparr>"

theorem LoadDriver_succeeds_witness:
  "fst (LoadDriver (\<lambda>_. None) sample_service)
   \<and> fst (LoadDriver (\<lambda>_. None) (sample_service\<lparr>sv_create := Some ERROR_SERVICE_EXISTS, sv_open := None, sv_start := Some ERROR_SERVICE_ALREADY_RUNNING\<rparr>))"
  using LoadDriver_succeeds [of "\<lambda>_. None" sample_service]
  by (simp add: Let_def) (simp add: sample_service_def IsElevated_def)

section \<open>Where the code falls short\<close>

text \<open>The exit code of a thread that is still running counts as a loaded library.\<close>

definition STILL_ACTIVE :: u32 where "STILL_ACTIVE = 259"

lemma inject_still_running:
  "pid \<noteq> 0 \<Longrightarrow> ij_file a \<Longrightarrow> ij_process a = None \<Longrightarrow> ij_alloc a \<Longrightarrow> ij_write a \<Longrightarrow> ij_thread a = None \<Longrightarrow>
   ij_exit a = STILL_ACTIVE \<Longrightarrow> fst (InjectDll a pid)"
  by (simp add: InjectDll_def Let_def STILL_ACTIVE_def)

end
