(* ===== verification/Knd_App.thy ===== *)
theory Knd_App
  imports Knd_Inspector Knd_Stats Knd_Channel Knd_Mitm Knd_Keys Knd_Settings Knd_Host
begin

text \<open>
  The application around the components (\<^verbatim>\<open>src/app/src/main.cpp\<close>, \<^verbatim>\<open>src/app/src/ui.cpp\<close>, \<^verbatim>\<open>src/app/src/ui.h\<close>): its
  start, one frame of the main loop with the panels that change state, and its end. What the user
  does in a panel is an argument, one record per panel, because the drawing library reports it;
  the device and the answers of the system are arguments as in the theories of the
  components. Fonts and rendering are left out; the window and the loop around the frames are in \<open>Knd_Window\<close>, colours in \<open>Knd_Theme\<close>.
\<close>

section \<open>State\<close>

record 'f app_state =
  as_deviceConnected :: bool
  as_ringMapped :: bool
  as_capturing :: bool
  as_status :: string
  as_selectedFlow :: u64
  as_filterText :: string
  as_mockData :: bool
  as_mitmRunning :: bool
  as_wfpRedirect :: bool
  as_mitmStatus :: string
  as_driverStatus :: string
  as_caStatus :: string
  as_stealthStatus :: string
  as_keylogPath :: string
  as_keylogLoaded :: bool
  as_keylogStatus :: string
  as_keylog :: key_log
  as_selectedPacket :: u64
  as_packetFilter :: string
  as_layoutInitialized :: bool
  as_resetLayout :: bool
  as_askResetLayout :: bool
  as_options :: "'f app_options"

definition dash :: string where
  "dash = [CHR '' '', CHR 0xE2, CHR 0x80, CHR 0x94, CHR '' '']"

definition new_app_state :: "'f \<times> 'f \<times> 'f \<Rightarrow> 'f \<Rightarrow> 'f app_state" where
  "new_app_state accent scale = \<lparr>as_deviceConnected = False, as_ringMapped = False, as_capturing = False,
     as_status = ''Disconnected'' @ dash @ ''driver not opened'', as_selectedFlow = 0, as_filterText = [],
     as_mockData = False, as_mitmRunning = False, as_wfpRedirect = False, as_mitmStatus = ''MITM proxy: stopped'',
     as_driverStatus = ''driver: not checked'', as_caStatus = ''CA: not installed this session'',
     as_stealthStatus = ''SChannel key extractor: idle'', as_keylogPath = KEYLOG, as_keylogLoaded = False,
     as_keylogStatus = ''keylog: not loaded'', as_keylog = Map.empty, as_selectedPacket = 0, as_packetFilter = [],
     as_layoutInitialized = False, as_resetLayout = False, as_askResetLayout = False,
     as_options = \<lparr>ao_accent = accent, ao_fontScale = scale, ao_animations = True, ao_multiViewport = True,
       ao_payloadCapMB = 4, ao_autoScroll = True, ao_showClosed = True, ao_proxyPort = 8888,
       ao_useSystemProxy = False, ao_sysPath = ''knd.sys''\<rparr>\<rparr>"

text \<open>The objects that \<^verbatim>\<open>wWinMain\<close> owns, with the device, the registry and the files they act on; the throughput history
  of the interface state and the caches of the inspector are fields of their own.\<close>

record ('s, 'k, 'f, 't) app =
  ap_st :: "'f app_state"
  ap_client :: knd_client
  ap_dev :: 's
  ap_model :: "'t knd_model"
  ap_ca :: "'k mitm_ca"
  ap_proxy :: mitm_proxy
  ap_mock :: "'t mock_state"
  ap_caches :: "http_cache \<times> tls_cache"
  ap_thru :: "('f, 't) throughput"
  ap_reg :: "string \<rightharpoonup> reg_value"
  ap_files :: files

text \<open>The device as the application reaches it: requests, the bytes of a mapping, a store to a mapping.\<close>

record 's platform =
  pf_device :: "'s device"
  pf_view :: "'s \<Rightarrow> u64 \<Rightarrow> mem"
  pf_store :: "'s \<Rightarrow> u64 \<Rightarrow> mem \<Rightarrow> 's"
  pf_closed :: "'s \<Rightarrow> u64 \<Rightarrow> 's"

abbreviation set_st :: "('f app_state \<Rightarrow> 'f app_state) \<Rightarrow> ('s, 'k, 'f, 't) app \<Rightarrow> ('s, 'k, 'f, 't) app" where
  "set_st g a \<equiv> a\<lparr>ap_st := g (ap_st a)\<rparr>"

abbreviation set_opt :: "('f app_options \<Rightarrow> 'f app_options) \<Rightarrow> 'f app_state \<Rightarrow> 'f app_state" where
  "set_opt g st \<equiv> st\<lparr>as_options := g (as_options st)\<rparr>"

section \<open>Connection and capture\<close>

text \<open>\<open>created\<close> is the handle that opening the device would return.\<close>

definition Connect :: "'s platform \<Rightarrow> u64 \<Rightarrow> ('s, 'k, 'f, 't) app \<Rightarrow> ('s, 'k, 'f, 't) app" where
  "Connect pf created a =
     (case client_open created (ap_client a) of (ok, cl) \<Rightarrow>
      if \<not> ok
      then (set_st (\<lambda>st. st\<lparr>as_deviceConnected := False, as_ringMapped := False, as_status := snprintf 256
              (''Cannot open '' @ [CHR 0x5C, CHR 0x5C, CHR ''.'', CHR 0x5C] @ ''KndCap'' @ dash @ ''is knd.sys loaded? (sc start knd)'')\<rparr>) a)
             \<lparr>ap_client := cl\<rparr>
      else (case getVersion (pf_device pf) cl (replicate sizeof_VERSION_OUT 0) (ap_dev a) of (_, out, s1) \<Rightarrow>
        (let v = dec_version out in
         case mapRing (pf_device pf) (pf_view pf) cl s1 of (mapped, cl2, s2) \<Rightarrow>
           (set_st (\<lambda>st. st\<lparr>as_deviceConnected := True, as_ringMapped := mapped,
              as_status := snprintf 256
                (if mapped
                 then ''Connected'' @ dash @ ''driver v'' @ dec_text (unat (vo_driverVersion v)) @ '', protocol v''
                   @ dec_text (unat (vo_protocolVersion v)) @ '', ring mapped''
                 else ''Connected (driver v'' @ dec_text (unat (vo_driverVersion v)) @ '') but ring map failed'')\<rparr>) a)
             \<lparr>ap_client := cl2, ap_dev := s2\<rparr>)))"

definition start_clicked :: "'s platform \<Rightarrow> ('s, 'k, 'f, 't) app \<Rightarrow> ('s, 'k, 'f, 't) app" where
  "start_clicked pf a = (case startCapture (pf_device pf) (ap_client a) (ap_dev a) of (ok, s) \<Rightarrow>
     (if ok then set_st (\<lambda>st. st\<lparr>as_capturing := True\<rparr>) a else a)\<lparr>ap_dev := s\<rparr>)"

definition stop_clicked :: "'s platform \<Rightarrow> ('s, 'k, 'f, 't) app \<Rightarrow> ('s, 'k, 'f, 't) app" where
  "stop_clicked pf a = (case stopCapture (pf_device pf) (ap_client a) (ap_dev a) of (ok, s) \<Rightarrow>
     (if ok then set_st (\<lambda>st. st\<lparr>as_capturing := False\<rparr>) a else a)\<lparr>ap_dev := s\<rparr>)"

abbreviation on :: "bool \<Rightarrow> ('a \<Rightarrow> 'a) \<Rightarrow> 'a \<Rightarrow> 'a" where
  "on b g x \<equiv> (if b then g x else x)"

abbreviation on_some :: "'b option \<Rightarrow> ('b \<Rightarrow> 'a \<Rightarrow> 'a) \<Rightarrow> 'a \<Rightarrow> 'a" where
  "on_some m g x \<equiv> (case m of None \<Rightarrow> x | Some y \<Rightarrow> g y x)"

section \<open>Panels\<close>

record menu_input =
  mi_shown :: bool
  mi_clear :: bool
  mi_exit :: bool
  mi_connect :: "u64 option"
  mi_start :: bool
  mi_stop :: bool
  mi_reset :: bool

text \<open>A disabled menu entry reports no click. The second result is whether closing was requested.\<close>

definition DrawMenuBar :: "'s platform \<Rightarrow> menu_input \<Rightarrow> ('s, 'k, 'f, 't) app \<Rightarrow> ('s, 'k, 'f, 't) app \<times> bool" where
  "DrawMenuBar pf i a =
     (if \<not> mi_shown i then (a, False)
      else (let a1 = on (mi_clear i) (\<lambda>a. a\<lparr>ap_model := clear (ap_model a)\<rparr>) a;
                conn = as_deviceConnected (ap_st a1);
                a2 = on_some (mi_connect i) (Connect pf) a1;
                a3 = on (mi_start i \<and> conn \<and> \<not> as_capturing (ap_st a2)) (start_clicked pf) a2;
                a4 = on (mi_stop i \<and> conn \<and> as_capturing (ap_st a3)) (stop_clicked pf) a3;
                a5 = on (mi_reset i) (set_st (\<lambda>st. st\<lparr>as_askResetLayout := True\<rparr>)) a4
            in (a5, mi_exit i)))"

definition WidenAscii :: "string \<Rightarrow> u16 list" where
  "WidenAscii s = map (\<lambda>c. ucast (byte c)) (c_str s)"

record control_input =
  ci_shown :: bool
  ci_load :: "(u16 list \<Rightarrow> service_answer) option"
  ci_unload :: "service_answer option"
  ci_sysPath :: string
  ci_connect :: "u64 option"
  ci_toggle :: bool
  ci_clear :: bool

definition DrawControl ::
  "'s platform \<Rightarrow> (u32 \<Rightarrow> string option) \<Rightarrow> control_input \<Rightarrow> ('s, 'k, 'f, 't) app \<Rightarrow> ('s, 'k, 'f, 't) app" where
  "DrawControl pf sys i a =
     (if \<not> ci_shown i then a
      else (let a1 = on_some (ci_load i) (\<lambda>ans a.
                  (case LoadDriver sys (ans (WidenAscii (ao_sysPath (as_options (ap_st a))))) of (ok, e, _) \<Rightarrow>
                     set_st (\<lambda>st. st\<lparr>as_driverStatus := snprintf 200
                       (if ok then ''driver: loaded / running'' else ''load failed: '' @ c_str e)\<rparr>) a)) a;
                a2 = on_some (ci_unload i) (\<lambda>ans a.
                  (case UnloadDriver sys ans of (ok, e, _) \<Rightarrow>
                     set_st (\<lambda>st. st\<lparr>as_driverStatus := snprintf 200
                       (if ok then ''driver: unloaded'' else ''unload failed: '' @ c_str e)\<rparr>) a)) a1;
                a3 = set_st (set_opt (\<lambda>ao. ao\<lparr>ao_sysPath := snprintf 512 (c_str (ci_sysPath i))\<rparr>)) a2
            in if \<not> as_deviceConnected (ap_st a3) then on_some (ci_connect i) (Connect pf) a3
               else (let a4 = on (ci_toggle i) (if as_capturing (ap_st a3) then stop_clicked pf else start_clicked pf) a3
                 in on (ci_clear i) (\<lambda>a. a\<lparr>ap_model := clear (ap_model a)\<rparr>) a4)))"

record flows_input =
  fi_shown :: bool
  fi_filter :: string
  fi_showClosed :: bool
  fi_select :: "nat option"

text \<open>A click names a row of the rows shown.\<close>

definition DrawFlows :: "flows_input \<Rightarrow> ('s, 'k, 'f, 't) app \<Rightarrow> ('s, 'k, 'f, 't) app" where
  "DrawFlows i a =
     (if \<not> fi_shown i then a
      else (let a1 = set_st (\<lambda>st. set_opt (\<lambda>ao. ao\<lparr>ao_showClosed := fi_showClosed i\<rparr>)
                  (st\<lparr>as_filterText := snprintf 128 (c_str (fi_filter i))\<rparr>)) a;
                rows = flow_rows (ap_model a1) (ao_showClosed (as_options (ap_st a1))) (as_filterText (ap_st a1))
            in on_some (fi_select i) (\<lambda>k a. if k < length rows
                 then set_st (\<lambda>st. st\<lparr>as_selectedFlow := kf_flowId (rows ! k)\<rparr>) a else a) a1))"

record packets_input =
  pi_shown :: bool
  pi_filter :: string
  pi_select :: "nat option"

definition DrawPackets :: "packets_input \<Rightarrow> ('s, 'k, 'f, 't) app \<Rightarrow> ('s, 'k, 'f, 't) app" where
  "DrawPackets i a =
     (if \<not> pi_shown i then a
      else (let a1 = set_st (\<lambda>st. st\<lparr>as_packetFilter := snprintf 128 (c_str (pi_filter i))\<rparr>) a;
                rows = packet_view (ap_model a1) (as_packetFilter (ap_st a1))
            in on_some (pi_select i) (\<lambda>k a. if k < length rows
                 then set_st (\<lambda>st. st\<lparr>as_selectedPacket := pk_no (rows ! k)\<rparr>) a else a) a1))"

record mitm_input =
  xi_shown :: bool
  xi_port :: int
  xi_bind :: "string \<Rightarrow> string \<Rightarrow> int \<times> int"
  xi_start :: bool
  xi_stop :: bool
  xi_key_opened :: bool
  xi_key_writes :: "string \<Rightarrow> bool"
  xi_useSystemProxy :: bool
  xi_redirect :: "bool option"
  xi_install :: "store_answer option"

definition clamp_port :: "int \<Rightarrow> int" where
  "clamp_port p = (let p1 = (if p < 1 then 1 else p) in if 65535 < p1 then 65535 else p1)"

definition start_proxy :: "mitm_input \<Rightarrow> ('s, 'k, 'f, 't) app \<Rightarrow> ('s, 'k, 'f, 't) app" where
  "start_proxy i a =
     (let port = ao_proxyPort (as_options (ap_st a)) in
      case start (word_of_int port) (Some (ca_ready (ap_ca a))) (xi_bind i) (ap_proxy a) of
        (Inl e, p) \<Rightarrow> (set_st (\<lambda>st. st\<lparr>as_mitmStatus := snprintf 256 (''start failed: '' @ c_str e)\<rparr>) a)\<lparr>ap_proxy := p\<rparr>
      | (Inr _, p) \<Rightarrow>
          (let a1 = (set_st (\<lambda>st. st\<lparr>as_mitmStatus := snprintf 256 (''MITM proxy: listening on 127.0.0.1:'' @ int_text port)\<rparr>) a)
                      \<lparr>ap_proxy := p\<rparr>
           in on (ao_useSystemProxy (as_options (ap_st a1))) (\<lambda>a. a\<lparr>ap_reg := snd (SetSystemProxy (xi_key_opened i) (xi_key_writes i)
                True (snprintf 64 (''127.0.0.1:'' @ int_text port)) (ap_reg a))\<rparr>) a1))"

definition stop_proxy :: "mitm_input \<Rightarrow> ('s, 'k, 'f, 't) app \<Rightarrow> ('s, 'k, 'f, 't) app" where
  "stop_proxy i a = (set_st (\<lambda>st. st\<lparr>as_mitmStatus := snprintf 256 ''MITM proxy: stopped''\<rparr>) a)
     \<lparr>ap_proxy := fst (stop (ap_proxy a)),
      ap_reg := snd (SetSystemProxy (xi_key_opened i) (xi_key_writes i) False [] (ap_reg a))\<rparr>"

definition set_redirect :: "'s platform \<Rightarrow> bool \<Rightarrow> ('s, 'k, 'f, 't) app \<Rightarrow> ('s, 'k, 'f, 't) app" where
  "set_redirect pf b a =
     (case setRedirect (pf_device pf) (ap_client a) b (word_of_int (ao_proxyPort (as_options (ap_st a)))) (ap_dev a) of (_, s) \<Rightarrow>
        (set_st (\<lambda>st. st\<lparr>as_wfpRedirect := b\<rparr>) a)\<lparr>ap_dev := s\<rparr>)"

definition DrawMitm :: "'s platform \<Rightarrow> mitm_input \<Rightarrow> ('s, 'k, 'f, 't) app \<Rightarrow> ('s, 'k, 'f, 't) app" where
  "DrawMitm pf i a =
     (if \<not> xi_shown i then a
      else (let running = mp_running (ap_proxy a);
                a1 = set_st (\<lambda>st. st\<lparr>as_mitmRunning := running\<rparr>) a;
                a2 = set_st (set_opt (\<lambda>ao. ao\<lparr>ao_proxyPort := clamp_port (if running then ao_proxyPort ao else xi_port i)\<rparr>)) a1;
                a3 = (if \<not> running then on (xi_start i) (start_proxy i) a2 else on (xi_stop i) (stop_proxy i) a2);
                a4 = set_st (set_opt (\<lambda>ao. ao\<lparr>ao_useSystemProxy := xi_useSystemProxy i\<rparr>)) a3;
                a5 = on_some (xi_redirect i) (set_redirect pf) a4
            in on_some (xi_install i) (\<lambda>ans a.
                 (case InstallCaToRoot (ap_files a) ans ''knd_ca.pem'' of (ok, e, _) \<Rightarrow>
                    set_st (\<lambda>st. st\<lparr>as_caStatus := snprintf 200 (if ok then ''CA: installed into LOCAL_MACHINE'' @ [CHR 0x5C] @ ''ROOT''
                      else ''CA install failed: '' @ c_str e)\<rparr>) a)) a5))"

record stealth_input =
  si_shown :: bool
  si_inject :: "((string \<times> u32) list option \<times> inject_answer) option"
  si_unhook :: "unhook_answer option"
  si_exe :: string
  si_keylogPath :: string
  si_load :: bool

definition load_keys :: "('s, 'k, 'f, 't) app \<Rightarrow> ('s, 'k, 'f, 't) app" where
  "load_keys a =
     (let k = loadFile (ap_files a (as_keylogPath (ap_st a))) Map.empty in
      set_st (\<lambda>st. st\<lparr>as_keylog := k, as_keylogLoaded := 0 < key_count k,
        as_keylogStatus := snprintf 128 (''keylog: '' @ dec_text (key_count k) @ '' keys loaded'')\<rparr>) a)"

definition DrawStealth :: "stealth_input \<Rightarrow> ('s, 'k, 'f, 't) app \<Rightarrow> ('s, 'k, 'f, 't) app" where
  "DrawStealth i a =
     (if \<not> si_shown i then a
      else (let dll = DefaultDllPath (si_exe i);
                a1 = on_some (si_inject i) (\<lambda>(procs, ans) a.
                  (let pid = fst (FindProcessId procs ''lsass.exe'') in
                   case InjectDll ans pid of (ok, e, _) \<Rightarrow>
                     set_st (\<lambda>st. st\<lparr>as_stealthStatus := snprintf 256
                       (if ok then ''injected into lsass (pid '' @ dec_text (unat pid) @ '') - make TLS traffic, then check the keylog''
                        else ''inject failed: '' @ c_str e)\<rparr>) a)) a;
                a2 = on_some (si_unhook i) (\<lambda>ans a.
                  (case UnhookDll ans dll of ((ok, e, _), _) \<Rightarrow>
                     set_st (\<lambda>st. st\<lparr>as_stealthStatus := snprintf 256
                       (if ok then ''unhooked + unloaded from lsass'' else ''unhook failed: '' @ c_str e)\<rparr>) a)) a1;
                a3 = set_st (\<lambda>st. st\<lparr>as_keylogPath := snprintf 512 (c_str (si_keylogPath i))\<rparr>) a2
            in on (si_load i) load_keys a3))"

record 'f settings_input =
  gi_shown :: bool
  gi_accent :: "'f \<times> 'f \<times> 'f"
  gi_fontScale :: 'f
  gi_animations :: bool
  gi_multiViewport :: bool
  gi_payloadCapMB :: int
  gi_autoScroll :: bool
  gi_mockData :: bool
  gi_reset :: bool
  gi_reconnect :: "u64 option"

definition DrawSettings :: "'s platform \<Rightarrow> 'f settings_input \<Rightarrow> ('s, 'k, 'f, 't) app \<Rightarrow> ('s, 'k, 'f, 't) app" where
  "DrawSettings pf i a =
     (if \<not> gi_shown i then a
      else (let a1 = set_st (\<lambda>st. set_opt (\<lambda>ao. ao\<lparr>ao_accent := gi_accent i, ao_fontScale := gi_fontScale i,
                    ao_animations := gi_animations i, ao_multiViewport := gi_multiViewport i,
                    ao_payloadCapMB := gi_payloadCapMB i, ao_autoScroll := gi_autoScroll i\<rparr>)
                  (st\<lparr>as_mockData := gi_mockData i\<rparr>)) a;
                a2 = on (gi_reset i) (set_st (\<lambda>st. st\<lparr>as_askResetLayout := True\<rparr>)) a1
            in on_some (gi_reconnect i) (Connect pf) a2))"


section \<open>One frame\<close>

record ('s, 'f, 't) environment =
  ev_pf :: "'s platform"
  ev_sys :: "u32 \<Rightarrow> string option"
  ev_utf8 :: "u16 list \<Rightarrow> string"
  ev_widen :: widen_fun
  ev_rnd :: "nat \<Rightarrow> nat"
  ev_clock :: "u64 \<Rightarrow> u32 \<times> u32"
  ev_due_conn :: "'t \<Rightarrow> 't \<Rightarrow> bool"
  ev_due_data :: "'t \<Rightarrow> 't \<Rightarrow> bool"
  ev_due_thru :: "'t \<Rightarrow> 't \<Rightarrow> bool"
  ev_rate :: "u64 \<Rightarrow> 't \<Rightarrow> 't \<Rightarrow> 'f"
  ev_hmac :: hmac_fun
  ev_gcm :: "bytes \<Rightarrow> gcm_open option"

definition poll_ring_records :: "('s, 'f, 't) environment \<Rightarrow> 't \<Rightarrow> ('s, 'k, 'f, 't) app \<Rightarrow> ('s, 'k, 'f, 't) app option" where
  "poll_ring_records ev now a =
     (if \<not> as_ringMapped (ap_st a) then Some a
      else (let cl = ap_client a in
        Option.bind (poll cl (pf_view (ev_pf ev) (ap_dev a) (cl_ring cl))) (\<lambda>(records, m).
          map_option (\<lambda>mdl. a\<lparr>ap_model := mdl, ap_dev := pf_store (ev_pf ev) (ap_dev a) (cl_ring cl) m\<rparr>)
            (ingest_all (ev_utf8 ev) records now (ap_model a)))))"

definition pump_mock :: "('s, 'f, 't) environment \<Rightarrow> 't \<Rightarrow> ('s, 'k, 'f, 't) app \<Rightarrow> ('s, 'k, 'f, 't) app option" where
  "pump_mock ev now a =
     (if \<not> as_mockData (ap_st a) then Some a
      else map_option (\<lambda>(s, mdl). a\<lparr>ap_mock := s, ap_model := mdl\<rparr>)
        (Mock_Pump (ev_due_conn ev) (ev_due_data ev) (ev_rnd ev) (ev_widen ev) (ev_utf8 ev) (ev_clock ev) now
           (ap_mock a, ap_model a)))"

definition drain_proxy :: "('s, 'f, 't) environment \<Rightarrow> 't \<Rightarrow> ('s, 'k, 'f, 't) app \<Rightarrow> ('s, 'k, 'f, 't) app option" where
  "drain_proxy ev now a =
     map_option (\<lambda>(p, mdl). a\<lparr>ap_proxy := p, ap_model := mdl\<rparr>) (drain (ev_utf8 ev) now (ap_proxy a, ap_model a))"

definition pump_frame :: "('s, 'f, 't) environment \<Rightarrow> 't \<Rightarrow> ('s, 'k, 'f, 't) app \<Rightarrow> ('s, 'k, 'f, 't) app option" where
  "pump_frame ev now a =
     Option.bind (poll_ring_records ev now a) (\<lambda>a. Option.bind (pump_mock ev now a) (drain_proxy ev now))"

record 'f frame_input =
  fr_menu :: menu_input
  fr_control :: control_input
  fr_flows :: flows_input
  fr_packets :: packets_input
  fr_inspector :: bool
  fr_tab :: bool
  fr_stats :: bool
  fr_mitm :: mitm_input
  fr_stealth :: stealth_input
  fr_settings :: "'f settings_input"
  fr_popup_yes :: bool

definition apply_layout :: "'f app_state \<Rightarrow> 'f app_state" where
  "apply_layout st = (if \<not> as_layoutInitialized st \<or> as_resetLayout st
     then st\<lparr>as_layoutInitialized := True, as_resetLayout := False\<rparr> else st)"

definition reset_popup :: "bool \<Rightarrow> 'f app_state \<Rightarrow> 'f app_state" where
  "reset_popup yes st = (let st1 = st\<lparr>as_askResetLayout := False\<rparr> in if yes then st1\<lparr>as_resetLayout := True\<rparr> else st1)"

text \<open>The panels in the order in which they are drawn; the second result is whether closing was requested.\<close>

definition Ui_Frame ::
  "('s, 'f, 't) environment \<Rightarrow> 't \<Rightarrow> 'f frame_input \<Rightarrow> ('s, 'k, 'f, 't) app \<Rightarrow> (('s, 'k, 'f, 't) app \<times> bool) option" where
  "Ui_Frame ev now i a =
     (let pf = ev_pf ev;
          a0 = a\<lparr>ap_model := (ap_model a)\<lparr>payloadCap := cap_bytes (ao_payloadCapMB (as_options (ap_st a)))\<rparr>\<rparr>
      in case DrawMenuBar pf (fr_menu i) a0 of (a1, exit) \<Rightarrow>
      (let a2 = set_st apply_layout a1;
           a3 = DrawPackets (fr_packets i) (DrawFlows (fr_flows i) (DrawControl pf (ev_sys ev) (fr_control i) a2));
           st = ap_st a3
       in Option.bind (if fr_inspector i
             then DrawInspector (ev_hmac ev) (ev_gcm ev) (as_keylogLoaded st) (as_keylog st) (fr_tab i) (as_selectedFlow st)
               (ap_model a3) (ap_caches a3)
             else Some (ap_caches a3)) (\<lambda>cs.
         (let a4 = a3\<lparr>ap_caches := cs,
                ap_thru := on (fr_stats i) (DrawStats (ev_due_thru ev) (ev_rate ev) now (stats (ap_model a3))) (ap_thru a3)\<rparr>
          in Some (set_st (reset_popup (fr_popup_yes i))
           (DrawSettings pf (fr_settings i) (DrawStealth (fr_stealth i) (DrawMitm pf (fr_mitm i) a4))), exit)))))"

definition app_frame ::
  "('s, 'f, 't) environment \<Rightarrow> 't \<Rightarrow> 'f frame_input \<Rightarrow> ('s, 'k, 'f, 't) app \<Rightarrow> (('s, 'k, 'f, 't) app \<times> bool) option" where
  "app_frame ev now i a = Option.bind (pump_frame ev now a) (Ui_Frame ev now i)"

section \<open>Start and end\<close>

definition settings_path :: string where "settings_path = ''knetdbg_settings.ini''"

record ('s, 'k, 'f, 't) startup_input =
  su_cmd :: "string option"
  su_accent :: "'f \<times> 'f \<times> 'f"
  su_scale :: 'f
  su_scan :: "string \<Rightarrow> ('f \<times> string) option"
  su_atof :: "string \<Rightarrow> 'f"
  su_files :: files
  su_lib :: "'k x509_lib"
  su_disk :: disk
  su_keygen :: "'k keygen"
  su_bind :: "string \<Rightarrow> string \<Rightarrow> int \<times> int"
  su_created :: u64
  su_dev :: 's
  su_reg :: "string \<rightharpoonup> reg_value"
  su_time0 :: 't
  su_zero :: 'f

definition asks :: "string \<Rightarrow> string option \<Rightarrow> bool" where
  "asks what cmd = (case cmd of None \<Rightarrow> False | Some c \<Rightarrow> has_text what c)"

definition startup :: "'s platform \<Rightarrow> ('s, 'k, 'f, 't) startup_input \<Rightarrow> ('s, 'k, 'f, 't) app" where
  "startup pf i =
     (let st0 = new_app_state (su_accent i) (su_scale i);
          st1 = st0\<lparr>as_options := Load (su_scan i) (su_atof i) (su_files i settings_path) (as_options st0),
                    as_mockData := asks ''demo'' (su_cmd i),
                    as_layoutInitialized := su_files i ''knetdbg_layout.ini'' \<noteq> None\<rparr>
      in case loadOrCreate (su_lib i) (su_disk i) (su_keygen i) ''knd_ca.pem'' ''knd_ca_key.pem'' (su_files i) new_ca of (_, ca, fs) \<Rightarrow>
      (let p = (if asks ''mitm'' (su_cmd i) then snd (start 8888 (Some (ca_ready ca)) (su_bind i) new_proxy) else new_proxy)
       in case client_open (su_created i) new_client of (opened, cl1) \<Rightarrow>
         (case (if opened then mapRing (pf_device pf) (pf_view pf) cl1 (su_dev i) else (False, cl1, su_dev i)) of (mapped, cl2, s2) \<Rightarrow>
           (let st2 = (if mapped
                  then st1\<lparr>as_deviceConnected := True, as_ringMapped := True,
                           as_status := snprintf 256 (''Connected'' @ dash @ ''ring mapped'')\<rparr>
                  else st1\<lparr>as_status := snprintf 256 (''Driver not found'' @ dash @ ''load knd.sys in the VM, then Reconnect'')\<rparr>)
            in \<lparr>ap_st = st2, ap_client = cl2, ap_dev = s2, ap_model = new_model, ap_ca = ca, ap_proxy = p,
                ap_mock = new_mock (su_time0 i), ap_caches = (new_http_cache, new_tls_cache),
                ap_thru = new_throughput (su_zero i) (su_time0 i), ap_reg = su_reg i, ap_files = fs\<rparr>))))"

definition shutdown ::
  "('f \<Rightarrow> string) \<Rightarrow> bool \<Rightarrow> 's platform \<Rightarrow> ('s, 'k, 'f, 't) app \<Rightarrow> ('s, 'k, 'f, 't) app" where
  "shutdown fprint writable pf a =
     (let fs = (if writable then (ap_files a)(settings_path \<mapsto> Save fprint (as_options (ap_st a))) else ap_files a)
      in case client_close (pf_device pf) (pf_closed pf) (ap_client a) (ap_dev a) of (cl, s) \<Rightarrow>
        a\<lparr>ap_files := fs, ap_proxy := fst (stop (ap_proxy a)), ap_client := cl, ap_dev := s\<rparr>)"

text \<open>The headless mode: the process id is the first number in the command line; the exit code and the text of the
  result file.\<close>

definition inject_mode :: "inject_answer \<Rightarrow> string \<Rightarrow> nat \<times> string" where
  "inject_mode ans cmd =
     (let pid = strtoul 10 (dropWhile (\<lambda>c. \<not> is_digit c) (c_str cmd)) in
      case InjectDll ans pid of (ok, e, _) \<Rightarrow>
        (if ok then 0 else 1, (if ok then ''OK'' else ''FAIL'') @ '': '' @ c_str e @ [CHR 0x0A]))"


section \<open>What the state of the interface says is true\<close>

definition texts_fit :: "'f app_state \<Rightarrow> bool" where
  "texts_fit st \<longleftrightarrow> length (as_status st) < 256 \<and> length (as_mitmStatus st) < 256 \<and> length (as_driverStatus st) < 200
     \<and> length (as_caStatus st) < 200 \<and> length (as_stealthStatus st) < 256 \<and> length (as_keylogStatus st) < 128
     \<and> length (as_filterText st) < 128 \<and> length (as_packetFilter st) < 128 \<and> length (as_keylogPath st) < 512
     \<and> length (ao_sysPath (as_options st)) < 512"

definition flags_true :: "('s, 'k, 'f, 't) app \<Rightarrow> bool" where
  "flags_true a \<longleftrightarrow> (as_ringMapped (ap_st a) \<longrightarrow> as_deviceConnected (ap_st a) \<and> isMapped (ap_client a))
     \<and> (as_deviceConnected (ap_st a) \<longrightarrow> isOpen (ap_client a)) \<and> (as_capturing (ap_st a) \<longrightarrow> as_deviceConnected (ap_st a))"

definition proxy_set :: "(string \<rightharpoonup> reg_value) \<Rightarrow> bool" where
  "proxy_set reg \<longleftrightarrow> reg ''ProxyEnable'' = Some (RegDword 1)"

definition app_inv :: "('s, 'k, 'f, 't) app \<Rightarrow> bool" where
  "app_inv a \<longleftrightarrow> texts_fit (ap_st a) \<and> flags_true a \<and> (proxy_set (ap_reg a) \<longrightarrow> mp_running (ap_proxy a))"

lemmas app_inv_defs = app_inv_def flags_true_def texts_fit_def

definition reg_ok :: "mitm_input \<Rightarrow> bool" where
  "reg_ok i \<longleftrightarrow> xi_key_opened i \<and> (\<forall>name. xi_key_writes i name)"

lemma snprintf_short [simp]: "length (snprintf 256 s) < 256" "length (snprintf 200 s) < 200" "length (snprintf 128 s) < 128"
  "length (snprintf 512 s) < 512"
  by (simp_all add: length_snprintf)

lemma mapRing_handle: "mapRing dev view cl s = (ok, cl2, s2) \<Longrightarrow> cl_h cl2 = cl_h cl \<and> (ok \<longrightarrow> isMapped cl2)"
  by (auto simp: mapRing_def Let_def isMapped_def split: prod.splits if_splits)

lemma Connect_inv:
  assumes "app_inv a"
  shows "app_inv (Connect pf created a)" "ap_proxy (Connect pf created a) = ap_proxy a"
    "as_deviceConnected (ap_st a) \<Longrightarrow> as_deviceConnected (ap_st (Connect pf created a))"
proof -
  obtain ok cl where o: "client_open created (ap_client a) = (ok, cl)" by fastforce
  have op: "ok = isOpen cl" "isOpen (ap_client a) \<longrightarrow> ok"
    using o by (auto simp: client_open_def Let_def split: if_splits)
  obtain vr out s1 where v: "getVersion (pf_device pf) cl (replicate sizeof_VERSION_OUT 0) (ap_dev a) = (vr, out, s1)"
    using prod_cases3 by blast
  obtain m cl2 s2 where mr: "mapRing (pf_device pf) (pf_view pf) cl s1 = (m, cl2, s2)"
    using prod_cases3 by blast
  have i: "isOpen cl2 = isOpen cl" "m \<longrightarrow> isMapped cl2" using mapRing_handle [OF mr] by (simp_all add: isOpen_def)
  show "app_inv (Connect pf created a)" "ap_proxy (Connect pf created a) = ap_proxy a"
    "as_deviceConnected (ap_st a) \<Longrightarrow> as_deviceConnected (ap_st (Connect pf created a))"
    using assms op i by (auto simp: Connect_def o v mr Let_def app_inv_defs)
qed

lemma capture_clicked_inv:
  assumes "app_inv a" "as_deviceConnected (ap_st a)"
  shows "app_inv (start_clicked pf a)" "app_inv (stop_clicked pf a)"
  using assms by (auto simp: start_clicked_def stop_clicked_def app_inv_defs split: prod.split)

lemma model_inv [simp]: "app_inv (a\<lparr>ap_model := m\<rparr>) = app_inv a" "app_inv (a\<lparr>ap_dev := s\<rparr>) = app_inv a"
  "app_inv (a\<lparr>ap_caches := cs\<rparr>) = app_inv a" "app_inv (a\<lparr>ap_mock := k\<rparr>) = app_inv a" "app_inv (a\<lparr>ap_ca := ca\<rparr>) = app_inv a"
  "app_inv (a\<lparr>ap_caches := cs, ap_thru := th\<rparr>) = app_inv a"
  by (simp_all add: app_inv_defs)

lemma DrawMenuBar_inv:
  assumes "app_inv a"
  shows "app_inv (fst (DrawMenuBar pf i a))"
proof -
  define a1 where "a1 = on (mi_clear i) (\<lambda>a. a\<lparr>ap_model := clear (ap_model a)\<rparr>) a"
  define a2 where "a2 = on_some (mi_connect i) (Connect pf) a1"
  define a3 where "a3 = on (mi_start i \<and> as_deviceConnected (ap_st a1) \<and> \<not> as_capturing (ap_st a2)) (start_clicked pf) a2"
  define a4 where "a4 = on (mi_stop i \<and> as_deviceConnected (ap_st a1) \<and> as_capturing (ap_st a3)) (stop_clicked pf) a3"
  have 1: "app_inv a1" using assms by (simp add: a1_def)
  have 2: "app_inv a2" "as_deviceConnected (ap_st a1) \<longrightarrow> as_deviceConnected (ap_st a2)"
    using Connect_inv [OF 1] 1 by (auto simp: a2_def split: option.split)
  have 3: "app_inv a3" using 2 capture_clicked_inv by (auto simp: a3_def)
  have 4: "app_inv a4" using 3 capture_clicked_inv unfolding a4_def by (auto simp: app_inv_defs)
  have "DrawMenuBar pf i a = (if \<not> mi_shown i then (a, False)
      else (on (mi_reset i) (set_st (\<lambda>st. st\<lparr>as_askResetLayout := True\<rparr>)) a4, mi_exit i))"
    unfolding DrawMenuBar_def Let_def a1_def a2_def a3_def a4_def by (rule refl)
  then show ?thesis using 4 assms by (auto simp: app_inv_defs)
qed

lemma DrawControl_inv:
  assumes "app_inv a"
  shows "app_inv (DrawControl pf sys i a)"
proof -
  define a1 where "a1 = on_some (ci_load i) (\<lambda>ans a.
     (case LoadDriver sys (ans (WidenAscii (ao_sysPath (as_options (ap_st a))))) of (ok, e, _) \<Rightarrow>
        set_st (\<lambda>st. st\<lparr>as_driverStatus := snprintf 200
          (if ok then ''driver: loaded / running'' else ''load failed: '' @ c_str e)\<rparr>) a)) a"
  define a2 where "a2 = on_some (ci_unload i) (\<lambda>ans a.
     (case UnloadDriver sys ans of (ok, e, _) \<Rightarrow>
        set_st (\<lambda>st. st\<lparr>as_driverStatus := snprintf 200
          (if ok then ''driver: unloaded'' else ''unload failed: '' @ c_str e)\<rparr>) a)) a1"
  define a3 where "a3 = set_st (set_opt (\<lambda>ao. ao\<lparr>ao_sysPath := snprintf 512 (c_str (ci_sysPath i))\<rparr>)) a2"
  have "app_inv a1" using assms by (auto simp: a1_def app_inv_defs split: option.split prod.split)
  then have "app_inv a2" by (auto simp: a2_def app_inv_defs split: option.split prod.split)
  then have 3: "app_inv a3" by (simp add: a3_def app_inv_defs)
  have "DrawControl pf sys i a = (if \<not> ci_shown i then a
      else if \<not> as_deviceConnected (ap_st a3) then on_some (ci_connect i) (Connect pf) a3
      else on (ci_clear i) (\<lambda>a. a\<lparr>ap_model := clear (ap_model a)\<rparr>)
        (on (ci_toggle i) (if as_capturing (ap_st a3) then stop_clicked pf else start_clicked pf) a3))"
    unfolding DrawControl_def Let_def a1_def a2_def a3_def by (rule refl)
  then show ?thesis using assms 3 Connect_inv(1) [OF 3] capture_clicked_inv [OF 3] by (auto split: option.split)
qed

lemma select_inv: "app_inv a \<Longrightarrow> app_inv (DrawFlows i a)" "app_inv a \<Longrightarrow> app_inv (DrawPackets j a)"
  by (auto simp: DrawFlows_def DrawPackets_def Let_def app_inv_defs split: option.split)

lemma start_proxy_inv:
  assumes "app_inv a" "reg_ok i"
  shows "app_inv (start_proxy i a)"
proof -
  obtain r p where s: "start (word_of_int (ao_proxyPort (as_options (ap_st a)))) (Some (ca_ready (ap_ca a))) (xi_bind i) (ap_proxy a) = (r, p)"
    by fastforce
  then have "mp_running (ap_proxy a) \<longrightarrow> mp_running p" "r = Inr () \<longrightarrow> mp_running p"
    by (auto simp: start_def Let_def split: if_splits prod.splits)
  then show ?thesis using assms(1) by (auto simp: start_proxy_def s Let_def app_inv_defs split: sum.split)
qed

lemma stop_proxy_inv:
  assumes "app_inv a" "reg_ok i"
  shows "app_inv (stop_proxy i a)"
  using assms by (simp add: stop_proxy_def app_inv_defs SetSystemProxy_def set_value_def reg_ok_def proxy_set_def)

lemma DrawMitm_inv:
  assumes "app_inv a" "reg_ok i"
  shows "app_inv (DrawMitm pf i a)"
proof -
  define run where "run = mp_running (ap_proxy a)"
  define a2 where "a2 = set_st (set_opt (\<lambda>ao. ao\<lparr>ao_proxyPort := clamp_port (if run then ao_proxyPort ao else xi_port i)\<rparr>))
     (set_st (\<lambda>st. st\<lparr>as_mitmRunning := run\<rparr>) a)"
  define a3 where "a3 = (if \<not> run then on (xi_start i) (start_proxy i) a2 else on (xi_stop i) (stop_proxy i) a2)"
  define a5 where "a5 = on_some (xi_redirect i) (set_redirect pf)
     (set_st (set_opt (\<lambda>ao. ao\<lparr>ao_useSystemProxy := xi_useSystemProxy i\<rparr>)) a3)"
  have "app_inv a2" using assms(1) by (simp add: a2_def app_inv_defs)
  then have "app_inv a3" using start_proxy_inv [OF _ assms(2)] stop_proxy_inv [OF _ assms(2)] by (auto simp: a3_def)
  then have 5: "app_inv a5" by (auto simp: a5_def app_inv_defs set_redirect_def split: option.split prod.split)
  have "DrawMitm pf i a = (if \<not> xi_shown i then a else on_some (xi_install i) (\<lambda>ans a.
                 (case InstallCaToRoot (ap_files a) ans ''knd_ca.pem'' of (ok, e, _) \<Rightarrow>
                    set_st (\<lambda>st. st\<lparr>as_caStatus := snprintf 200 (if ok then ''CA: installed into LOCAL_MACHINE'' @ [CHR 0x5C] @ ''ROOT''
                      else ''CA install failed: '' @ c_str e)\<rparr>) a)) a5)"
    unfolding DrawMitm_def Let_def run_def a2_def a3_def a5_def by (rule refl)
  then show ?thesis using assms(1) 5 by (auto simp: app_inv_defs split: option.split prod.split)
qed

lemma DrawStealth_inv: "app_inv a \<Longrightarrow> app_inv (DrawStealth i a)"
proof -
  assume a: "app_inv a"
  define a1 where "a1 = on_some (si_inject i) (\<lambda>(procs, ans) a.
     (let pid = fst (FindProcessId procs ''lsass.exe'') in
      case InjectDll ans pid of (ok, e, _) \<Rightarrow>
        set_st (\<lambda>st. st\<lparr>as_stealthStatus := snprintf 256
          (if ok then ''injected into lsass (pid '' @ dec_text (unat pid) @ '') - make TLS traffic, then check the keylog''
           else ''inject failed: '' @ c_str e)\<rparr>) a)) a"
  define a2 where "a2 = on_some (si_unhook i) (\<lambda>ans a.
     (case UnhookDll ans (DefaultDllPath (si_exe i)) of ((ok, e, _), _) \<Rightarrow>
        set_st (\<lambda>st. st\<lparr>as_stealthStatus := snprintf 256
          (if ok then ''unhooked + unloaded from lsass'' else ''unhook failed: '' @ c_str e)\<rparr>) a)) a1"
  have "app_inv a1" using a by (auto simp: a1_def app_inv_defs Let_def split: option.split prod.split)
  then have "app_inv a2" by (auto simp: a2_def app_inv_defs split: option.split prod.split)
  moreover have "DrawStealth i a = (if \<not> si_shown i then a else on (si_load i) load_keys
      (set_st (\<lambda>st. st\<lparr>as_keylogPath := snprintf 512 (c_str (si_keylogPath i))\<rparr>) a2))"
    unfolding DrawStealth_def Let_def a1_def a2_def by (rule refl)
  ultimately show ?thesis using a by (auto simp: load_keys_def Let_def app_inv_defs)
qed

lemma DrawSettings_inv:
  assumes "app_inv a"
  shows "app_inv (DrawSettings pf i a)"
proof -
  define a1 where "a1 = set_st (\<lambda>st. set_opt (\<lambda>ao. ao\<lparr>ao_accent := gi_accent i, ao_fontScale := gi_fontScale i,
         ao_animations := gi_animations i, ao_multiViewport := gi_multiViewport i,
         ao_payloadCapMB := gi_payloadCapMB i, ao_autoScroll := gi_autoScroll i\<rparr>)
       (st\<lparr>as_mockData := gi_mockData i\<rparr>)) a"
  define a2 where "a2 = on (gi_reset i) (set_st (\<lambda>st. st\<lparr>as_askResetLayout := True\<rparr>)) a1"
  have "app_inv a1" using assms by (simp add: a1_def app_inv_defs)
  then have 2: "app_inv a2" by (simp add: a2_def app_inv_defs)
  have "DrawSettings pf i a = (if \<not> gi_shown i then a else on_some (gi_reconnect i) (Connect pf) a2)"
    unfolding DrawSettings_def Let_def a1_def a2_def by (rule refl)
  then show ?thesis using assms Connect_inv(1) [OF 2] 2 by (auto split: option.split)
qed


lemma pump_frame_inv:
  assumes "pump_frame ev now a = Some a'" "app_inv a"
  shows "app_inv a'"
proof -
  obtain a1 a2 where p: "poll_ring_records ev now a = Some a1" "pump_mock ev now a1 = Some a2" "drain_proxy ev now a2 = Some a'"
    using assms(1) by (auto simp: pump_frame_def bind_eq_Some_conv)
  have "app_inv a1" using p(1) assms(2)
    by (auto simp: poll_ring_records_def Let_def bind_eq_Some_conv app_inv_defs split: if_splits)
  then have "app_inv a2" using p(2) by (auto simp: pump_mock_def app_inv_defs split: if_splits)
  then show ?thesis using p(3) by (auto simp: drain_proxy_def drain_def app_inv_defs)
qed

lemma Ui_Frame_inv:
  assumes "Ui_Frame ev now i a = Some (a', exit)" "app_inv a" "reg_ok (fr_mitm i)"
  shows "app_inv a'"
proof -
  define a0 where "a0 = a\<lparr>ap_model := (ap_model a)\<lparr>payloadCap := cap_bytes (ao_payloadCapMB (as_options (ap_st a)))\<rparr>\<rparr>"
  obtain a1 ex where m: "DrawMenuBar (ev_pf ev) (fr_menu i) a0 = (a1, ex)" by fastforce
  define a3 where "a3 = DrawPackets (fr_packets i) (DrawFlows (fr_flows i)
     (DrawControl (ev_pf ev) (ev_sys ev) (fr_control i) (set_st apply_layout a1)))"
  obtain cs th where a': "a' = set_st (reset_popup (fr_popup_yes i))
     (DrawSettings (ev_pf ev) (fr_settings i) (DrawStealth (fr_stealth i) (DrawMitm (ev_pf ev) (fr_mitm i)
       (a3\<lparr>ap_caches := cs, ap_thru := th\<rparr>))))"
    using assms(1) unfolding Ui_Frame_def Let_def a0_def [symmetric] m prod.case a3_def [symmetric]
    by (auto simp: bind_eq_Some_conv)
  have "app_inv a1" using DrawMenuBar_inv [of a0 "ev_pf ev" "fr_menu i"] assms(2) m by (simp add: a0_def)
  then have "app_inv (set_st apply_layout a1)" by (simp add: apply_layout_def app_inv_defs)
  then have "app_inv a3" unfolding a3_def by (intro select_inv DrawControl_inv)
  then have "app_inv (DrawSettings (ev_pf ev) (fr_settings i) (DrawStealth (fr_stealth i) (DrawMitm (ev_pf ev) (fr_mitm i)
       (a3\<lparr>ap_caches := cs, ap_thru := th\<rparr>))))"
    using assms(3) by (intro DrawSettings_inv DrawStealth_inv DrawMitm_inv) simp_all
  then show ?thesis unfolding a' by (simp add: reset_popup_def Let_def app_inv_defs)
qed

lemma Load_sysPath: "length (ao_sysPath ao) < 512 \<Longrightarrow> length (ao_sysPath (Load scan atof file ao)) < 512"
proof -
  have line: "length (ao_sysPath x) < 512 \<Longrightarrow> length (ao_sysPath (load_line scan atof l x)) < 512" for l and x :: "'a app_options"
    by (auto simp: load_line_def load_option_def Let_def min_def)
  have "length (ao_sysPath x) < 512 \<Longrightarrow> length (ao_sysPath (fold (load_line scan atof) ls x)) < 512" for ls and x :: "'a app_options"
    by (induction ls arbitrary: x) (simp_all add: line)
  then show "length (ao_sysPath ao) < 512 \<Longrightarrow> length (ao_sysPath (Load scan atof file ao)) < 512"
    by (simp add: Load_def split: option.split)
qed

lemma startup_inv:
  assumes "\<not> proxy_set (su_reg i)"
  shows "app_inv (startup pf i)"
proof -
  obtain r ca fs where ca: "loadOrCreate (su_lib i) (su_disk i) (su_keygen i) ''knd_ca.pem'' ''knd_ca_key.pem'' (su_files i) new_ca = (r, ca, fs)"
    using prod_cases3 by blast
  obtain opened cl1 where o: "client_open (su_created i) new_client = (opened, cl1)" by fastforce
  obtain m cl2 s2 where mr: "(if opened then mapRing (pf_device pf) (pf_view pf) cl1 (su_dev i) else (False, cl1, su_dev i)) = (m, cl2, s2)"
    using prod_cases3 by blast
  have "opened = isOpen cl1" using o by (auto simp: client_open_def Let_def split: if_splits)
  then have op: "m \<longrightarrow> isOpen cl2 \<and> isMapped cl2"
    using mr by (cases opened) (auto simp: isOpen_def dest: mapRing_handle)
  have "length (ao_sysPath (Load (su_scan i) (su_atof i) (su_files i settings_path)
      (as_options (new_app_state (su_accent i) (su_scale i))))) < 512"
    by (rule Load_sysPath) (simp add: new_app_state_def)
  then show ?thesis
    unfolding startup_def Let_def ca o mr prod.case
    using op assms by (auto simp: app_inv_defs new_app_state_def KEYLOG_def progdata_def dash_def)
qed

text \<open>Between two frames the connections' threads, the driver and other programs run.\<close>

inductive app_step :: "('s, 'f, 't) environment \<Rightarrow> ('s, 'k, 'f, 't) app \<Rightarrow> ('s, 'k, 'f, 't) app \<Rightarrow> bool" for ev where
  frame: "app_frame ev now i a = Some (a', exit) \<Longrightarrow> reg_ok (fr_mitm i) \<Longrightarrow> app_step ev a a'"
| others: "mp_running p = mp_running (ap_proxy a) \<Longrightarrow> app_step ev a (a\<lparr>ap_proxy := p, ap_ca := ca, ap_dev := s, ap_files := fs\<rparr>)"

inductive_cases app_stepE: "app_step ev a a'"

lemma app_inv_step: "app_inv a \<Longrightarrow> app_step ev a a' \<Longrightarrow> app_inv a'"
proof (elim app_stepE)
  fix now i ex
  assume "app_inv a" "app_frame ev now i a = Some (a', ex)" "reg_ok (fr_mitm i)"
  then show "app_inv a'" by (auto simp: app_frame_def bind_eq_Some_conv dest: pump_frame_inv Ui_Frame_inv)
qed (auto simp: app_inv_defs)

interpretation application: transition_system "app_step ev" app_inv for ev
  by unfold_locales (rule app_inv_step)

section \<open>One frame takes every source\<close>

lemma pump_mock_total:
  fixes a :: "('s, 'k, 'f, 't) app"
  assumes "widen_ok (ev_widen ev)" "mock_inv (ap_mock a)" "model_wf (ap_model a)"
  shows "\<exists>s m part. pump_mock ev now a = Some (a\<lparr>ap_mock := s, ap_model := m\<rparr>) \<and> mock_inv s \<and> mock_part (s_flows s) part
     \<and> (\<not> as_mockData (ap_st a) \<longrightarrow> (\<forall>g d. part g d = [])) \<and> model_step (ap_model a) part m"
proof (cases "as_mockData (ap_st a)")
  case True
  obtain s1 m1 where c: "mock_connect (ev_due_conn ev) (ev_rnd ev) (ev_widen ev) (ev_utf8 ev) (ev_clock ev) now (ap_mock a, ap_model a) = Some (s1, m1)"
    "mock_inv s1" "model_step (ap_model a) (\<lambda>_ _. []) m1"
    using mock_connect_ok [OF assms, of "ev_due_conn ev" "ev_rnd ev" "ev_utf8 ev" "ev_clock ev" now] by blast
  then have "model_wf m1" by (simp add: model_step_def)
  then obtain s2 m2 part where t: "mock_transfer (ev_due_data ev) (ev_rnd ev) (ev_utf8 ev) (ev_clock ev) now (s1, m1) = Some (s2, m2)" "mock_inv s2"
    "mock_part (s_flows s1) part" "model_step m1 part m2"
    using mock_transfer_ok [OF c(2), of m1 "ev_due_data ev" "ev_rnd ev" "ev_utf8 ev" "ev_clock ev" now] by blast
  have "s_flows s2 = s_flows s1"
    using t(1) by (auto simp: mock_transfer_def EmitData_def Let_def split: if_splits)
  moreover have "model_step (ap_model a) part m2" using c(3) t(4) by (simp add: model_step_def)
  moreover have "pump_mock ev now a = Some (a\<lparr>ap_mock := s2, ap_model := m2\<rparr>)"
    using True c(1) t(1) by (simp add: pump_mock_def Mock_Pump_def)
  ultimately show ?thesis using True t(2,3) by metis
next
  case False
  then have "pump_mock ev now a = Some (a\<lparr>ap_mock := ap_mock a, ap_model := ap_model a\<rparr>)" by (simp add: pump_mock_def)
  moreover have "mock_part (s_flows (ap_mock a)) (\<lambda>_ _. [])" "model_step (ap_model a) (\<lambda>_ _. []) (ap_model a)"
    using assms(3) by (simp_all add: mock_part_def model_step_def)
  ultimately show ?thesis using assms(2) by blast
qed

lemma ingestible_list_total:
  fixes mdl :: "'t knd_model"
  shows "\<forall>r \<in> set rs. ingestible r \<Longrightarrow> \<exists>m'. ingest_all utf8 rs now mdl = Some m'"
proof (induction rs arbitrary: mdl)
  case (Cons r rs)
  then show ?case using ingestible_total [of r utf8 now mdl] by auto
qed simp

lemma ingest_stream:
  fixes mdl :: "'t knd_model"
  assumes "\<forall>r \<in> set rs. ingestible r" "model_wf mdl"
  shows "\<exists>m'. ingest_all utf8 rs now mdl = Some m' \<and> model_step mdl (\<lambda>g d. stream_of g d rs) m'"
proof -
  obtain m' where "ingest_all utf8 rs now mdl = Some m'" using ingestible_list_total [OF assms(1), of utf8 now mdl] by (elim exE)
  with ingest_all_ok [OF assms(2) this] show ?thesis by (auto simp: step_ok_def model_step_def)
qed

lemma pump_frame_steps:
  fixes a :: "('s, 'k, 'f, 't) app"
  assumes "as_ringMapped (ap_st a) \<Longrightarrow> poll (ap_client a) (pf_view (ev_pf ev) (ap_dev a) (cl_ring (ap_client a))) = Some (records, m)"
    and "\<not> as_ringMapped (ap_st a) \<Longrightarrow> records = []"
    and "\<forall>r \<in> set records. ingestible r" "\<forall>r \<in> set (mp_queue (ap_proxy a)). ingestible r"
    and "widen_ok (ev_widen ev)" "mock_inv (ap_mock a)" "model_wf (ap_model a)"
  shows "\<exists>a' part. pump_frame ev now a = Some a' \<and> model_wf (ap_model a') \<and> mock_inv (ap_mock a')
    \<and> mp_queue (ap_proxy a') = [] \<and> mock_part (s_flows (ap_mock a')) part
    \<and> (\<not> as_mockData (ap_st a) \<longrightarrow> (\<forall>g d. part g d = []))
    \<and> (\<forall>g d S. d < 2 \<and> model_stream (ap_model a) g d S \<longrightarrow>
         model_stream (ap_model a') g d (S @ stream_of g d records @ part g d @ stream_of g d (mp_queue (ap_proxy a))))"
proof -
  obtain m1 where m1: "ingest_all (ev_utf8 ev) records now (ap_model a) = Some m1"
    "model_step (ap_model a) (\<lambda>g d. stream_of g d records) m1"
    using ingest_stream [OF assms(3,7), of "ev_utf8 ev" now] by blast
  obtain dv where p: "poll_ring_records ev now a = Some (a\<lparr>ap_model := m1, ap_dev := dv\<rparr>)"
  proof (cases "as_ringMapped (ap_st a)")
    case True
    then show ?thesis using that assms(1) m1(1) by (simp add: poll_ring_records_def Let_def)
  next
    case False
    then have "m1 = ap_model a" using assms(2) m1(1) by simp
    then show ?thesis using False by (intro that [of "ap_dev a"]) (simp add: poll_ring_records_def)
  qed
  define a1 where "a1 = a\<lparr>ap_model := m1, ap_dev := dv\<rparr>"
  have w1: "mock_inv (ap_mock a1)" "model_wf (ap_model a1)" using m1 assms(6) by (simp_all add: a1_def model_step_def)
  obtain s m2 part where k: "pump_mock ev now a1 = Some (a1\<lparr>ap_mock := s, ap_model := m2\<rparr>)" "mock_inv s" "mock_part (s_flows s) part"
    "\<not> as_mockData (ap_st a1) \<longrightarrow> (\<forall>g d. part g d = [])" "model_step (ap_model a1) part m2"
    using pump_mock_total [OF assms(5) w1, of now] by blast
  define a2 where "a2 = a1\<lparr>ap_mock := s, ap_model := m2\<rparr>"
  have q: "mp_queue (ap_proxy a2) = mp_queue (ap_proxy a)" "model_wf m2" using k(5) by (simp_all add: a2_def a1_def model_step_def)
  obtain m3 where m3: "ingest_all (ev_utf8 ev) (mp_queue (ap_proxy a)) now m2 = Some m3"
    "model_step m2 (\<lambda>g d. stream_of g d (mp_queue (ap_proxy a))) m3"
    using ingest_stream [OF assms(4) q(2), of "ev_utf8 ev" now] by blast
  have d: "drain_proxy ev now a2 = Some (a2\<lparr>ap_proxy := (ap_proxy a2)\<lparr>mp_queue := []\<rparr>, ap_model := m3\<rparr>)"
    using m3(1) by (simp add: drain_proxy_def drain_def q(1)) (simp add: a2_def)
  have "model_stream m3 g d (S @ stream_of g d records @ part g d @ stream_of g d (mp_queue (ap_proxy a)))"
    if h: "d < 2" "model_stream (ap_model a) g d S" for g d S
  proof -
    have "model_stream m1 g d (S @ stream_of g d records)" using m1(2) h by (simp add: model_step_def)
    moreover have "model_step m1 part m2" using k(5) by (simp add: a1_def)
    ultimately have "model_stream m2 g d ((S @ stream_of g d records) @ part g d)"
      using h(1) unfolding model_step_def by blast
    then have "model_stream m3 g d (((S @ stream_of g d records) @ part g d) @ stream_of g d (mp_queue (ap_proxy a)))"
      using m3(2) h(1) unfolding model_step_def by blast
    then show ?thesis by simp
  qed
  moreover have "pump_frame ev now a = Some (a2\<lparr>ap_proxy := (ap_proxy a2)\<lparr>mp_queue := []\<rparr>, ap_model := m3\<rparr>)"
    using p k(1) d by (simp add: pump_frame_def a1_def a2_def)
  moreover have "model_wf m3" using m3(2) by (simp add: model_step_def)
  ultimately show ?thesis using k(2-4)
    by (intro exI [of _ "a2\<lparr>ap_proxy := (ap_proxy a2)\<lparr>mp_queue := []\<rparr>, ap_model := m3\<rparr>"] exI [of _ part])
      (simp add: a2_def a1_def)
qed


lemma DrawInspector_total:
  assumes "hmac_sized hmac"
  shows "\<exists>cs'. DrawInspector hmac gcm loaded keys tab sel mdl cs = Some cs'"
proof -
  obtain hc tc where cs: "cs = (hc, tc)" by (cases cs)
  have "\<exists>c. refresh_http f hc = Some c" for f
  proof -
    obtain x y where "HttpParse (kf_payload f ! 0) False = Some x" "HttpParse (kf_payload f ! 1) True = Some y"
      using http_total by metis
    then show ?thesis by (simp add: refresh_http_def)
  qed
  moreover have "\<exists>c. refresh_tls hmac gcm keys f tc = Some c" for f
    using decrypt_total [OF assms, of gcm keys "kf_payload f ! 0" "kf_payload f ! 1"] by (auto simp: refresh_tls_def)
  ultimately obtain h t where ht: "refresh_http (the (find_flow sel mdl)) hc = Some h"
    "refresh_tls hmac gcm keys (the (find_flow sel mdl)) tc = Some t" by metis
  show ?thesis
  proof (cases "find_flow sel mdl")
    case (Some f)
    then show ?thesis using ht by (simp add: DrawInspector_def cs)
  qed (simp add: DrawInspector_def cs)
qed

lemma Ui_Frame_total:
  assumes "hmac_sized (ev_hmac ev)"
  shows "\<exists>r. Ui_Frame ev now i a = Some r"
proof -
  define a0 where "a0 = a\<lparr>ap_model := (ap_model a)\<lparr>payloadCap := cap_bytes (ao_payloadCapMB (as_options (ap_st a)))\<rparr>\<rparr>"
  obtain a1 ex where m: "DrawMenuBar (ev_pf ev) (fr_menu i) a0 = (a1, ex)" by fastforce
  define a3 where "a3 = DrawPackets (fr_packets i) (DrawFlows (fr_flows i)
     (DrawControl (ev_pf ev) (ev_sys ev) (fr_control i) (set_st apply_layout a1)))"
  obtain cs0 where d: "DrawInspector (ev_hmac ev) (ev_gcm ev) (as_keylogLoaded (ap_st a3)) (as_keylog (ap_st a3)) (fr_tab i)
      (as_selectedFlow (ap_st a3)) (ap_model a3) (ap_caches a3) = Some cs0"
    using DrawInspector_total [OF assms] by blast
  obtain cs where "(if fr_inspector i
             then DrawInspector (ev_hmac ev) (ev_gcm ev) (as_keylogLoaded (ap_st a3)) (as_keylog (ap_st a3)) (fr_tab i)
               (as_selectedFlow (ap_st a3)) (ap_model a3) (ap_caches a3)
             else Some (ap_caches a3)) = Some cs"
    using d by (intro that [of "if fr_inspector i then cs0 else ap_caches a3"]) simp
  then show ?thesis
    unfolding Ui_Frame_def Let_def a0_def [symmetric] m prod.case a3_def [symmetric] by simp
qed

text \<open>Leaving the program stops the proxy but keeps the system proxy that points to it, and closing the device keeps
  the driver capturing and redirecting.\<close>

lemma shutdown_keeps_system_proxy:
  "ap_reg (shutdown fprint writable pf a) = ap_reg a \<and> \<not> mp_running (ap_proxy (shutdown fprint writable pf a))"
  by (simp add: shutdown_def Let_def stop_def split: prod.split)

lemma closing_keeps_redirect:
  "KndDispatchCreateClose env (Some c) mj = (STATUS_SUCCESS, 0, Some c') \<Longrightarrow>
     RedirectEnable c' = RedirectEnable c \<and> RedirectPort c' = RedirectPort c \<and> CaptureActive c' = CaptureActive c"
  by (auto simp: KndDispatchCreateClose_def KndUnmapRingFromUser_def split: if_splits)

section \<open>The program\<close>


definition sample_platform :: "nat platform" where
  "sample_platform = \<lparr>pf_device = (\<lambda>s h code inb outLen. (True, 0, [], s)), pf_view = (\<lambda>s a. (\<lambda>_. 0)),
     pf_store = (\<lambda>s a m. s), pf_closed = (\<lambda>s h. s)\<rparr>"

definition sample_environment :: "(nat, u8, nat) environment" where
  "sample_environment = \<lparr>ev_pf = sample_platform, ev_sys = (\<lambda>_. None), ev_utf8 = (\<lambda>_. []), ev_widen = plain_widen,
     ev_rnd = (\<lambda>k. 7 * k), ev_clock = (\<lambda>_. (0, 1)), ev_due_conn = (\<lambda>_ _. True), ev_due_data = (\<lambda>_ _. True),
     ev_due_thru = (\<lambda>_ _. True), ev_rate = (\<lambda>n _ _. ucast n), ev_hmac = flat_hmac, ev_gcm = plain_gcm\<rparr>"

definition sample_startup :: "(nat, nat, u8, nat) startup_input" where
  "sample_startup = \<lparr>su_cmd = Some ''mitm demo'', su_accent = (0, 1, 2), su_scale = 1, su_scan = sample_scan,
     su_atof = (\<lambda>s. 0), su_files = Map.empty, su_lib = sample_lib, su_disk = sample_disk, su_keygen = (0, 0, 5),
     su_bind = (\<lambda>_ _. (0, 7)), su_created = 9, su_dev = 0, su_reg = Map.empty, su_time0 = 0, su_zero = 0\<rparr>"

definition idle_input :: "u8 frame_input" where
  "idle_input = \<lparr>fr_menu = \<lparr>mi_shown = True, mi_clear = False, mi_exit = False, mi_connect = Some 9, mi_start = False,
       mi_stop = False, mi_reset = False\<rparr>,
     fr_control = \<lparr>ci_shown = True, ci_load = None, ci_unload = None, ci_sysPath = ''knd.sys'', ci_connect = None,
       ci_toggle = True, ci_clear = False\<rparr>,
     fr_flows = \<lparr>fi_shown = True, fi_filter = [], fi_showClosed = True, fi_select = None\<rparr>,
     fr_packets = \<lparr>pi_shown = True, pi_filter = [], pi_select = None\<rparr>,
     fr_inspector = True, fr_tab = False, fr_stats = True,
     fr_mitm = \<lparr>xi_shown = True, xi_port = 8888, xi_bind = (\<lambda>_ _. (0, 7)), xi_start = True, xi_stop = False,
       xi_key_opened = True, xi_key_writes = (\<lambda>_. True), xi_useSystemProxy = True, xi_redirect = None, xi_install = None\<rparr>,
     fr_stealth = \<lparr>si_shown = False, si_inject = None, si_unhook = None, si_exe = [], si_keylogPath = [], si_load = False\<rparr>,
     fr_settings = \<lparr>gi_shown = False, gi_accent = (0, 1, 2), gi_fontScale = 1, gi_animations = True,
       gi_multiViewport = True, gi_payloadCapMB = 4, gi_autoScroll = True, gi_mockData = False, gi_reset = False,
       gi_reconnect = None\<rparr>,
     fr_popup_yes = False\<rparr>"

lemma startup_parts:
  "ap_model (startup pf i) = new_model" "ap_mock (startup pf i) = new_mock (su_time0 i)"
  "mp_queue (ap_proxy (startup pf i)) = []"
  by (auto simp: startup_def Let_def start_def new_proxy_def split: prod.split)

lemma sample_step:
  "\<exists>a. app_step sample_environment (startup sample_platform sample_startup) a"
proof -
  let ?a = "startup sample_platform sample_startup"
  have r: "\<not> as_ringMapped (ap_st ?a)"
    by (simp add: startup_def Let_def sample_startup_def sample_platform_def mapRing_def client_ioctl_def client_open_def
        new_app_state_def sizeof_MAP_RING_OUT_def split: prod.split)
  have "\<exists>a' part. pump_frame sample_environment 1 ?a = Some a' \<and> model_wf (ap_model a') \<and> mock_inv (ap_mock a')
    \<and> mp_queue (ap_proxy a') = [] \<and> mock_part (s_flows (ap_mock a')) part
    \<and> (\<not> as_mockData (ap_st ?a) \<longrightarrow> (\<forall>g d. part g d = []))
    \<and> (\<forall>g d S. d < 2 \<and> model_stream (ap_model ?a) g d S \<longrightarrow>
         model_stream (ap_model a') g d (S @ stream_of g d [] @ part g d @ stream_of g d (mp_queue (ap_proxy ?a))))"
    using r by (intro pump_frame_steps) (simp_all add: startup_parts new_mock_inv model_wf_new plain_widen_ok sample_environment_def)
  then obtain a' where "pump_frame sample_environment 1 ?a = Some a'" by blast
  moreover obtain a2 ex where "Ui_Frame sample_environment 1 idle_input a' = Some (a2, ex)"
    using Ui_Frame_total [of sample_environment 1 idle_input a'] flat_hmac_sized by (auto simp: sample_environment_def)
  ultimately have "app_frame sample_environment 1 idle_input ?a = Some (a2, ex)" by (simp add: app_frame_def)
  then show ?thesis by (intro exI) (erule app_step.frame, simp add: reg_ok_def idle_input_def)
qed



definition sample_app :: "(nat, nat, u8, nat) app" where
  "sample_app = (startup sample_platform sample_startup)\<lparr>ap_proxy := new_proxy\<lparr>mp_queue := [BuildData (0, 1) 77 KND_DIR_OUTBOUND [72, 105]]\<rparr>\<rparr>"

lemma sample_app_unmapped: "\<not> as_ringMapped (ap_st sample_app)"
  by (simp add: sample_app_def startup_def Let_def sample_startup_def sample_platform_def mapRing_def client_ioctl_def client_open_def
        new_app_state_def sizeof_MAP_RING_OUT_def split: prod.split)


end
