(* ===== verification/Knd_Window.thy ===== *)
theory Knd_Window
  imports Knd_App "HOL-Library.Multiset"
begin

text \<open>
  The window, the graphics objects and the whole program (\<^verbatim>\<open>src/app/src/main.cpp\<close>): creation and release of the
  device, its swap chain and render target, the window procedure, the message loop around the
  frames of \<open>Knd_App\<close>, and \<^verbatim>\<open>wWinMain\<close> from the command line to the exit code. The messages,
  the pointers that the graphics library hands out and what other threads did between two frames
  are arguments. References are counted by a trace of acquisitions and releases.
\<close>

section \<open>References\<close>

datatype res_kind = Device | Context | Swap_Chain | Render_View | Back_Buffer | Window | Window_Class

datatype ref_event = Created res_kind u64 | Dropped res_kind u64

text \<open>The references held after a trace; \<open>None\<close> when one is dropped that is not held.\<close>

fun run_refs :: "ref_event list \<Rightarrow> (res_kind \<times> u64) multiset \<Rightarrow> (res_kind \<times> u64) multiset option" where
  "run_refs [] held = Some held"
| "run_refs (Created k p # tr) held = run_refs tr (add_mset (k, p) held)"
| "run_refs (Dropped k p # tr) held = (if (k, p) \<in># held then run_refs tr (held - {#(k, p)#}) else None)"

definition got :: "res_kind \<Rightarrow> u64 \<Rightarrow> ref_event list" where
  "got k p = (if p = 0 then [] else [Created k p])"

definition dropped :: "res_kind \<Rightarrow> u64 \<Rightarrow> ref_event list" where
  "dropped k p = (if p = 0 then [] else [Dropped k p])"

section \<open>Graphics objects\<close>

text \<open>The globals of \<^verbatim>\<open>main.cpp\<close>, a null pointer as 0; \<open>wn_window\<close> and \<open>wn_class\<close> are the window and its class while
  they exist, \<open>wn_quit\<close> whether the quit message was posted, \<open>wn_size\<close> the size of the swap chain's buffers.\<close>

record win =
  g_pd3dDevice :: u64
  g_pd3dDeviceContext :: u64
  g_pSwapChain :: u64
  g_mainRTV :: u64
  g_ResizeW :: u32
  g_ResizeH :: u32
  wn_window :: u64
  wn_class :: u64
  wn_quit :: bool
  wn_size :: "u32 \<times> u32"
  wn_trace :: "ref_event list"

definition new_win :: win where
  "new_win = \<lparr>g_pd3dDevice = 0, g_pd3dDeviceContext = 0, g_pSwapChain = 0, g_mainRTV = 0, g_ResizeW = 0, g_ResizeH = 0,
     wn_window = 0, wn_class = 0, wn_quit = False, wn_size = (0, 0), wn_trace = []\<rparr>"

definition log_refs :: "ref_event list \<Rightarrow> win \<Rightarrow> win" where
  "log_refs tr w = w\<lparr>wn_trace := wn_trace w @ tr\<rparr>"

text \<open>The two pointers are the back buffer and the view that the library returns.\<close>

definition CreateRenderTarget :: "u64 \<times> u64 \<Rightarrow> win \<Rightarrow> win" where
  "CreateRenderTarget ans w = (case ans of (back, view) \<Rightarrow>
     if back \<noteq> 0
     then log_refs (got Back_Buffer back @ got Render_View view @ dropped Back_Buffer back) (w\<lparr>g_mainRTV := view\<rparr>)
     else w)"

definition CleanupRenderTarget :: "win \<Rightarrow> win" where
  "CleanupRenderTarget w = (if g_mainRTV w \<noteq> 0 then log_refs [Dropped Render_View (g_mainRTV w)] (w\<lparr>g_mainRTV := 0\<rparr>) else w)"

text \<open>The answers of the hardware driver and of the software rasterizer: swap chain, device and context, or failure.\<close>

record device_answer =
  da_hardware :: "(u64 \<times> u64 \<times> u64) option"
  da_warp :: "(u64 \<times> u64 \<times> u64) option"
  da_target :: "u64 \<times> u64"

definition CreateDeviceD3D :: "device_answer \<Rightarrow> win \<Rightarrow> bool \<times> win" where
  "CreateDeviceD3D a w =
     (let hr = (case da_hardware a of None \<Rightarrow> da_warp a | Some objs \<Rightarrow> Some objs) in
      case hr of
        None \<Rightarrow> (False, w)
      | Some (swap, dev, ctx) \<Rightarrow>
          (True, CreateRenderTarget (da_target a)
            (log_refs (got Swap_Chain swap @ got Device dev @ got Context ctx)
              (w\<lparr>g_pSwapChain := swap, g_pd3dDevice := dev, g_pd3dDeviceContext := ctx\<rparr>))))"

definition CleanupDeviceD3D :: "win \<Rightarrow> win" where
  "CleanupDeviceD3D w =
     (let w1 = CleanupRenderTarget w;
          w2 = (if g_pSwapChain w1 \<noteq> 0 then log_refs [Dropped Swap_Chain (g_pSwapChain w1)] (w1\<lparr>g_pSwapChain := 0\<rparr>) else w1);
          w3 = (if g_pd3dDeviceContext w2 \<noteq> 0
                then log_refs [Dropped Context (g_pd3dDeviceContext w2)] (w2\<lparr>g_pd3dDeviceContext := 0\<rparr>) else w2)
      in if g_pd3dDevice w3 \<noteq> 0 then log_refs [Dropped Device (g_pd3dDevice w3)] (w3\<lparr>g_pd3dDevice := 0\<rparr>) else w3)"

section \<open>Messages\<close>

definition WM_DESTROY :: u32 where "WM_DESTROY = 0x0002"
definition WM_SIZE :: u32 where "WM_SIZE = 0x0005"
definition WM_QUIT :: u32 where "WM_QUIT = 0x0012"
definition WM_SYSCOMMAND :: u32 where "WM_SYSCOMMAND = 0x0112"
definition SIZE_MINIMIZED :: u64 where "SIZE_MINIMIZED = 1"
definition SC_KEYMENU :: u64 where "SC_KEYMENU = 0xF100"

lemmas message_defs = WM_DESTROY_def WM_SIZE_def WM_QUIT_def WM_SYSCOMMAND_def

text \<open>A message with what the drawing library's handler and the default procedure answer to it.\<close>

record win_msg =
  wm_msg :: u32
  wm_wParam :: u64
  wm_lParam :: u64
  wm_handled :: bool
  wm_default :: int

definition WndProc :: "win_msg \<Rightarrow> win \<Rightarrow> int \<times> win" where
  "WndProc x w =
     (if wm_handled x then (1, w)
      else if wm_msg x = WM_SIZE
      then (0, if wm_wParam x \<noteq> SIZE_MINIMIZED
               then w\<lparr>g_ResizeW := ucast (wm_lParam x AND 0xffff), g_ResizeH := ucast (drop_bit 16 (wm_lParam x) AND 0xffff)\<rparr>
               else w)
      else if wm_msg x = WM_SYSCOMMAND \<and> wm_wParam x AND 0xfff0 = SC_KEYMENU then (0, w)
      else if wm_msg x = WM_DESTROY then (0, w\<lparr>wn_quit := True\<rparr>)
      else (wm_default x, w))"

text \<open>A message reaches the procedure while the window exists; with \<open>WM_DESTROY\<close> the window goes.\<close>

definition deliver :: "win_msg \<Rightarrow> win \<Rightarrow> win" where
  "deliver x w =
     (if wn_window w = 0 then w
      else (let w1 = snd (WndProc x w) in
        if wm_msg x = WM_DESTROY then log_refs [Dropped Window (wn_window w1)] (w1\<lparr>wn_window := 0\<rparr>) else w1))"

text \<open>What the queue of the thread yields before a frame: messages sent to the window directly, and posted ones, which the
  loop takes out and dispatches. Messages that the procedure gets before the loop or during a frame stand in front
  of those of the next turn: only the turn reads what they change. A posted quit is yielded when nothing else is left. The
  first result is \<open>done\<close>.\<close>

datatype win_event = Sent win_msg | Posted win_msg

fun drain_messages :: "win_event list \<Rightarrow> bool \<Rightarrow> win \<Rightarrow> bool \<times> win" where
  "drain_messages [] done w = (done \<or> wn_quit w, w\<lparr>wn_quit := False\<rparr>)"
| "drain_messages (Sent x # es) done w = drain_messages es done (deliver x w)"
| "drain_messages (Posted x # es) done w =
     (if wm_msg x = WM_QUIT then drain_messages es True w else drain_messages es done (deliver x w))"

definition apply_resize :: "u64 \<times> u64 \<Rightarrow> win \<Rightarrow> win" where
  "apply_resize target w =
     (if g_ResizeW w \<noteq> 0 \<and> g_ResizeH w \<noteq> 0
      then CreateRenderTarget target
        ((CleanupRenderTarget w)\<lparr>wn_size := (g_ResizeW w, g_ResizeH w), g_ResizeW := 0, g_ResizeH := 0\<rparr>)
      else w)"

section \<open>The program\<close>

text \<open>One turn of the loop: the messages, the render target for a resize, what other threads and the driver did, the
  time and the user's input of the frame, and whether the platform asks for closing.\<close>

record ('s, 'k, 'f, 't) turn =
  tn_events :: "win_event list"
  tn_target :: "u64 \<times> u64"
  tn_threads :: "mitm_proxy \<Rightarrow> mitm_proxy"
  tn_ca :: "'k mitm_ca \<Rightarrow> 'k mitm_ca"
  tn_driver :: "'s \<Rightarrow> 's"
  tn_now :: 't
  tn_frame :: "'f frame_input"
  tn_close :: bool

definition others_ran :: "('s, 'k, 'f, 't) turn \<Rightarrow> ('s, 'k, 'f, 't) app \<Rightarrow> ('s, 'k, 'f, 't) app" where
  "others_ran t a = a\<lparr>ap_proxy := tn_threads t (ap_proxy a), ap_ca := tn_ca t (ap_ca a), ap_dev := tn_driver t (ap_dev a)\<rparr>"

text \<open>The first result is whether the loop came to its end, \<open>False\<close> when the turns are used up before.\<close>

fun main_loop ::
  "('s, 'f, 't) environment \<Rightarrow> ('s, 'k, 'f, 't) turn list \<Rightarrow> win \<Rightarrow> ('s, 'k, 'f, 't) app
     \<Rightarrow> (bool \<times> win \<times> ('s, 'k, 'f, 't) app) option" where
  "main_loop ev [] w a = Some (False, w, a)"
| "main_loop ev (t # ts) w a =
     (case drain_messages (tn_events t) False w of (done, w1) \<Rightarrow>
      if done then Some (True, w1, others_ran t a)
      else (let w2 = apply_resize (tn_target t) w1 in
        case app_frame ev (tn_now t) (tn_frame t) (others_ran t a) of
          None \<Rightarrow> None
        | Some (a2, exit) \<Rightarrow>
            if exit \<or> tn_close t then Some (True, w2, a2) else main_loop ev ts w2 a2))"

datatype ('s, 'k, 'f, 't) outcome =
  Injected nat string | No_Device win | Ended win "('s, 'k, 'f, 't) app" | Running win "('s, 'k, 'f, 't) app"

text \<open>\<open>class\<close> and \<open>hwnd\<close> are what registration and creation of the window return, \<open>last\<close> is the message that destroying it sends.\<close>

definition open_window :: "u64 \<Rightarrow> u64 \<Rightarrow> win \<Rightarrow> win" where
  "open_window cls hwnd w = log_refs (got Window_Class cls @ got Window hwnd) (w\<lparr>wn_class := cls, wn_window := hwnd\<rparr>)"

text \<open>A class that still has a window cannot be unregistered.\<close>

definition UnregisterClass :: "win \<Rightarrow> win" where
  "UnregisterClass w = (if wn_class w \<noteq> 0 \<and> wn_window w = 0
     then log_refs [Dropped Window_Class (wn_class w)] (w\<lparr>wn_class := 0\<rparr>) else w)"

definition destroy_msg :: "bool \<Rightarrow> win_msg" where
  "destroy_msg handled = \<lparr>wm_msg = WM_DESTROY, wm_wParam = 0, wm_lParam = 0, wm_handled = handled, wm_default = 0\<rparr>"

definition wWinMain ::
  "('s, 'f, 't) environment \<Rightarrow> ('f \<Rightarrow> string) \<Rightarrow> bool \<Rightarrow> inject_answer \<Rightarrow> u64 \<Rightarrow> u64 \<Rightarrow> device_answer
     \<Rightarrow> ('s, 'k, 'f, 't) startup_input \<Rightarrow> ('s, 'k, 'f, 't) turn list \<Rightarrow> bool \<Rightarrow> ('s, 'k, 'f, 't) outcome option" where
  "wWinMain ev fprint writable ans cls hwnd dev i ts handled =
     (if asks ''inject'' (su_cmd i) then (case inject_mode ans (the (su_cmd i)) of (code, out) \<Rightarrow> Some (Injected code out))
      else (case CreateDeviceD3D dev (open_window cls hwnd new_win) of (ok, w) \<Rightarrow>
        if \<not> ok then Some (No_Device (UnregisterClass (CleanupDeviceD3D w)))
        else map_option (\<lambda>(done, w1, a).
            if done
            then Ended (UnregisterClass (deliver (destroy_msg handled) (CleanupDeviceD3D w1))) (shutdown fprint writable (ev_pf ev) a)
            else Running w1 a)
          (main_loop ev ts w (startup (ev_pf ev) i))))"

section \<open>References are balanced\<close>

lemma run_refs_append: "run_refs (xs @ ys) held = Option.bind (run_refs xs held) (run_refs ys)"
  by (induction xs held rule: run_refs.induct) auto

definition ref_of :: "res_kind \<Rightarrow> u64 \<Rightarrow> (res_kind \<times> u64) multiset" where
  "ref_of k p = (if p = 0 then {#} else {#(k, p)#})"

definition live_refs :: "win \<Rightarrow> (res_kind \<times> u64) multiset" where
  "live_refs w = ref_of Device (g_pd3dDevice w) + ref_of Context (g_pd3dDeviceContext w) + ref_of Swap_Chain (g_pSwapChain w)
     + ref_of Render_View (g_mainRTV w) + ref_of Window (wn_window w) + ref_of Window_Class (wn_class w)"

text \<open>Every reference held is in a variable, so that none is lost and none is dropped twice.\<close>

definition refs_ok :: "win \<Rightarrow> bool" where
  "refs_ok w \<longleftrightarrow> run_refs (wn_trace w) {#} = Some (live_refs w)"

lemmas refs_defs = refs_ok_def live_refs_def ref_of_def log_refs_def got_def dropped_def run_refs_append

lemma log_refs_sel [simp]:
  "g_pd3dDevice (log_refs tr w) = g_pd3dDevice w" "g_pd3dDeviceContext (log_refs tr w) = g_pd3dDeviceContext w"
  "g_pSwapChain (log_refs tr w) = g_pSwapChain w" "g_mainRTV (log_refs tr w) = g_mainRTV w"
  "wn_window (log_refs tr w) = wn_window w" "wn_class (log_refs tr w) = wn_class w" "g_ResizeW (log_refs tr w) = g_ResizeW w"
  "g_ResizeH (log_refs tr w) = g_ResizeH w" "wn_quit (log_refs tr w) = wn_quit w" "wn_size (log_refs tr w) = wn_size w"
  by (simp_all add: log_refs_def)

lemma refs_ok_log:
  assumes "refs_ok w" "run_refs tr (live_refs w) = Some (live_refs w')" "wn_trace w' = wn_trace w"
  shows "refs_ok (log_refs tr w')"
  using assms by (simp add: refs_ok_def log_refs_def run_refs_append live_refs_def)

lemma CleanupRenderTarget_ok:
  assumes "refs_ok w"
  shows "refs_ok (CleanupRenderTarget w)" "g_mainRTV (CleanupRenderTarget w) = 0"
    "wn_window (CleanupRenderTarget w) = wn_window w"
  using assms by (auto simp: CleanupRenderTarget_def live_refs_def ref_of_def intro!: refs_ok_log)

lemma CreateRenderTarget_ok:
  assumes "refs_ok w" "g_mainRTV w = 0"
  shows "refs_ok (CreateRenderTarget ans w)" "wn_window (CreateRenderTarget ans w) = wn_window w"
  using assms by (auto simp: CreateRenderTarget_def live_refs_def ref_of_def got_def dropped_def intro!: refs_ok_log split: prod.split)

lemma CleanupDeviceD3D_ok:
  assumes "refs_ok w"
  shows "refs_ok (CleanupDeviceD3D w)" "wn_window (CleanupDeviceD3D w) = wn_window w" "wn_class (CleanupDeviceD3D w) = wn_class w"
    "g_mainRTV (CleanupDeviceD3D w) = 0" "g_pSwapChain (CleanupDeviceD3D w) = 0"
    "g_pd3dDeviceContext (CleanupDeviceD3D w) = 0" "g_pd3dDevice (CleanupDeviceD3D w) = 0"
proof -
  define w1 where "w1 = CleanupRenderTarget w"
  define w2 where "w2 = (if g_pSwapChain w1 \<noteq> 0 then log_refs [Dropped Swap_Chain (g_pSwapChain w1)] (w1\<lparr>g_pSwapChain := 0\<rparr>) else w1)"
  define w3 where "w3 = (if g_pd3dDeviceContext w2 \<noteq> 0
    then log_refs [Dropped Context (g_pd3dDeviceContext w2)] (w2\<lparr>g_pd3dDeviceContext := 0\<rparr>) else w2)"
  have e: "CleanupDeviceD3D w = (if g_pd3dDevice w3 \<noteq> 0 then log_refs [Dropped Device (g_pd3dDevice w3)] (w3\<lparr>g_pd3dDevice := 0\<rparr>) else w3)"
    unfolding CleanupDeviceD3D_def Let_def w1_def w2_def w3_def by (rule refl)
  have 1: "refs_ok w1" using CleanupRenderTarget_ok(1) [OF assms] by (simp add: w1_def)
  have 2: "refs_ok w2" using 1 by (auto simp: w2_def live_refs_def ref_of_def intro!: refs_ok_log)
  have 3: "refs_ok w3" using 2 by (auto simp: w3_def live_refs_def ref_of_def intro!: refs_ok_log)
  show "refs_ok (CleanupDeviceD3D w)" using 3 by (auto simp: e live_refs_def ref_of_def intro!: refs_ok_log)
  show "wn_window (CleanupDeviceD3D w) = wn_window w" "wn_class (CleanupDeviceD3D w) = wn_class w"
    "g_mainRTV (CleanupDeviceD3D w) = 0" "g_pSwapChain (CleanupDeviceD3D w) = 0"
    "g_pd3dDeviceContext (CleanupDeviceD3D w) = 0" "g_pd3dDevice (CleanupDeviceD3D w) = 0"
    by (auto simp: e w3_def w2_def w1_def CleanupRenderTarget_def)
qed

lemma open_window_ok: "refs_ok (open_window cls hwnd new_win)"
  by (simp add: refs_defs open_window_def new_win_def)

lemma CreateDeviceD3D_ok:
  assumes "CreateDeviceD3D dev (open_window cls hwnd new_win) = (ok, w)"
  shows "refs_ok w" "wn_class w = cls" "wn_window w = hwnd"
    "\<not> ok \<Longrightarrow> da_hardware dev = None \<and> da_warp dev = None \<and> w = open_window cls hwnd new_win"
proof -
  have n: "g_pd3dDevice (open_window cls hwnd new_win) = 0" "g_pd3dDeviceContext (open_window cls hwnd new_win) = 0"
    "g_pSwapChain (open_window cls hwnd new_win) = 0" "g_mainRTV (open_window cls hwnd new_win) = 0"
    "wn_class (open_window cls hwnd new_win) = cls" "wn_window (open_window cls hwnd new_win) = hwnd"
    by (simp_all add: open_window_def new_win_def)
  have "refs_ok w \<and> wn_class w = cls \<and> wn_window w = hwnd
    \<and> (\<not> ok \<longrightarrow> da_hardware dev = None \<and> da_warp dev = None \<and> w = open_window cls hwnd new_win)"
  proof (cases "case da_hardware dev of None \<Rightarrow> da_warp dev | Some objs \<Rightarrow> Some objs")
    case None
    then show ?thesis using assms open_window_ok [of cls hwnd] n by (auto simp: CreateDeviceD3D_def split: option.splits)
  next
    case (Some objs)
    obtain swap dv ctx where o: "objs = (swap, dv, ctx)" using prod_cases3 by blast
    define w1 where "w1 = log_refs (got Swap_Chain swap @ got Device dv @ got Context ctx)
       ((open_window cls hwnd new_win)\<lparr>g_pSwapChain := swap, g_pd3dDevice := dv, g_pd3dDeviceContext := ctx\<rparr>)"
    have "refs_ok w1" unfolding w1_def
      by (rule refs_ok_log [OF open_window_ok]) (use n in \<open>auto simp: live_refs_def ref_of_def got_def\<close>)
    moreover have "g_mainRTV w1 = 0" "wn_class w1 = cls" "wn_window w1 = hwnd" using n by (simp_all add: w1_def)
    moreover have "wn_class (CreateRenderTarget t w1) = wn_class w1" for t
      by (simp add: CreateRenderTarget_def split: prod.split)
    moreover have "(ok, w) = (True, CreateRenderTarget (da_target dev) w1)"
      using assms Some unfolding CreateDeviceD3D_def Let_def o w1_def by simp
    ultimately show ?thesis using CreateRenderTarget_ok [of w1 "da_target dev"] by simp
  qed
  then show "refs_ok w" "wn_class w = cls" "wn_window w = hwnd"
    "\<not> ok \<Longrightarrow> da_hardware dev = None \<and> da_warp dev = None \<and> w = open_window cls hwnd new_win" by auto
qed

lemma CreateDeviceD3D_quit: "CreateDeviceD3D dev (open_window cls hwnd new_win) = (ok, w) \<Longrightarrow> \<not> wn_quit w"
  by (auto simp: CreateDeviceD3D_def CreateRenderTarget_def open_window_def new_win_def Let_def split: option.splits prod.splits if_splits)

lemma WndProc_ok: "refs_ok w \<Longrightarrow> refs_ok (snd (WndProc x w))" "wn_window (snd (WndProc x w)) = wn_window w"
    "wn_class (snd (WndProc x w)) = wn_class w"
  by (simp_all add: WndProc_def refs_ok_def live_refs_def)

lemma deliver_ok:
  assumes "refs_ok w"
  shows "refs_ok (deliver x w)" "wn_class (deliver x w) = wn_class w" "wm_msg x = WM_DESTROY \<Longrightarrow> wn_window (deliver x w) = 0"
    "wn_window (deliver x w) = 0 \<or> wn_window (deliver x w) = wn_window w"
proof -
  define w1 where "w1 = snd (WndProc x w)"
  have 1: "refs_ok w1" "wn_window w1 = wn_window w" "wn_class w1 = wn_class w"
    using WndProc_ok(1) [OF assms] by (simp_all add: w1_def WndProc_ok(2,3))
  have e: "deliver x w = (if wn_window w = 0 then w
      else if wm_msg x = WM_DESTROY then log_refs [Dropped Window (wn_window w1)] (w1\<lparr>wn_window := 0\<rparr>) else w1)"
    by (simp add: deliver_def Let_def w1_def)
  have "refs_ok (log_refs [Dropped Window (wn_window w1)] (w1\<lparr>wn_window := 0\<rparr>))" if "wn_window w1 \<noteq> 0"
    using that by (intro refs_ok_log [OF 1(1)]) (simp_all add: live_refs_def ref_of_def)
  then show "refs_ok (deliver x w)" using assms 1 by (simp add: e)
  show "wn_class (deliver x w) = wn_class w" "wm_msg x = WM_DESTROY \<Longrightarrow> wn_window (deliver x w) = 0"
    "wn_window (deliver x w) = 0 \<or> wn_window (deliver x w) = wn_window w"
    using 1 by (simp_all add: e)
qed

lemma drain_messages_ok:
  "drain_messages es fin w = (fin', w') \<Longrightarrow> refs_ok w \<Longrightarrow> refs_ok w' \<and> wn_class w' = wn_class w"
proof (induction es fin w rule: drain_messages.induct)
  case (3 x es fin w)
  then show ?case using deliver_ok [of w x] by (auto split: if_splits)
qed (use deliver_ok in \<open>auto simp: refs_ok_def live_refs_def\<close>)

text \<open>A quit message in the queue ends the loop, wherever it stands.\<close>

definition quits :: "win_event list \<Rightarrow> bool" where
  "quits es = list_ex (\<lambda>e. case e of Posted x \<Rightarrow> wm_msg x = WM_QUIT | Sent x \<Rightarrow> False) es"

lemma drain_messages_done:
  "fin \<or> quits es \<Longrightarrow> fst (drain_messages es fin w)"
  by (induction es fin w rule: drain_messages.induct) (auto simp: quits_def)

text \<open>So does a window that is destroyed, because its procedure posts the quit.\<close>

lemma drain_messages_quit: "\<not> wn_quit (snd (drain_messages es fin w))"
  by (induction es fin w rule: drain_messages.induct) auto

definition destroyed :: "win_event \<Rightarrow> bool" where
  "destroyed e = (case e of Sent x \<Rightarrow> wm_msg x = WM_DESTROY \<and> \<not> wm_handled x | Posted x \<Rightarrow> wm_msg x = WM_DESTROY \<and> \<not> wm_handled x)"

lemma deliver_quit: "wn_quit w \<Longrightarrow> wn_quit (deliver x w)"
  "wn_window w \<noteq> 0 \<Longrightarrow> wm_msg x = WM_DESTROY \<Longrightarrow> \<not> wm_handled x \<Longrightarrow> wn_quit (deliver x w)"
  by (simp_all add: deliver_def WndProc_def Let_def message_defs)

lemma drain_messages_ends: "wn_quit w \<Longrightarrow> fst (drain_messages es fin w)"
  by (induction es fin w rule: drain_messages.induct) (simp_all add: deliver_quit)

lemma destroy_ends: "wn_window w \<noteq> 0 \<Longrightarrow> destroyed e \<Longrightarrow> fst (drain_messages (e # es) fin w)"
  by (cases e) (auto simp: destroyed_def message_defs intro!: drain_messages_ends deliver_quit(2))

lemma apply_resize_ok:
  assumes "refs_ok w"
  shows "refs_ok (apply_resize t w)" "wn_class (apply_resize t w) = wn_class w" "wn_quit (apply_resize t w) = wn_quit w"
proof -
  have cls: "wn_class (CleanupRenderTarget w) = wn_class w" by (simp add: CleanupRenderTarget_def)
  have "refs_ok ((CleanupRenderTarget w)\<lparr>wn_size := s, g_ResizeW := 0, g_ResizeH := 0\<rparr>)" for s
    using CleanupRenderTarget_ok(1) [OF assms] by (simp add: refs_ok_def live_refs_def)
  from CreateRenderTarget_ok(1) [OF this] CleanupRenderTarget_ok(2) [OF assms]
  show "refs_ok (apply_resize t w)" using assms by (simp add: apply_resize_def)
  show "wn_class (apply_resize t w) = wn_class w" "wn_quit (apply_resize t w) = wn_quit w"
    by (simp_all add: apply_resize_def CreateRenderTarget_def cls split: prod.split) (simp add: CleanupRenderTarget_def)
qed

text \<open>The swap chain follows the window: after a turn's messages its size is that of the last size message that was not
  of a minimised window and reached the procedure, unless a side of it is zero.\<close>

lemma apply_resize_size:
  "g_ResizeW w \<noteq> 0 \<Longrightarrow> g_ResizeH w \<noteq> 0 \<Longrightarrow> wn_size (apply_resize t w) = (g_ResizeW w, g_ResizeH w)
     \<and> g_ResizeW (apply_resize t w) = 0 \<and> g_ResizeH (apply_resize t w) = 0"
  by (simp add: apply_resize_def CreateRenderTarget_def split: prod.split)

section \<open>Every frame has a result\<close>

lemma mock_connect_total:
  assumes "widen_ok widen"
  shows "\<exists>r. mock_connect due rnd widen utf8 clock now (s, mdl) = Some r"
proof -
  have v: "app_valid (MConn (mock_record KND_REC_CONN_OPEN (s_seq s) (NowTicks (clock (s_seq s))) (sizeof_RECORD + sizeof_CONN_PAYLOAD))
      (mock_conn widen (s_nextFlow s) (mock_procs ! (rnd (s_drawn s) mod 6)) (mock_ip rnd (s_drawn s + 1))
         (if rnd (s_drawn s + 5) mod 2 \<noteq> 0 then 443 else 80)))" by (rule mock_conn_valid [OF assms])
  show ?thesis
    using ingestible_total [OF app_source.make_ingestible [OF v], of utf8 now mdl]
    by (auto simp: mock_connect_def EmitConnOpen_def Let_def)
qed

lemma EmitData_total:
  assumes "length bs < 2 ^ 32"
  shows "\<exists>s' mdl'. EmitData utf8 clock now flow dir bs (s, mdl) = Some (s', mdl')"
  using ingestible_total [OF app_source.make_ingestible [OF mock_data_valid [OF assms,
      of "s_seq s" "NowTicks (clock (s_seq s))" "sizeof_RECORD + sizeof_DATA_PAYLOAD + length bs" flow dir]], of utf8 now mdl]
  by (auto simp: EmitData_def Let_def)

lemma mock_transfer_total:
  fixes sm :: "'t mock_state \<times> 't knd_model"
  shows "\<exists>s' mdl'. mock_transfer due rnd utf8 clock now sm = Some (s', mdl')"
proof (cases sm)
  case (Pair s mdl)
  have l: "length (bytes_of_text mock_request) < 2 ^ 32" "length (bytes_of_text mock_response) < 2 ^ 32"
    using mock_lengths by simp_all
  note e = EmitData_total [OF l(1), of utf8 clock now] EmitData_total [OF l(2), of utf8 clock now]
  show ?thesis using e by (simp add: Pair mock_transfer_def Let_def)
qed

lemma pump_mock_some:
  fixes a :: "('s, 'k, 'f, 't) app"
  assumes "widen_ok (ev_widen ev)"
  shows "\<exists>a'. pump_mock ev now a = Some a' \<and> ap_proxy a' = ap_proxy a"
proof -
  obtain q where q: "mock_connect (ev_due_conn ev) (ev_rnd ev) (ev_widen ev) (ev_utf8 ev) (ev_clock ev) now
      (ap_mock a, ap_model a) = Some q"
    by (rule exE [OF mock_connect_total [OF assms]])
  obtain s mdl where "mock_transfer (ev_due_data ev) (ev_rnd ev) (ev_utf8 ev) (ev_clock ev) now q = Some (s, mdl)"
    using mock_transfer_total [of "ev_due_data ev" "ev_rnd ev" "ev_utf8 ev" "ev_clock ev" now q] by (elim exE)
  with q show ?thesis by (simp add: pump_mock_def Mock_Pump_def)
qed

text \<open>What a frame needs of its sources: the records of the mapped ring and those of the proxy's queue are in bounds.\<close>

definition fed :: "('s, 'f, 't) environment \<Rightarrow> ('s, 'k, 'f, 't) app \<Rightarrow> bool" where
  "fed ev a \<longleftrightarrow> (if as_ringMapped (ap_st a)
       then case poll (ap_client a) (pf_view (ev_pf ev) (ap_dev a) (cl_ring (ap_client a))) of
              None \<Rightarrow> False | Some (records, m) \<Rightarrow> list_all ingestible records
       else True) \<and> list_all ingestible (mp_queue (ap_proxy a))"

lemma fed_frame:
  fixes a :: "('s, 'k, 'f, 't) app"
  assumes "fed ev a" "widen_ok (ev_widen ev)" "hmac_sized (ev_hmac ev)"
  shows "\<exists>r. app_frame ev now i a = Some r"
proof -
  have q: "\<forall>r \<in> set (mp_queue (ap_proxy a)). ingestible r" using assms(1) by (simp add: fed_def list_all_iff)
  obtain a1 where a1: "poll_ring_records ev now a = Some a1" "ap_proxy a1 = ap_proxy a"
  proof (cases "as_ringMapped (ap_st a)")
    case True
    then obtain records m where p: "poll (ap_client a) (pf_view (ev_pf ev) (ap_dev a) (cl_ring (ap_client a))) = Some (records, m)"
      "\<forall>r \<in> set records. ingestible r"
      using assms(1) by (auto simp: fed_def list_all_iff split: option.splits)
    obtain mdl where "ingest_all (ev_utf8 ev) records now (ap_model a) = Some mdl"
      using ingestible_list_total [OF p(2), of "ev_utf8 ev" now "ap_model a"] by (elim exE)
    then show ?thesis using that p(1) True by (simp add: poll_ring_records_def Let_def)
  next
    case False
    then show ?thesis using that [of a] by (simp add: poll_ring_records_def)
  qed
  obtain a2 where a2: "pump_mock ev now a1 = Some a2" "ap_proxy a2 = ap_proxy a"
    using pump_mock_some [OF assms(2), of now a1] a1(2) by auto
  obtain mdl where "ingest_all (ev_utf8 ev) (mp_queue (ap_proxy a2)) now (ap_model a2) = Some mdl"
    using ingestible_list_total [OF q, of "ev_utf8 ev" now "ap_model a2"] a2(2) by auto
  then have "\<exists>a3. drain_proxy ev now a2 = Some a3" by (simp add: drain_proxy_def drain_def)
  then obtain a3 where "pump_frame ev now a = Some a3" using a1(1) a2(1) by (auto simp: pump_frame_def)
  moreover obtain r where "Ui_Frame ev now i a3 = Some r" using Ui_Frame_total [OF assms(3)] by blast
  ultimately show ?thesis by (simp add: app_frame_def)
qed

text \<open>The same along a run, where the threads keep the running flag of the proxy and the registry can be written.\<close>

fun well_fed :: "('s, 'f, 't) environment \<Rightarrow> ('s, 'k, 'f, 't) turn list \<Rightarrow> ('s, 'k, 'f, 't) app \<Rightarrow> bool" where
  "well_fed ev [] a = True"
| "well_fed ev (t # ts) a =
     (fed ev (others_ran t a) \<and> mp_running (tn_threads t (ap_proxy a)) = mp_running (ap_proxy a) \<and> reg_ok (fr_mitm (tn_frame t))
      \<and> (case app_frame ev (tn_now t) (tn_frame t) (others_ran t a) of None \<Rightarrow> True | Some (a2, exit) \<Rightarrow> well_fed ev ts a2))"

lemma others_ran_inv:
  "app_inv a \<Longrightarrow> mp_running (tn_threads t (ap_proxy a)) = mp_running (ap_proxy a) \<Longrightarrow> app_inv (others_ran t a)"
  by (simp add: others_ran_def app_inv_defs)

lemma main_loop_runs:
  fixes a :: "('s, 'k, 'f, 't) app"
  assumes "widen_ok (ev_widen ev)" "hmac_sized (ev_hmac ev)"
  shows "well_fed ev ts a \<Longrightarrow> refs_ok w \<Longrightarrow> \<not> wn_quit w \<Longrightarrow> app_inv a \<Longrightarrow>
    \<exists>fin w' a'. main_loop ev ts w a = Some (fin, w', a') \<and> refs_ok w' \<and> wn_class w' = wn_class w \<and> app_inv a'
      \<and> (\<not> fin \<longrightarrow> \<not> wn_quit w' \<and> (\<forall>t \<in> set ts. \<not> quits (tn_events t) \<and> \<not> tn_close t))"
proof (induction ts arbitrary: w a)
  case Nil
  then show ?case by (auto intro: exI [of _ False])
next
  case (Cons t ts)
  let ?a = "others_ran t a"
  have inv: "app_inv ?a" using Cons.prems by (simp add: others_ran_inv)
  obtain fin w1 where d: "drain_messages (tn_events t) False w = (fin, w1)" by fastforce
  then have w1: "refs_ok w1" "wn_class w1 = wn_class w" "\<not> wn_quit w1" "quits (tn_events t) \<Longrightarrow> fin"
    using drain_messages_ok [OF d Cons.prems(2)] drain_messages_done [of False "tn_events t" w]
      drain_messages_quit [of "tn_events t" False w] by auto
  show ?case
  proof (cases fin)
    case True
    then show ?thesis using d w1 inv by (auto intro: exI [of _ True])
  next
    case False
    define w2 where "w2 = apply_resize (tn_target t) w1"
    have w2: "refs_ok w2" "wn_class w2 = wn_class w" "\<not> wn_quit w2"
      using apply_resize_ok [OF w1(1), of "tn_target t"] w1(2,3) by (simp_all add: w2_def)
    obtain a2 exit where f: "app_frame ev (tn_now t) (tn_frame t) ?a = Some (a2, exit)"
      using fed_frame [OF _ assms, of ?a "tn_now t" "tn_frame t"] Cons.prems(1) by auto
    have "app_step ev ?a a2" using app_step.frame [OF f] Cons.prems(1) by simp
    then have a2: "app_inv a2" using app_inv_step [OF inv] by blast
    have rec: "well_fed ev ts a2" using Cons.prems(1) f by simp
    have step: "main_loop ev (t # ts) w a = (if exit \<or> tn_close t then Some (True, w2, a2) else main_loop ev ts w2 a2)"
      using d False f by (simp add: w2_def)
    show ?thesis
    proof (cases "exit \<or> tn_close t")
      case True
      then have "main_loop ev (t # ts) w a = Some (True, w2, a2)" using step by simp
      then show ?thesis using w2 a2 by blast
    next
      case no: False
      from Cons.IH [OF rec w2(1,3) a2] show ?thesis using step no w2(2) w1(4) False by auto
    qed
  qed
qed

lemma UnregisterClass_ok:
  assumes "refs_ok w"
  shows "refs_ok (UnregisterClass w)" "wn_window w = 0 \<Longrightarrow> wn_class (UnregisterClass w) = 0"
    "wn_window (UnregisterClass w) = wn_window w"
  using assms by (auto simp: UnregisterClass_def live_refs_def ref_of_def intro!: refs_ok_log)

text \<open>Leaving the loop gives every reference back.\<close>

lemma teardown_ok:
  assumes "refs_ok w"
  shows "run_refs (wn_trace (UnregisterClass (deliver (destroy_msg handled) (CleanupDeviceD3D w)))) {#} = Some {#}"
proof -
  define w1 where "w1 = deliver (destroy_msg handled) (CleanupDeviceD3D w)"
  note c = CleanupDeviceD3D_ok [OF assms]
  have m: "wm_msg (destroy_msg handled) = WM_DESTROY" by (simp add: destroy_msg_def)
  have 1: "refs_ok w1" "wn_window w1 = 0" using deliver_ok [OF c(1)] m by (simp_all add: w1_def)
  have g: "g_mainRTV w1 = 0" "g_pSwapChain w1 = 0" "g_pd3dDeviceContext w1 = 0" "g_pd3dDevice w1 = 0"
    using c by (simp_all add: w1_def deliver_def WndProc_def Let_def)
  have "refs_ok (UnregisterClass w1)" "wn_class (UnregisterClass w1) = 0" "wn_window (UnregisterClass w1) = 0"
    using UnregisterClass_ok [OF 1(1)] 1(2) by simp_all
  moreover have "g_mainRTV (UnregisterClass w1) = 0" "g_pSwapChain (UnregisterClass w1) = 0"
    "g_pd3dDeviceContext (UnregisterClass w1) = 0" "g_pd3dDevice (UnregisterClass w1) = 0"
    using g by (simp_all add: UnregisterClass_def)
  ultimately show ?thesis unfolding refs_ok_def live_refs_def ref_of_def w1_def by simp
qed

text \<open>Without a device the window is not destroyed, so that its class cannot be unregistered either.\<close>

lemma no_device_refs:
  assumes "hwnd \<noteq> 0"
  shows "run_refs (wn_trace (UnregisterClass (CleanupDeviceD3D (open_window cls hwnd new_win)))) {#}
    = Some (ref_of Window hwnd + ref_of Window_Class cls)"
proof -
  have "CleanupDeviceD3D (open_window cls hwnd new_win) = open_window cls hwnd new_win"
    by (simp add: CleanupDeviceD3D_def CleanupRenderTarget_def Let_def open_window_def new_win_def)
  moreover have "UnregisterClass (open_window cls hwnd new_win) = open_window cls hwnd new_win"
    using assms by (simp add: UnregisterClass_def open_window_def)
  ultimately show ?thesis
    by (simp add: open_window_def new_win_def log_refs_def got_def ref_of_def)
qed

lemma shutdown_closed:
  fixes a :: "('s, 'k, 'f, 't) app"
  shows "\<not> mp_running (ap_proxy (shutdown fprint writable pf a))" "mp_running (ap_proxy a) \<Longrightarrow> mp_threads (ap_proxy (shutdown fprint writable pf a)) = []"
    "\<not> isOpen (ap_client (shutdown fprint writable pf a))" "\<not> isMapped (ap_client (shutdown fprint writable pf a))" "ap_st (shutdown fprint writable pf a) = ap_st a"
    "writable \<Longrightarrow> ap_files (shutdown fprint writable pf a) settings_path = Some (Save fprint (as_options (ap_st a)))"
  by (auto simp: shutdown_def Let_def stop_def client_close_def isOpen_def isMapped_def split: prod.split)

section \<open>Property\<close>

text \<open>
  C17. The program runs and ends in order. With the headless command it only injects. Otherwise, whatever messages, sizes, input and
  thread activity come, as long as the records that reach it are in bounds, every turn of the loop has a result; a quit
  message, a destroyed window that posted one or a request to close ends it; and at its end every graphics object, the window and its class have been given
  back exactly once, the proxy is stopped, the device is closed and unmapped, and the options are saved if the file can be
  written. Only when neither the hardware nor the software device can be made does the window stay behind.
\<close>

theorem program_runs:
  fixes i :: "('s, 'k, 'f, 't) startup_input" and ts :: "('s, 'k, 'f, 't) turn list"
  assumes "widen_ok (ev_widen ev)" "hmac_sized (ev_hmac ev)" "well_fed ev ts (startup (ev_pf ev) i)"
    "\<not> proxy_set (su_reg i)" "hwnd \<noteq> 0"
  shows "\<exists>out. wWinMain ev fprint writable ans cls hwnd dev i ts handled = Some out \<and>
    (case out of
       Injected code text \<Rightarrow> asks ''inject'' (su_cmd i)
     | No_Device w \<Rightarrow> da_hardware dev = None \<and> da_warp dev = None
         \<and> run_refs (wn_trace w) {#} = Some (ref_of Window hwnd + ref_of Window_Class cls)
     | Ended w a \<Rightarrow> run_refs (wn_trace w) {#} = Some {#} \<and> \<not> mp_running (ap_proxy a) \<and> \<not> isOpen (ap_client a)
         \<and> \<not> isMapped (ap_client a) \<and> texts_fit (ap_st a)
         \<and> (writable \<longrightarrow> ap_files a settings_path = Some (Save fprint (as_options (ap_st a))))
     | Running w a \<Rightarrow> refs_ok w \<and> \<not> wn_quit w \<and> app_inv a \<and> (\<forall>t \<in> set ts. \<not> quits (tn_events t) \<and> \<not> tn_close t))"
proof (cases "asks ''inject'' (su_cmd i)")
  case True
  obtain code out where "inject_mode ans (the (su_cmd i)) = (code, out)" by fastforce
  with True show ?thesis by (simp add: wWinMain_def)
next
  case no: False
  obtain ok w where d: "CreateDeviceD3D dev (open_window cls hwnd new_win) = (ok, w)" by fastforce
  note w = CreateDeviceD3D_ok [OF d]
  show ?thesis
  proof (cases ok)
    case False
    with w(4) no_device_refs [OF assms(5), of cls] no d show ?thesis by (simp add: wWinMain_def)
  next
    case True
    obtain fin w' a' where l: "main_loop ev ts w (startup (ev_pf ev) i) = Some (fin, w', a')" "refs_ok w'" "app_inv a'"
      "\<not> fin \<longrightarrow> \<not> wn_quit w' \<and> (\<forall>t \<in> set ts. \<not> quits (tn_events t) \<and> \<not> tn_close t)"
      using main_loop_runs [OF assms(1-3) w(1) CreateDeviceD3D_quit [OF d] startup_inv [OF assms(4)]] by blast
    have m: "wWinMain ev fprint writable ans cls hwnd dev i ts handled = Some (if fin
        then Ended (UnregisterClass (deliver (destroy_msg handled) (CleanupDeviceD3D w'))) (shutdown fprint writable (ev_pf ev) a')
        else Running w' a')"
      using no d True l(1) by (simp add: wWinMain_def)
    have fit: "texts_fit (ap_st a')" using l(3) by (simp add: app_inv_def)
    show ?thesis unfolding m
      using l(2-4) fit teardown_ok [OF l(2), of handled] shutdown_closed [where fprint = fprint and writable = writable and pf = "ev_pf ev" and a = a'] by (cases fin) auto
  qed
qed

lemma outcome_ended:
  assumes "\<exists>out. r = Some out \<and> (case out of Injected c t \<Rightarrow> P | No_Device w \<Rightarrow> A w | Ended w a \<Rightarrow> B w a | Running w a \<Rightarrow> C w a)"
    "\<not> P" "\<And>w. \<not> A w" "\<And>w a. \<not> C w a"
  shows "\<exists>w a. r = Some (Ended w a) \<and> B w a"
proof -
  from assms(1) obtain out where o: "r = Some out"
    "case out of Injected c t \<Rightarrow> P | No_Device w \<Rightarrow> A w | Ended w a \<Rightarrow> B w a | Running w a \<Rightarrow> C w a" by blast
  then show ?thesis using assms(2-4) by (cases out) simp_all
qed

definition sample_turn :: "(nat, nat, u8, nat) turn" where
  "sample_turn = \<lparr>tn_events = [Sent \<lparr>wm_msg = WM_SIZE, wm_wParam = 0, wm_lParam = 0x02580320, wm_handled = False, wm_default = 0\<rparr>],
     tn_target = (21, 22), tn_threads = (\<lambda>p. p), tn_ca = (\<lambda>ca. ca), tn_driver = (\<lambda>s. s), tn_now = 1, tn_frame = idle_input,
     tn_close = True\<rparr>"

lemma sample_well_fed: "well_fed sample_environment [sample_turn] (startup (ev_pf sample_environment) sample_startup)"
proof -
  have "ev_pf sample_environment = sample_platform" by (simp add: sample_environment_def)
  moreover have "\<not> as_ringMapped (ap_st (startup sample_platform sample_startup))"
    using sample_app_unmapped by (simp add: sample_app_def)
  moreover have "mp_queue (ap_proxy (startup sample_platform sample_startup)) = []" by (rule startup_parts(3))
  ultimately show ?thesis
    by (simp add: fed_def others_ran_def sample_turn_def reg_ok_def idle_input_def split: option.split)
qed

theorem program_runs_witness:
  "\<forall>ans. \<exists>w a. wWinMain sample_environment (\<lambda>_. []) True ans 3 4 \<lparr>da_hardware = None, da_warp = Some (11, 12, 13), da_target = (14, 15)\<rparr>
      sample_startup [sample_turn] False = Some (Ended w a)
    \<and> run_refs (wn_trace w) {#} = Some {#} \<and> \<not> mp_running (ap_proxy a) \<and> \<not> isOpen (ap_client a)"
proof (rule allI)
  fix ans :: inject_answer
  have e: "widen_ok (ev_widen sample_environment)" "hmac_sized (ev_hmac sample_environment)" "\<not> proxy_set (su_reg sample_startup)"
    by (simp_all add: sample_environment_def plain_widen_ok flat_hmac_sized proxy_set_def sample_startup_def)
  have c: "\<not> asks ''inject'' (su_cmd sample_startup)" by (simp add: asks_def sample_startup_def) code_simp
  have "\<exists>w a. wWinMain sample_environment (\<lambda>_. []) True ans 3 4 \<lparr>da_hardware = None, da_warp = Some (11, 12, 13), da_target = (14, 15)\<rparr>
      sample_startup [sample_turn] False = Some (Ended w a)
    \<and> run_refs (wn_trace w) {#} = Some {#} \<and> \<not> mp_running (ap_proxy a) \<and> \<not> isOpen (ap_client a)
         \<and> \<not> isMapped (ap_client a) \<and> texts_fit (ap_st a)
         \<and> (True \<longrightarrow> ap_files a settings_path = Some (Save (\<lambda>_. []) (as_options (ap_st a))))"
    by (rule outcome_ended [OF program_runs [OF e(1,2) sample_well_fed e(3)] c]) (simp_all add: sample_turn_def)
  then show "\<exists>w a. wWinMain sample_environment (\<lambda>_. []) True ans 3 4 \<lparr>da_hardware = None, da_warp = Some (11, 12, 13), da_target = (14, 15)\<rparr>
      sample_startup [sample_turn] False = Some (Ended w a)
    \<and> run_refs (wn_trace w) {#} = Some {#} \<and> \<not> mp_running (ap_proxy a) \<and> \<not> isOpen (ap_client a)" by blast
qed

end
