(* ===== verification/Knd_Theme.thy ===== *)
theory Knd_Theme
  imports Knd_Inspector
begin

text \<open>
  Colours and the default arrangement of the panels (\<^verbatim>\<open>src/app/src/ui.cpp\<close>). A literal of the source is a
  number of thousandths; what the drawing library computes with floats is an argument: \<open>lit\<close> makes a float of
  thousandths, \<open>mul\<close> multiplies, \<open>trunc n x\<close> is the integer part of \<open>x * n\<close>.
\<close>

section \<open>Theme\<close>

record 'f rgba =
  cx :: 'f
  cy :: 'f
  cz :: 'f
  cw :: 'f

definition rgb :: "(nat \<Rightarrow> 'f) \<Rightarrow> nat \<Rightarrow> nat \<Rightarrow> nat \<Rightarrow> nat \<Rightarrow> 'f rgba" where
  "rgb lit r g b a = \<lparr>cx = lit r, cy = lit g, cz = lit b, cw = lit a\<rparr>"

datatype style_colour =
  Col_Text | Col_TextDisabled | Col_WindowBg | Col_ChildBg | Col_PopupBg | Col_Border | Col_FrameBg | Col_FrameBgHovered
  | Col_FrameBgActive | Col_TitleBg | Col_TitleBgActive | Col_MenuBarBg | Col_Header | Col_HeaderHovered | Col_HeaderActive
  | Col_Button | Col_ButtonHovered | Col_ButtonActive | Col_CheckMark | Col_SliderGrab | Col_SliderGrabActive | Col_Separator
  | Col_Tab | Col_TabHovered | Col_TabActive | Col_TabUnfocused | Col_TabUnfocusedActive | Col_TableHeaderBg
  | Col_TableBorderStrong | Col_TableBorderLight | Col_TableRowBg | Col_TableRowBgAlt | Col_DockingPreview | Col_NavHighlight

record 'f ui_style =
  sy_WindowRounding :: 'f
  sy_ChildRounding :: 'f
  sy_FrameRounding :: 'f
  sy_PopupRounding :: 'f
  sy_TabRounding :: 'f
  sy_GrabRounding :: 'f
  sy_ScrollbarRounding :: 'f
  sy_WindowPadding :: "'f \<times> 'f"
  sy_FramePadding :: "'f \<times> 'f"
  sy_ItemSpacing :: "'f \<times> 'f"
  sy_CellPadding :: "'f \<times> 'f"
  sy_WindowBorderSize :: 'f
  sy_FrameBorderSize :: 'f
  sy_ScrollbarSize :: 'f
  sy_GrabMinSize :: 'f
  sy_Colors :: "style_colour \<Rightarrow> 'f rgba"

definition theme_colours :: "(nat \<Rightarrow> 'f) \<Rightarrow> 'f rgba \<Rightarrow> 'f rgba \<Rightarrow> (style_colour \<times> 'f rgba) list" where
  "theme_colours lit acc accHi = (let a = (\<lambda>c al. c\<lparr>cw := lit al\<rparr>) in
    [(Col_Text, rgb lit 900 910 930 1000), (Col_TextDisabled, rgb lit 450 470 520 1000), (Col_WindowBg, rgb lit 69 74 90 1000),
     (Col_ChildBg, rgb lit 85 90 108 1000), (Col_PopupBg, rgb lit 60 64 78 980), (Col_Border, rgb lit 160 170 200 1000),
     (Col_FrameBg, rgb lit 135 142 165 1000), (Col_FrameBgHovered, rgb lit 180 190 220 1000), (Col_FrameBgActive, a acc 450),
     (Col_TitleBg, rgb lit 55 59 72 1000), (Col_TitleBgActive, rgb lit 75 80 98 1000), (Col_MenuBarBg, rgb lit 85 90 108 1000),
     (Col_Header, a acc 300), (Col_HeaderHovered, a acc 450), (Col_HeaderActive, a acc 600), (Col_Button, a acc 320),
     (Col_ButtonHovered, a acc 550), (Col_ButtonActive, a accHi 800), (Col_CheckMark, accHi), (Col_SliderGrab, acc),
     (Col_SliderGrabActive, accHi), (Col_Separator, rgb lit 160 170 200 1000), (Col_Tab, rgb lit 105 110 130 1000),
     (Col_TabHovered, a acc 550), (Col_TabActive, a acc 400), (Col_TabUnfocused, rgb lit 90 95 115 1000),
     (Col_TabUnfocusedActive, rgb lit 120 125 150 1000), (Col_TableHeaderBg, rgb lit 115 120 142 1000),
     (Col_TableBorderStrong, rgb lit 160 170 200 1000), (Col_TableBorderLight, rgb lit 130 140 160 1000),
     (Col_TableRowBg, rgb lit 0 0 0 0), (Col_TableRowBgAlt, rgb lit 1000 1000 1000 18), (Col_DockingPreview, a acc 550),
     (Col_NavHighlight, acc)])"

definition set_colour :: "style_colour \<times> 'f rgba \<Rightarrow> 'f ui_style \<Rightarrow> 'f ui_style" where
  "set_colour e s = s\<lparr>sy_Colors := (sy_Colors s)(fst e := snd e)\<rparr>"

definition Ui_ApplyTheme :: "(nat \<Rightarrow> 'f) \<Rightarrow> ('f \<Rightarrow> 'f \<Rightarrow> 'f) \<Rightarrow> 'f \<times> 'f \<times> 'f \<Rightarrow> 'f ui_style \<Rightarrow> 'f ui_style" where
  "Ui_ApplyTheme lit mul accent s0 = (case accent of (r, g, b) \<Rightarrow>
     (let s1 = s0\<lparr>sy_WindowRounding := lit 6000, sy_ChildRounding := lit 6000, sy_FrameRounding := lit 5000,
            sy_PopupRounding := lit 5000, sy_TabRounding := lit 5000, sy_GrabRounding := lit 4000, sy_ScrollbarRounding := lit 9000,
            sy_WindowPadding := (lit 12000, lit 10000), sy_FramePadding := (lit 9000, lit 5000),
            sy_ItemSpacing := (lit 9000, lit 7000), sy_CellPadding := (lit 8000, lit 4000), sy_WindowBorderSize := lit 1000,
            sy_FrameBorderSize := lit 0, sy_ScrollbarSize := lit 12000, sy_GrabMinSize := lit 10000\<rparr>;
          acc = \<lparr>cx = r, cy = g, cz = b, cw = lit 1000\<rparr>;
          accHi = \<lparr>cx = mul r (lit 1150), cy = mul g (lit 1150), cz = mul b (lit 1150), cw = lit 1000\<rparr>;
          s2 = fold set_colour (theme_colours lit acc accHi) s1
      in s2\<lparr>sy_Colors := (sy_Colors s2)(Col_WindowBg := (sy_Colors s2 Col_WindowBg)\<lparr>cw := lit 1000\<rparr>)\<rparr>))"

lemma fold_set_colour:
  "distinct (map fst es) \<Longrightarrow> sy_Colors (fold set_colour es s) c = (case map_of es c of None \<Rightarrow> sy_Colors s c | Some v \<Rightarrow> v)"
proof (induction es arbitrary: s)
  case (Cons e es)
  have "map_of es c = None" if "c = fst e" using Cons.prems that by (simp add: map_of_eq_None_iff)
  then show ?case using Cons by (cases e) (auto simp: set_colour_def split: option.splits)
qed simp

lemma theme_colours_distinct: "distinct (map fst (theme_colours lit acc accHi))"
  by (simp add: theme_colours_def Let_def)

text \<open>The theme sets every colour that it names and the background of the windows stays opaque, whatever the accent is.\<close>

lemma theme_sets_all:
  "sy_Colors (Ui_ApplyTheme lit mul accent s) c = sy_Colors (Ui_ApplyTheme lit mul accent s') c"
proof -
  have all: "\<exists>v. map_of (theme_colours lit acc accHi) k = Some v" for acc accHi k
    by (cases k) (simp_all add: theme_colours_def Let_def)
  have same: "sy_Colors (fold set_colour (theme_colours lit acc accHi) t) k
      = sy_Colors (fold set_colour (theme_colours lit acc accHi) t') k" for acc accHi t t' k
    using all [of acc accHi k] by (auto simp: fold_set_colour theme_colours_distinct)
  show ?thesis by (cases accent) (auto simp: Ui_ApplyTheme_def Let_def intro: same arg_cong [OF same])
qed

lemma theme_opaque: "cw (sy_Colors (Ui_ApplyTheme lit mul accent s) Col_WindowBg) = lit 1000"
  by (cases accent) (simp add: Ui_ApplyTheme_def Let_def)

section \<open>Colours of single cells\<close>

text \<open>The library's macro that packs four channels into a word, red lowest.\<close>

definition IM_COL32 :: "u32 \<Rightarrow> u32 \<Rightarrow> u32 \<Rightarrow> u32 \<Rightarrow> u32" where
  "IM_COL32 r g b a = push_bit 24 a OR push_bit 16 b OR push_bit 8 g OR r"

definition FadeAccent :: "(int \<Rightarrow> 'f \<Rightarrow> int) \<Rightarrow> 'f \<times> 'f \<times> 'f \<Rightarrow> 'f \<Rightarrow> u32" where
  "FadeAccent trunc accent fade = (case accent of (r, g, b) \<Rightarrow>
     IM_COL32 (word_of_int (trunc 255 r)) (word_of_int (trunc 255 g)) (word_of_int (trunc 255 b)) (word_of_int (trunc 90 fade)))"

text \<open>Channels below 256 do not run into one another: the highlight of a row has the accent's colour, and its opacity is
  the fading factor's.\<close>

lemma IM_COL32_channels:
  assumes "r < 256" "g < 256" "b < 256" "a < 256"
  shows "IM_COL32 r g b a AND 0xff = r" "drop_bit 8 (IM_COL32 r g b a) AND 0xff = g"
    "drop_bit 16 (IM_COL32 r g b a) AND 0xff = b" "drop_bit 24 (IM_COL32 r g b a) = a"
proof -
  have small: "\<not> bit x n" if "x < 256" "8 \<le> n" for x :: u32 and n
  proof -
    have "x AND mask 8 = x" by (rule less_mask_eq) (use that(1) in simp)
    then have "bit x n = bit (x AND mask 8) n" by simp
    then show ?thesis using that(2) by (simp add: bit_and_iff bit_mask_iff)
  qed
  have mask: "(0xff :: u32) = mask 8" by (simp add: mask_eq_exp_minus_1)
  have low: "bit r n \<Longrightarrow> n < 8" "bit g n \<Longrightarrow> n < 8" "bit b n \<Longrightarrow> n < 8" "bit a n \<Longrightarrow> n < 8" for n
    using small [OF assms(1), of n] small [OF assms(2), of n] small [OF assms(3), of n] small [OF assms(4), of n]
    by (simp_all add: linorder_not_le [symmetric]) auto
  note bits = IM_COL32_def bit_and_iff bit_or_iff bit_push_bit_iff bit_drop_bit_eq bit_mask_iff
  show "IM_COL32 r g b a AND 0xff = r" unfolding mask by (rule bit_word_eqI) (auto simp: bits dest: low)
  show "drop_bit 8 (IM_COL32 r g b a) AND 0xff = g" unfolding mask by (rule bit_word_eqI) (auto simp: bits dest: low)
  show "drop_bit 16 (IM_COL32 r g b a) AND 0xff = b" unfolding mask by (rule bit_word_eqI) (auto simp: bits dest: low)
  show "drop_bit 24 (IM_COL32 r g b a) = a" unfolding mask by (rule bit_word_eqI) (auto simp: bits dest: low)
qed

definition StatusColor :: "int \<Rightarrow> nat rgba" where
  "StatusColor code =
     (if code \<ge> 500 then rgb id 920 360 340 1000
      else if code \<ge> 400 then rgb id 950 620 300 1000
      else if code \<ge> 300 then rgb id 400 680 950 1000
      else if code \<ge> 200 then rgb id 380 820 500 1000
      else rgb id 700 720 760 1000)"

definition MethodColor :: "string \<Rightarrow> nat rgba" where
  "MethodColor m =
     (if m = ''GET'' then rgb id 380 820 500 1000
      else if m = ''POST'' then rgb id 400 680 950 1000
      else if m = ''PUT'' \<or> m = ''PATCH'' then rgb id 950 620 300 1000
      else if m = ''DELETE'' then rgb id 920 360 340 1000
      else rgb id 750 770 800 1000)"

text \<open>Two codes have the same colour just when they are of the same class.\<close>

definition status_class :: "int \<Rightarrow> int" where
  "status_class code = (if code < 200 then 1 else if code \<ge> 500 then 5 else code div 100)"

lemma StatusColor_class: "StatusColor c = StatusColor d \<longleftrightarrow> status_class c = status_class d"
proof -
  have d: "200 \<le> x \<and> x < 300 \<Longrightarrow> x div 100 = 2" "300 \<le> x \<and> x < 400 \<Longrightarrow> x div 100 = 3" "400 \<le> x \<and> x < 500 \<Longrightarrow> x div 100 = 4"
    for x :: int by presburger+
  have cl: "status_class x = (if x \<ge> 500 then 5 else if x \<ge> 400 then 4 else if x \<ge> 300 then 3 else if x \<ge> 200 then 2 else 1)" for x
    using d [of x] by (simp add: status_class_def)
  show ?thesis by (simp add: StatusColor_def cl rgb_def)
qed

section \<open>Default arrangement\<close>

datatype dock_dir = Dir_Left | Dir_Up

datatype dock_id = Dock_Space | Dock_Top | Dock_Rest | Dock_Left | Dock_Right | Dock_Rtop | Dock_Rbot

text \<open>The calls of the arrangement: removing and adding the node, its size, a split into the part in a direction
  (thousandths of the node) and the rest, a panel put into a node, and the end.\<close>

datatype dock_call = Dock_Remove dock_id | Dock_Add dock_id | Dock_Size dock_id
  | Dock_Split dock_id dock_dir nat dock_id dock_id | Dock_Window string dock_id | Dock_Finish dock_id

definition BuildDefaultLayout :: "dock_id \<Rightarrow> dock_call list" where
  "BuildDefaultLayout dockId =
     [Dock_Remove dockId, Dock_Add dockId, Dock_Size dockId,
      Dock_Split dockId Dir_Up 110 Dock_Top Dock_Rest, Dock_Split Dock_Rest Dir_Left 620 Dock_Left Dock_Right,
      Dock_Split Dock_Right Dir_Up 580 Dock_Rtop Dock_Rbot,
      Dock_Window ''Control'' Dock_Top, Dock_Window ''Flows'' Dock_Left, Dock_Window ''Packets'' Dock_Left,
      Dock_Window ''Inspector'' Dock_Rtop, Dock_Window ''Statistics'' Dock_Rbot, Dock_Window ''MITM'' Dock_Rbot,
      Dock_Window ''SChannel keys'' Dock_Rbot, Dock_Window ''Settings'' Dock_Rbot, Dock_Finish dockId]"

text \<open>The leaves after a list of calls, and whether each call names a node that is a leaf then: a split takes a
  leaf and gives two, a panel goes into a leaf.\<close>

fun dock_leaves :: "dock_call list \<Rightarrow> dock_id list \<Rightarrow> dock_id list option" where
  "dock_leaves [] ls = Some ls"
| "dock_leaves (Dock_Remove n # cs) ls = dock_leaves cs (removeAll n ls)"
| "dock_leaves (Dock_Add n # cs) ls = dock_leaves cs (n # ls)"
| "dock_leaves (Dock_Size n # cs) ls = (if n \<in> set ls then dock_leaves cs ls else None)"
| "dock_leaves (Dock_Split n d k a b # cs) ls =
     (if n \<in> set ls \<and> 0 < k \<and> k < 1000 \<and> a \<noteq> b \<and> a \<notin> set ls \<and> b \<notin> set ls then dock_leaves cs (a # b # removeAll n ls) else None)"
| "dock_leaves (Dock_Window w n # cs) ls = (if n \<in> set ls then dock_leaves cs ls else None)"
| "dock_leaves (Dock_Finish n # cs) ls = dock_leaves cs ls"

definition docked :: "dock_call list \<Rightarrow> (string \<times> dock_id) list" where
  "docked cs = List.map_filter (\<lambda>c. case c of Dock_Window w n \<Rightarrow> Some (w, n) | _ \<Rightarrow> None) cs"

text \<open>The names under which the panels open their windows.\<close>

definition panel_names :: "string list" where
  "panel_names = [''Control'', ''Flows'', ''Packets'', ''Inspector'', ''Statistics'', ''MITM'', ''SChannel keys'', ''Settings'']"

text \<open>Every panel is put into the arrangement exactly once, into a leaf, and no leaf stays empty.\<close>

lemma BuildDefaultLayout_ok:
  "map fst (docked (BuildDefaultLayout Dock_Space)) = panel_names" "distinct panel_names"
  "dock_leaves (BuildDefaultLayout Dock_Space) [] = Some [Dock_Rtop, Dock_Rbot, Dock_Left, Dock_Top]"
  "set (map snd (docked (BuildDefaultLayout Dock_Space))) = {Dock_Rtop, Dock_Rbot, Dock_Left, Dock_Top}"
  by (auto simp: BuildDefaultLayout_def docked_def panel_names_def map_filter_simps)

end
