(* ===== verification/Knd_Spike.thy ===== *)
theory Knd_Spike
  imports Knd_Ca Knd_Settings
begin

text \<open>
  The feasibility program for the certificate library (\<^verbatim>\<open>src/app/src/tls_spike.cpp\<close>): a root key and certificate, a leaf
  key and certificate signed by the root, and what the program prints and returns. The library is the parameter
  of \<open>Knd_Ca\<close>; \<open>parse\<close> is the return code of its certificate parser.
\<close>

section \<open>Steps\<close>

definition spike_GenRsaKey :: "'k keygen \<Rightarrow> int \<times> 'k" where
  "spike_GenRsaKey g = (case g of (setup, gen, k) \<Rightarrow> (if setup \<noteq> 0 then setup else gen, k))"

definition spike_cert :: "'k \<Rightarrow> 'k \<Rightarrow> string \<Rightarrow> string \<Rightarrow> int \<Rightarrow> bytes \<Rightarrow> 'k x509_cert" where
  "spike_cert subjKey issuerKey subj issuer isCa sn = \<lparr>xc_subject_key = subjKey, xc_issuer_key = issuerKey, xc_subject = subj,
     xc_issuer = issuer, xc_serial = sn, xc_from = ''20240101000000'', xc_to = ''20340101000000'', xc_is_ca = isCa,
     xc_pathlen = -1, xc_san = None\<rparr>"

text \<open>\<open>old\<close> is what the output buffer held before.\<close>

definition WriteCert :: "'k x509_lib \<Rightarrow> 'k \<Rightarrow> 'k \<Rightarrow> string \<Rightarrow> string \<Rightarrow> int \<Rightarrow> bytes \<Rightarrow> string \<Rightarrow> int \<times> string" where
  "WriteCert lib subjKey issuerKey subj issuer isCa sn old =
     (let c = spike_cert subjKey issuerKey subj issuer isCa sn;
          rc = xl_subject_name lib subj;
          rc = and_then rc (xl_issuer_name lib issuer);
          rc = and_then rc (xl_serial_raw lib sn);
          rc = and_then rc (xl_validity lib (xc_from c) (xc_to c));
          rc = and_then rc (xl_constraints lib isCa (-1)) in
      if rc = 0 then xl_crt_pem lib c else (rc, old))"

definition LF :: string where "LF = [CHR 0x0A]"

definition fail_line :: "string \<Rightarrow> int \<Rightarrow> string" where
  "fail_line what rc = what @ '' fail -0x'' @ pad0 4 (hex_text (unat (word_of_int (- rc) :: u32))) @ LF"

definition size_line :: "string \<Rightarrow> string \<Rightarrow> string" where
  "size_line what pem = what @ '' cert PEM = '' @ dec_text (length pem) @ '' bytes'' @ LF"

definition spike_dn :: string where "spike_dn = ''CN=knetdbg Root CA,O=knetdbg''"

text \<open>The exit code and the lines printed.\<close>

definition spike_main :: "'k x509_lib \<Rightarrow> (string \<Rightarrow> int) \<Rightarrow> 'k keygen \<Rightarrow> 'k keygen \<Rightarrow> int \<times> string list" where
  "spike_main lib parse caGen leafGen =
     (if xl_seed lib \<noteq> 0 then (1, [fail_line ''seed'' (xl_seed lib)])
      else (case spike_GenRsaKey caGen of (rc1, caKey) \<Rightarrow>
        if rc1 \<noteq> 0 then (1, [fail_line ''ca key'' rc1])
        else (case spike_GenRsaKey leafGen of (rc2, leafKey) \<Rightarrow>
          if rc2 \<noteq> 0 then (1, [fail_line ''leaf key'' rc2])
          else (case WriteCert lib caKey caKey spike_dn spike_dn 1 [1] [] of (rc3, pem1) \<Rightarrow>
            if rc3 \<noteq> 0 then (1, [fail_line ''CA cert'' rc3])
            else (case WriteCert lib leafKey caKey ''CN=example.com'' spike_dn 0 [0x10, 0x01] pem1 of (rc4, pem2) \<Rightarrow>
              if rc4 \<noteq> 0 then (1, [size_line ''CA'' pem1, fail_line ''leaf cert'' rc4])
              else (0, [size_line ''CA'' pem1, size_line ''leaf'' pem2,
                     ''leaf re-parse rc='' @ int_text (parse pem2) @ '' (0=ok)'' @ LF, ''SPIKE OK'' @ LF]))))))"

section \<open>What it shows about the library\<close>

definition written :: "'k x509_lib \<Rightarrow> 'k \<Rightarrow> 'k \<Rightarrow> string \<Rightarrow> string \<Rightarrow> int \<Rightarrow> bytes \<Rightarrow> string \<Rightarrow> bool" where
  "written lib subjKey issuerKey subj issuer isCa sn pem \<longleftrightarrow>
     xl_subject_name lib subj = 0 \<and> xl_issuer_name lib issuer = 0 \<and> xl_serial_raw lib sn = 0
   \<and> xl_validity lib ''20240101000000'' ''20340101000000'' = 0 \<and> xl_constraints lib isCa (-1) = 0
   \<and> xl_crt_pem lib (spike_cert subjKey issuerKey subj issuer isCa sn) = (0, pem)"

lemma WriteCert_ok: "WriteCert lib sk ik subj issuer isCa sn old = (0, pem) \<longleftrightarrow> written lib sk ik subj issuer isCa sn pem"
  by (auto simp: WriteCert_def written_def spike_cert_def and_then_def Let_def)

text \<open>The program succeeds just when the generator, both keys and both certificates do; it names the first step that fails.\<close>

lemma spike_exit:
  "fst (spike_main lib parse caGen leafGen) = 0 \<longleftrightarrow>
     xl_seed lib = 0 \<and> (\<exists>caKey leafKey pem1 pem2. caGen = (0, 0, caKey) \<and> leafGen = (0, 0, leafKey)
       \<and> written lib caKey caKey spike_dn spike_dn 1 [1] pem1
       \<and> written lib leafKey caKey ''CN=example.com'' spike_dn 0 [0x10, 0x01] pem2)"
proof -
  obtain s1 g1 caKey where c: "caGen = (s1, g1, caKey)" by (cases caGen)
  obtain s2 g2 leafKey where l: "leafGen = (s2, g2, leafKey)" by (cases leafGen)
  obtain rc3 pem1 where w1: "WriteCert lib caKey caKey spike_dn spike_dn 1 [1] [] = (rc3, pem1)" by fastforce
  obtain rc4 pem2 where w2: "WriteCert lib leafKey caKey ''CN=example.com'' spike_dn 0 [0x10, 0x01] pem1 = (rc4, pem2)" by fastforce
  have 1: "(\<exists>pem. written lib caKey caKey spike_dn spike_dn 1 [1] pem) \<longleftrightarrow> rc3 = 0"
    unfolding WriteCert_ok [symmetric, where old = "[]"] using w1 by simp
  have 2: "(\<exists>pem. written lib leafKey caKey ''CN=example.com'' spike_dn 0 [0x10, 0x01] pem) \<longleftrightarrow> rc4 = 0"
    unfolding WriteCert_ok [symmetric, where old = pem1] using w2 by simp
  have "fst (spike_main lib parse caGen leafGen) = 0 \<longleftrightarrow> xl_seed lib = 0 \<and> (s1 = 0 \<and> g1 = 0) \<and> (s2 = 0 \<and> g2 = 0) \<and> rc3 = 0 \<and> rc4 = 0"
    by (simp add: spike_main_def spike_GenRsaKey_def c l w1 w2)
  also have "\<dots> \<longleftrightarrow> xl_seed lib = 0 \<and> (s1 = 0 \<and> g1 = 0) \<and> (s2 = 0 \<and> g2 = 0)
      \<and> (\<exists>pem. written lib caKey caKey spike_dn spike_dn 1 [1] pem)
      \<and> (\<exists>pem. written lib leafKey caKey ''CN=example.com'' spike_dn 0 [0x10, 0x01] pem)"
    by (simp only: 1 2)
  finally show ?thesis by (simp only: c l prod.inject) blast
qed

text \<open>Parsing the leaf back is printed and nothing else: the program reports success also when it fails.\<close>

lemma spike_ignores_parse:
  "fst (spike_main lib parse caGen leafGen) = fst (spike_main lib parse' caGen leafGen)"
  "fst (spike_main lib parse caGen leafGen) = 0 \<Longrightarrow> last (snd (spike_main lib parse caGen leafGen)) = ''SPIKE OK'' @ LF"
  by (auto simp: spike_main_def split: prod.splits if_splits)

text \<open>With a library whose calls succeed and a parser that fails.\<close>

lemma spike_unchecked:
  "fst (spike_main sample_lib (\<lambda>_. -1) (0, 0, 1) (0, 0, 2)) = 0"
  by (auto simp: spike_exit written_def sample_lib_def)

end
