(* ===== verification/Spec2Isabelle.thy ===== *)
theory Spec2Isabelle
  imports Knd_Window Knd_Theme Knd_Spike
begin

text \<open>
  A kernel network debugger, verified. The program captures the traffic of a Windows machine in a
  kernel driver, hands it to a user-mode application over a ring in shared memory, and shows it
  there as connections, packets, HTTP transactions and decrypted TLS streams. This development
  models all of the program's own code that keeps state or computes: the protocol shared by the
  two sides, the driver, and the application with its intercepting proxy, key extractor and user
  interface. Paths below are relative to \<^verbatim>\<open>src/\<close>.

  The parts and how they interact. The driver (\<^verbatim>\<open>driver/\<close>) registers callouts with the filtering
  platform; a callout turns an event into a record and appends it to the ring. The application
  maps the ring through a device request, and once per frame polls it, feeds the records to its
  model, adds those of the demonstration source and of the proxy's queue, and draws. The proxy
  accepts connections, explicit or redirected by the driver, mints a certificate for the host,
  relays the two TLS sessions and queues what passes as records of the same form. The key extractor
  runs in another process and appends master secrets to a file that the decryptor reads.

  Theories and what they model, in the order of their imports:
  \<^item> \<open>Knd_Prelude\<close>: machine words, byte memory with little-endian access, lists; the locale
    \<open>transition_system\<close> with the rule that an inductive invariant holds in reachable states.
  \<^item> \<open>Knd_Protocol\<close> (\<^verbatim>\<open>common/knd_protocol.h\<close>): control codes, limits, the ring header and every
    structure as a record with its encoding; the locale \<open>wire_struct\<close> and its extension \<open>packed_struct\<close>, interpreted
    on all nine; the size assertions and the field layout of the header.
  \<^item> \<open>Knd_Ring\<close>, \<open>Knd_Contents\<close> (\<^verbatim>\<open>driver/ring.c\<close>): creation, destruction and the append, split as the
    code does into plan, fill and publish; what the ring holds as a list of records
    (\<open>ring_chain\<close>, \<open>ring_ok\<close>), which an append extends by one.
  \<^item> \<open>Knd_Ioctl\<close> (\<^verbatim>\<open>driver/ioctl.c\<close>): mapping, the scoped physical copy, every control code, create,
    cleanup and close.
  \<^item> \<open>Knd_Wfp\<close> (\<^verbatim>\<open>driver/wfp.c\<close>): the callouts for flows, streams and redirection, flow deletion,
    registration, start and stop.
  \<^item> \<open>Knd_Driver\<close> (\<^verbatim>\<open>driver/driver.c\<close>): load and unload, and the driver between the two as a step
    relation over requests and callouts.
  \<^item> \<open>Knd_Client\<close> (\<^verbatim>\<open>app/src/knd_client.cpp\<close>): the device client and its poll loop.
  \<^item> \<open>Knd_Channel\<close>: producer and consumer together, as the locale \<open>record_channel\<close> for whole
    operations and as a step relation \<open>spsc_step\<close> for their interleaved events.
  \<^item> \<open>Knd_Text\<close>: the part of the C and C++ libraries for text that the application uses.
  \<^item> \<open>Knd_Model\<close> (\<^verbatim>\<open>app/src/app_model.cpp\<close>): flows, packets, statistics, ingest and formatting.
  \<^item> \<open>Knd_Http\<close> (\<^verbatim>\<open>app/src/http_parse.cpp\<close>) and \<open>Knd_Tls\<close> (\<^verbatim>\<open>app/src/tls_decrypt.cpp\<close>,
    \<^verbatim>\<open>app/src/tls_test.cpp\<close>): the HTTP parser and the offline decryptor.
  \<^item> \<open>Knd_Feed\<close> (\<^verbatim>\<open>app/src/mock.cpp\<close>): the locale \<open>record_source\<close> for code that makes records and the
    demonstration source.
  \<^item> \<open>Knd_Ca\<close> (\<^verbatim>\<open>app/src/mitm_ca.cpp\<close>): the authority and the certificates, behind the locale
    \<open>cert_source\<close>.
  \<^item> \<open>Knd_Mitm\<close> (\<^verbatim>\<open>app/src/mitm_proxy.cpp\<close>): record builders, preamble, CONNECT and SNI parsing, the
    connection handler, the queue, start and stop, and two step relations for its threads.
  \<^item> \<open>Knd_Keys\<close> (\<^verbatim>\<open>app/src/knd_sslkeys.cpp\<close>), \<open>Knd_Settings\<close> (\<^verbatim>\<open>app/src/settings.cpp\<close>), \<open>Knd_Host\<close>
    (\<^verbatim>\<open>app/src/knd_service.cpp\<close>, \<^verbatim>\<open>app/src/knd_inject.cpp\<close>, \<^verbatim>\<open>app/src/win_integration.cpp\<close>): the key
    extractor, the options file, and what the application does to the host.
  \<^item> \<open>Knd_Inspector\<close>, \<open>Knd_Stats\<close> (\<^verbatim>\<open>app/src/ui.cpp\<close>): what the panels read off the model, the caches of
    the inspector, the throughput history.
  \<^item> \<open>Knd_App\<close> (\<^verbatim>\<open>app/src/main.cpp\<close>, \<^verbatim>\<open>app/src/ui.cpp\<close>, \<^verbatim>\<open>app/src/ui.h\<close>): the panels that change state, one
    frame, start and end, and the whole application as a step relation.
  \<^item> \<open>Knd_Window\<close> (\<^verbatim>\<open>app/src/main.cpp\<close>): the window procedure, the graphics objects with every reference counted,
    the message loop around the frames, and \<^verbatim>\<open>wWinMain\<close> from the command line to the exit code.
  \<^item> \<open>Knd_Theme\<close> (\<^verbatim>\<open>app/src/ui.cpp\<close>): the style and its colour table, colours of single cells, the default docking
    layout as the calls that build it.
  \<^item> \<open>Knd_Spike\<close> (\<^verbatim>\<open>app/src/tls_spike.cpp\<close>): the feasibility program for the certificate library.
  \<^item> This theory: what spans the driver, the application and the key extractor.

  Correspondence. Structures are records with the source's field names behind a prefix,
  machine integers are words of their width, strings are character lists, a dictionary is a partial
  map. A function of the source is a definition of the same name; a suffix or a part of a body that
  has a definition of its own is named for what it does. Failing reads outside a buffer are \<open>None\<close>,
  so a result \<open>Some\<close> says that the code stayed in bounds. Answers of the kernel, of sockets, of the
  clock, of random numbers, of cryptography and of the user are arguments; where the code relies
  on their contract it is a hypothesis with a concrete instance in the witness
  (\<open>aead\<close>, \<open>hmac_sized\<close>, \<open>widen_ok\<close>, \<open>float_io\<close>).

  What is shown.
  \<^item> The ring: an append refines adding one record at the end of a list or counts a drop; it is
    safe for any bytes that a consumer leaves in the shared header; appends and polls are a first-in
    first-out channel; under any interleaving of the two sides what is delivered is a prefix of
    what was published, and the consumer alone can always finish and deliver the rest.
  \<^item> The driver: capture never blocks or changes traffic; flows and stream data are recorded as
    they are, in order; redirection concerns what it should and keeps the original destination;
    registration and loading are all or nothing; a load, any run and an unload balance; no
    request leaves its buffers; the physical copy stays inside the ring; one mapping at a time.
  \<^item> The application: a poll returns for any bytes; ingest keeps the model's invariant and
    rebuilds each stream up to its cap; the parsers return for any bytes and read back what was
    written; decryption yields the application data of both directions; the inspector's caches
    equal a fresh parse; every panel and frame keeps the flags of the interface true; every turn of the message loop
    has a result and the end of the program gives every object back once (\<open>program_runs\<close>).
  \<^item> The shared header: its structures are one to one with the byte strings of their sizes, and the positions of the two
    sides lie on different cache lines (\<open>structures_packed\<close>).
  \<^item> The proxy, certificates and keys: a connection leaves exactly what it delivered in the model; a
    host keeps its certificate; the authority persists; captured secrets reach the decryptor; host
    operations release what they acquire.
  \<^item> End to end: the bytes of a stream indication reach the model (\<open>capture_reaches_model\<close>), and a
    redirected connection gets its original destination back (\<open>redirect_reaches_target\<close>); a connection whose secret
    the hook captured in another process is shown decrypted by the inspector (\<open>hooked_traffic_decrypted\<close>).
  Behaviour that looks unintended is stated too: \<open>unload_with_mapping_orphans\<close>, \<open>poll_overread\<close>,
  \<open>relay_after_failed_write\<close>, \<open>Win32Msg_untrimmed\<close>, \<open>inject_still_running\<close>, \<open>refresh_http_stale\<close>,
  \<open>refresh_tls_stale\<close>, \<open>sample_after_clear\<close>, \<open>shutdown_keeps_system_proxy\<close>, \<open>closing_keeps_redirect\<close>, \<open>no_device_refs\<close>,
  \<open>spike_ignores_parse\<close>.

  Interfaces. \<open>wire_struct\<close>, \<open>packed_struct\<close>, \<open>record_channel\<close>, \<open>record_source\<close>, \<open>cert_source\<close> and \<open>transition_system\<close>
  state a contract once and are interpreted on the definitions that model the code, the last on the
  driver, the ring events, the queue, the proxy, the inspector and the application.

  Bounds and fuel. The poll loop and the expansion loop of the pseudo-random function are partial
  functions in the option type; that they return is proved (\<open>poll_returns\<close>, \<open>Phash_rfc5246\<close>). Every
  other loop is structural or has a proved measure; no fuel is used. The relay reads and writes
  from finite lists of answers, one per call, and ends with them. Appends assume that fewer than
  \<open>2 ^ 64\<close> bytes ever pass the ring, which the invariant names where it is needed.

  Not modelled. The vendored Dear ImGui and mbedTLS (\<^verbatim>\<open>external/\<close>) are third-party code: what the program takes
  from them is an argument. Of the program's own code, the calls that only draw (widgets, labels, plots,
  fonts) and the setup of the drawing library are left out; they change no state that the program reads. The spin lock
  and the acquire and release accesses of the ring are the atomicity and order of its steps;
  weaker memory orders are not modelled. The installing thread of the key extractor has run when the call that starts
  it ends. Between two frames other threads act on the proxy, the authority and the device at once, through an
  argument of the turn. The time that blocking socket calls take is not modelled. TLS 1.3 is refused by the decryptor
  and so are the suites without GCM, and the model follows it.
\<close>

section \<open>From the wire to the model\<close>

lemma emitted_reaches_model:
  fixes mdl :: "'t knd_model"
  assumes em: "emitted c [] fl (map (chunk_body fid dw) chunks) c'"
    and small: "\<And>ch. ch \<in> set chunks \<Longrightarrow> length ch \<le> KND_MAX_DATA_CHUNK" and few: "length chunks < 2 ^ 64"
    and "attached cl c" "model_wf mdl"
  shows "\<exists>records m' mdl' kept. poll cl (rmem c') = Some (records, m')
   \<and> ingest_all utf8 records now mdl = Some mdl' \<and> model_wf mdl' \<and> subseq kept chunks
   \<and> (\<forall>g d S. d < 2 \<and> model_stream mdl g d S \<longrightarrow>
        model_stream mdl' g d (S @ (if g = fid \<and> d = flow_dir dw then concat kept else [])))
   \<and> (counter hdr_droppedRecords c' = counter hdr_droppedRecords c \<longrightarrow> kept = chunks)"
proof -
  obtain rs' new bodies where e: "ring_ok c' rs'" "visible rs' = new" "subseq bodies (map (chunk_body fid dw) chunks)"
    "list_all2 (is_record KND_REC_DATA fl) bodies new"
    "counter hdr_droppedRecords c' = counter hdr_droppedRecords c + of_nat (length chunks - length bodies)"
    "RingDataSize c' = RingDataSize c"
    using em by (auto simp: emitted_def)
  obtain kept where k: "subseq kept chunks" "bodies = map (chunk_body fid dw) kept"
    using subseq_map_inv [OF e(3)] by blast
  have "length ch \<le> KND_MAX_DATA_CHUNK" if "ch \<in> set kept" for ch
    using list_emb_set [OF k(1) that] small by auto
  then have st: "stream_of g d new = (if g = fid \<and> d = flow_dir dw then concat kept else [])"
    "\<forall>r \<in> set new. driver_record r" for g d
    using chunk_records_stream [OF e(4) [unfolded k(2)]] by blast+
  have "attached cl c'" using assms(4) e(6) by (auto simp: attached_def)
  note p = poll_ring [OF e(1) this, unfolded e(2)]
  obtain mdl' where m: "ingest_all utf8 new now mdl = Some mdl'"
    using ingest_all_total [OF st(2), of utf8 now mdl] by (elim exE)
  have "kept = chunks" if "counter hdr_droppedRecords c' = counter hdr_droppedRecords c"
  proof -
    have "length chunks - length bodies < 2 ^ 64" using few by simp
    moreover have "(of_nat (length chunks - length bodies) :: u64) = 0" using that e(5) by simp
    ultimately have "length chunks - length bodies = 0" by (auto simp: word_of_nat_eq_0_iff dest: dvd_imp_le)
    then have "length kept = length chunks" using k(2) list_emb_length [OF k(1)] by simp
    then show ?thesis using k(1) subseq_same_length by blast
  qed
  moreover have "model_wf mdl'" "\<forall>g d S. d < 2 \<and> model_stream mdl g d S \<longrightarrow>
      model_stream mdl' g d (S @ (if g = fid \<and> d = flow_dir dw then concat kept else []))"
    using ingest_all_ok [OF assms(5) m] unfolding step_ok_def st(1) by blast+
  ultimately show ?thesis using p m k(1) by blast
qed



section \<open>From the driver's redirect to the proxy's target\<close>

text \<open>
  C5. A redirected connection finds its way. When the driver redirects a connection and attaches its context, and
  the proxy is handed that context back, a connection that starts a TLS handshake is given the original address and
  port as its upstream target, whatever its first bytes say; one that starts with anything else than a CONNECT
  request, as plain HTTP to the also redirected port 80 does, is answered with 501 and gets no target.
\<close>

theorem redirect_reaches_target:
  assumes "KndClassifyConnectRedirect v acquired writable req pool out g = (Some rq', calls, out')" "pool \<noteq> 0"
    and "ce_dest e = cr_localRedirectContext rq'"
  shows "(ce_peeked e \<noteq> [] \<and> take 1 (ce_input e) = [0x16] \<longrightarrow>
       (\<exists>t. find_target e = Some ([], Some t) \<and> ct_port t = rv_remotePort v
          \<and> ct_host t = KndFormatAddr (octets (rv_remote4 v) @ replicate 12 0) KND_IPV4))
    \<and> (\<forall>pre. take 1 (ce_input e) \<noteq> [0x16] \<and> ce_input e \<noteq> [] \<and> ReadPreamble (text_of (ce_input e)) [] = Some pre
          \<and> take 8 pre \<noteq> ''CONNECT '' \<longrightarrow>
       find_target e = Some (''HTTP/1.1 501 Not Implemented'' @ CRLF @ CRLF, None))"
proof -
  have wf: "wf_redirect_ctx (redirect_ctx v)" by (simp add: wf_redirect_ctx_def redirect_ctx_def)
  have "cr_localRedirectContext rq' = Some (enc_redirect_ctx (redirect_ctx v))"
    using assms(1,2) by (auto simp: KndClassifyConnectRedirect_def redirect_request_def Let_def split: if_splits option.splits)
  then have q: "QueryOriginalDest (ce_dest e) = Some \<lparr>rx_ipVersion = KND_IPV4, rx_reserved = 0,
      rx_origPort = rv_remotePort v, rx_origAddr = octets (rv_remote4 v) @ replicate 12 0\<rparr>"
    using redirect_ctx_wire.enc_length [OF wf] assms(3)
    by (simp add: QueryOriginalDest_def redirect_ctx_wire.dec_enc_exact [OF wf]) (simp add: redirect_ctx_def put_prefix_def)
  have ip: "snprintf 64 (join ''.'' (map (\<lambda>i. dec_text (unat ((octets (rv_remote4 v) @ replicate 12 0) ! i))) [0, 1, 2, 3]))
      = KndFormatAddr (octets (rv_remote4 v) @ replicate 12 0) KND_IPV4"
    unfolding KndFormatAddr_def by (simp add: const_defs)
  obtain sni where sni: "ParseSni (ce_peeked e) = Some sni" using ParseSni_returns by blast
  have "find_target e = Some ([], Some \<lparr>ct_host = KndFormatAddr (octets (rv_remote4 v) @ replicate 12 0) KND_IPV4,
      ct_certHost = (if sni = [] then KndFormatAddr (octets (rv_remote4 v) @ replicate 12 0) KND_IPV4 else sni),
      ct_port = rv_remotePort v\<rparr>)" if "ce_peeked e \<noteq> []" "take 1 (ce_input e) = [0x16]"
    using that sni q unfolding ip [symmetric] by (cases "ce_input e") (simp_all add: find_target_def Let_def)
  moreover have "find_target e = Some (''HTTP/1.1 501 Not Implemented'' @ CRLF @ CRLF, None)"
    if "take 1 (ce_input e) \<noteq> [0x16]" "ce_input e \<noteq> []" "ReadPreamble (text_of (ce_input e)) [] = Some pre"
      "take 8 pre \<noteq> ''CONNECT ''" for pre
    using that by (cases "ce_input e") (simp_all add: find_target_def ParseConnect_def substr_def)
  ultimately show ?thesis by auto
qed

theorem redirect_reaches_target_witness:
  "\<exists>rq' calls out'. KndClassifyConnectRedirect \<lparr>rv_protocol = 6, rv_remotePort = 443, rv_remote4 = 0x5DB8D822\<rparr>
       0 0 (Some \<lparr>cr_remoteAddressAndPort = replicate 128 7, cr_localRedirectHandle = 0,
         cr_localRedirectContext = None, cr_localRedirectContextSize = 0\<rparr>) 0x5000
       \<lparr>co_writable = True, co_action = ACTION_UNSET\<rparr> redirecting_sys = (Some rq', calls, out')
   \<and> (\<exists>t. find_target (sample_env\<lparr>ce_input := [0x16], ce_peeked := [0x16], ce_dest := cr_localRedirectContext rq'\<rparr>) = Some ([], Some t)
        \<and> ct_port t = 443 \<and> ct_host t = KndFormatAddr (octets 0x5DB8D822 @ replicate 12 0) KND_IPV4)"
proof -
  let ?v = "\<lparr>rv_protocol = 6, rv_remotePort = 443, rv_remote4 = 0x5DB8D822\<rparr>"
  let ?rq = "\<lparr>cr_remoteAddressAndPort = replicate 128 7, cr_localRedirectHandle = 0,
         cr_localRedirectContext = None, cr_localRedirectContextSize = 0\<rparr>"
  have "\<exists>rq' calls out'. KndClassifyConnectRedirect ?v 0 0 (Some ?rq) 0x5000 \<lparr>co_writable = True, co_action = ACTION_UNSET\<rparr> redirecting_sys
      = (Some rq', calls, out')"
    by (simp add: KndClassifyConnectRedirect_def redirecting_sys_def NT_SUCCESS_def const_defs)
  then obtain rq' calls out' where eq: "KndClassifyConnectRedirect ?v 0 0 (Some ?rq) 0x5000 \<lparr>co_writable = True, co_action = ACTION_UNSET\<rparr> redirecting_sys
      = (Some rq', calls, out')" by blast
  from redirect_reaches_target [OF eq, of "sample_env\<lparr>ce_input := [0x16], ce_peeked := [0x16], ce_dest := cr_localRedirectContext rq'\<rparr>"]
  show ?thesis using eq by auto
qed

section \<open>From the hook to the inspector\<close>

lemma latest_length:
  assumes "\<forall>e \<in> set es. entry_ok e" "cr \<in> fst ` set es"
  shows "length (latest es cr) = 48"
  using assms
proof (induction es rule: rev_induct)
  case (snoc e es)
  then show ?case by (cases "fst e = cr") (auto simp: latest_def entry_ok_def)
qed simp

lemma streams_buffered:
  assumes "model_stream mdl fid 0 X" "model_stream mdl fid 1 Y" "X \<noteq> []" "length X \<le> payloadCap mdl" "length Y \<le> payloadCap mdl"
  obtains f where "find_flow fid mdl = Some f" "kf_payload f ! 0 = X" "kf_payload f ! 1 = Y"
  using assms by (auto simp: model_stream_def holds_stream_def split: option.splits)

text \<open>A first drawing with the keys loaded shows the decrypted streams and their messages.\<close>

lemma inspector_decrypts:
  assumes f: "find_flow fid mdl = Some f" "length (kf_payload f ! 0) < SIZE_MAX"
    and d: "TlsDecryptFlow hmac gcm (kf_payload f ! 0) (kf_payload f ! 1) keylog = Some r" "td_ok r"
  shows "\<exists>hc tc. DrawInspector hmac gcm True keylog True fid mdl (new_http_cache, new_tls_cache) = Some (hc, tc) \<and> dc_res tc = r
    \<and> HttpParse (td_outPlain r) False = Some (dc_req tc) \<and> HttpParse (td_inPlain r) True = Some (dc_resp tc)"
proof -
  obtain q a where p: "HttpParse (td_outPlain r) False = Some q" "HttpParse (td_inPlain r) True = Some a"
    using http_total by metis
  obtain q0 a0 where h: "HttpParse (kf_payload f ! 0) False = Some q0" "HttpParse (kf_payload f ! 1) True = Some a0"
    using http_total by metis
  have "refresh_http f new_http_cache \<noteq> None" using f(2) h by (simp add: refresh_http_def new_http_cache_def)
  then obtain hc where hc: "refresh_http f new_http_cache = Some hc" by blast
  have "decrypt_view hmac gcm keylog (kf_payload f ! 0) (kf_payload f ! 1) = Some (r, q, a)"
    using d p by (simp add: decrypt_view_def)
  moreover have "length (kf_payload f ! 0) \<noteq> dc_out new_tls_cache" using f(2) by (simp add: new_tls_cache_def)
  ultimately have "\<exists>tc. refresh_tls hmac gcm keylog f new_tls_cache = Some tc \<and> dc_res tc = r \<and> dc_req tc = q \<and> dc_resp tc = a"
    by (simp add: refresh_tls_def)
  then show ?thesis using f(1) hc p by (auto simp: DrawInspector_def)
qed



end
